(* ===== verification/Prelude.thy ===== *)
theory Prelude
  imports Main "HOL-Library.Word"
begin

text \<open>
  Shared vocabulary of the development: the machine types of the C++ code, \<open>size_t\<close>
  arithmetic with its wrap-around, byte buffers, C strings, and the lemma collections the
  component theories fill.
\<close>

section \<open>Lemma collections\<close>

named_theorems bounds_simps \<open>constants of the program, unfolded for arithmetic\<close>
named_theorems buffer_simps \<open>lengths and lookups of byte buffers\<close>
named_theorems frame_simps \<open>fields an operation leaves alone\<close>

section \<open>Machine types\<close>

type_synonym byte = "8 word"
type_synonym bytes = "8 word list"
type_synonym uint16 = "16 word"

text \<open>
  A \<open>size_t\<close> is a natural number below \<open>2 ^ 64\<close>. Subtraction wraps around, as in C++,
  when the subtrahend is larger.
\<close>

definition SIZE_MODULUS :: nat where
  "SIZE_MODULUS = 2 ^ 64"

definition size_sub :: "nat \<Rightarrow> nat \<Rightarrow> nat" where
  "size_sub a b = (if b \<le> a then a - b else SIZE_MODULUS + a - b)"

definition size_inc :: "nat \<Rightarrow> nat" where
  "size_inc n = (n + 1) mod SIZE_MODULUS"

definition size_dec :: "nat \<Rightarrow> nat" where
  "size_dec n = size_sub n 1"

lemma size_sub_le [simp]: "b \<le> a \<Longrightarrow> size_sub a b = a - b"
  by (simp add: size_sub_def)

lemma size_sub_wraps: "a < b \<Longrightarrow> b < SIZE_MODULUS \<Longrightarrow> a < size_sub a b"
  by (simp add: size_sub_def)

lemma size_dec_Suc [simp]: "size_dec (Suc n) = n"
  by (simp add: size_dec_def)

lemma size_dec_0: "size_dec 0 = SIZE_MODULUS - 1"
  by (simp add: size_dec_def size_sub_def SIZE_MODULUS_def)

lemma size_dec_pos: "0 < n \<Longrightarrow> size_dec n = n - 1"
  by (simp add: size_dec_def)

lemma size_inc_small [simp]: "Suc n < SIZE_MODULUS \<Longrightarrow> size_inc n = Suc n"
  by (simp add: size_inc_def)

section \<open>Byte buffers\<close>

text \<open>The memory written by \<open>recv\<close>: \<open>data\<close> lands at offset \<open>off\<close> of the buffer.\<close>

definition blit :: "'a list \<Rightarrow> nat \<Rightarrow> 'a list \<Rightarrow> 'a list" where
  "blit buf off data = take off buf @ data @ drop (off + length data) buf"

lemma length_blit [simp, buffer_simps]:
  "off + length data \<le> length buf \<Longrightarrow> length (blit buf off data) = length buf"
  by (simp add: blit_def)

lemma take_blit:
  "off \<le> length buf \<Longrightarrow> take (off + length data) (blit buf off data) = take off buf @ data"
  by (simp add: blit_def)

lemma take_blit_before:
  "n \<le> off \<Longrightarrow> off \<le> length buf \<Longrightarrow> take n (blit buf off data) = take n buf"
  by (simp add: blit_def min_def)

lemma drop_blit:
  "off \<le> length buf \<Longrightarrow> drop (off + length data) (blit buf off data) = drop (off + length data) buf"
  by (simp add: blit_def)

lemma blit_Nil [simp]: "blit buf off [] = buf"
  by (simp add: blit_def)

lemma nth_blit:
  assumes "off + length data \<le> length buf" and "i < length buf"
  shows "blit buf off data ! i =
    (if off \<le> i \<and> i < off + length data then data ! (i - off) else buf ! i)"
  using assms by (auto simp: blit_def nth_append min_def)

lemma blit_blit:
  assumes "off + length a + length b \<le> length buf"
  shows "blit (blit buf off a) (off + length a) b = blit buf off (a @ b)"
proof -
  have "min (length buf) off = off" using assms by simp
  then show ?thesis by (simp add: blit_def ac_simps)
qed

lemma nth_take_eq: "take n xs = take n ys \<Longrightarrow> i < n \<Longrightarrow> xs ! i = ys ! i"
  by (metis nth_take)

text \<open>The loop of \<open>zero_memory\<close> (zero_memory.h), and what it computes.\<close>

function zero_memory_from :: "nat \<Rightarrow> bytes \<Rightarrow> nat \<Rightarrow> bytes" where
  "zero_memory_from idx objects object_count =
     (if idx < object_count
      then zero_memory_from (idx + 1) (objects[idx := 0]) object_count
      else objects)"
  by pat_completeness auto
termination
  by (relation "measure (\<lambda>(idx, _, n). n - idx)") auto

declare zero_memory_from.simps [simp del]

definition zero_memory :: "bytes \<Rightarrow> nat \<Rightarrow> bytes" where
  "zero_memory objects object_count = zero_memory_from 0 objects object_count"

lemma length_zero_memory_from [simp]:
  "length (zero_memory_from idx objects n) = length objects"
  by (induction idx objects n rule: zero_memory_from.induct)
    (subst zero_memory_from.simps, simp)

lemma nth_zero_memory_from:
  "i < length objects \<Longrightarrow>
   zero_memory_from idx objects n ! i = (if idx \<le> i \<and> i < n then 0 else objects ! i)"
proof (induction idx objects n rule: zero_memory_from.induct)
  case (1 idx objects n)
  then show ?case
    by (subst zero_memory_from.simps) (auto simp: nth_list_update)
qed

lemma length_zero_memory [simp, buffer_simps]: "length (zero_memory buf n) = length buf"
  by (simp add: zero_memory_def)

lemma zero_memory_all [simp, buffer_simps]:
  "length buf = n \<Longrightarrow> zero_memory buf n = replicate n 0"
  by (rule nth_equalityI) (simp_all add: zero_memory_def nth_zero_memory_from)

section \<open>C strings\<close>

text \<open>The bytes of a string literal, and what a \<open>const char*\<close> reader sees of a buffer.\<close>

definition ascii :: "string \<Rightarrow> bytes" where
  "ascii s = map of_char s"

definition c_string :: "bytes \<Rightarrow> bytes" where
  "c_string bs = takeWhile (\<lambda>b. b \<noteq> 0) bs"

lemma length_ascii [simp]: "length (ascii s) = length s"
  by (simp add: ascii_def)

lemma c_string_id: "0 \<notin> set bs \<Longrightarrow> c_string bs = bs"
  unfolding c_string_def by (rule takeWhile_eq_all_conv [THEN iffD2]) auto

lemma c_string_no_nul: "0 \<notin> set (c_string bs)"
  by (auto simp: c_string_def dest: set_takeWhileD)

lemma length_c_string: "length (c_string bs) \<le> length bs"
  by (simp add: c_string_def length_takeWhile_le)

section \<open>Results\<close>

text \<open>
  A statement of C++ ends normally, by an exception (with the state at the time of the
  throw), or the program has left the language: a null pointer called, a descriptor outside
  an \<open>fd_set\<close>.
\<close>

datatype ('e, 'a) outcome =
    Normal (normal_value: 'a)
  | Raised 'e 'a
  | Undefined_Behaviour

fun bind_outcome :: "('e, 'a) outcome \<Rightarrow> ('a \<Rightarrow> ('e, 'a) outcome) \<Rightarrow> ('e, 'a) outcome" where
  "bind_outcome (Normal a) f = f a"
| "bind_outcome (Raised e a) f = Raised e a"
| "bind_outcome Undefined_Behaviour f = Undefined_Behaviour"

lemma bind_outcome_assoc:
  "bind_outcome (bind_outcome m f) g = bind_outcome m (\<lambda>a. bind_outcome (f a) g)"
  by (cases m) simp_all

section \<open>Decimal digits\<close>

text \<open>A number as the standard library prints it.\<close>

fun decimal :: "nat \<Rightarrow> bytes" where
  "decimal n = (if n < 10 then [of_nat (48 + n)] else decimal (n div 10) @ [of_nat (48 + n mod 10)])"

declare decimal.simps [simp del]

end
