(* ===== verification/Exceptions.thy ===== *)
theory Exceptions
  imports Prelude
begin

text \<open>
  The exception classes of the program (exceptions.h, exceptions.cpp, client_exceptions.h,
  server_exceptions.h, Arguments.h) as one datatype of raised errors, the error identifiers
  of \<open>InetException\<close> and \<open>OsException\<close>, and their descriptions.
\<close>

datatype inet_error_id =
    INET_UNKNOWN | INVALID_ADDRESS | UNKNOWN_AF | UNSUPPORTED_AF | INVALID_PORT_NUMBER
  | SOCKET_ERROR | BIND_FAILED | LISTEN_ERROR | NETWORK_UNREACHABLE | CONNECTION_REFUSED
  | CONNECT_FAILED

fun inet_error_code :: "inet_error_id \<Rightarrow> nat" where
  "inet_error_code INET_UNKNOWN = 0"
| "inet_error_code INVALID_ADDRESS = 1"
| "inet_error_code UNKNOWN_AF = 2"
| "inet_error_code UNSUPPORTED_AF = 3"
| "inet_error_code INVALID_PORT_NUMBER = 4"
| "inet_error_code SOCKET_ERROR = 5"
| "inet_error_code BIND_FAILED = 6"
| "inet_error_code LISTEN_ERROR = 7"
| "inet_error_code NETWORK_UNREACHABLE = 8"
| "inet_error_code CONNECTION_REFUSED = 9"
| "inet_error_code CONNECT_FAILED = 10"

datatype os_error_id =
    OS_UNKNOWN | INVALID_SELECT_FD | IO_ERROR | NBLK_IO_ERROR | IPC_ERROR | DYN_LOAD_ERROR
  | SIGNAL_HND_ERROR

fun os_error_code :: "os_error_id \<Rightarrow> nat" where
  "os_error_code OS_UNKNOWN = 0"
| "os_error_code INVALID_SELECT_FD = 1"
| "os_error_code IO_ERROR = 2"
| "os_error_code NBLK_IO_ERROR = 3"
| "os_error_code IPC_ERROR = 4"
| "os_error_code DYN_LOAD_ERROR = 5"
| "os_error_code SIGNAL_HND_ERROR = 6"

text \<open>\<open>InetException::get_error_description\<close> and \<open>OsException::get_error_description\<close>.\<close>

fun inet_error_description :: "inet_error_id \<Rightarrow> string" where
  "inet_error_description INVALID_ADDRESS = ''Network address not valid for the selected address family''"
| "inet_error_description UNKNOWN_AF = ''Unknown address family specified''"
| "inet_error_description UNSUPPORTED_AF = ''Selected address family not supported by the platform''"
| "inet_error_description INVALID_PORT_NUMBER = ''IP port number not valid''"
| "inet_error_description SOCKET_ERROR = ''Network socket error''"
| "inet_error_description BIND_FAILED = ''Binding a socket failed''"
| "inet_error_description LISTEN_ERROR = ''Server socket listen(...) failed''"
| "inet_error_description NETWORK_UNREACHABLE = ''The destination network is unreachable''"
| "inet_error_description CONNECTION_REFUSED = ''The connection was refused by the peer''"
| "inet_error_description CONNECT_FAILED = ''The connection attempt failed (connect() system call failed)''"
| "inet_error_description INET_UNKNOWN = ''No error description is available''"

fun os_error_description :: "os_error_id \<Rightarrow> string" where
  "os_error_description INVALID_SELECT_FD = ''Invalid filedescriptor for select()''"
| "os_error_description IO_ERROR = ''I/O error''"
| "os_error_description NBLK_IO_ERROR = ''Non-blocking I/O initialization failed''"
| "os_error_description IPC_ERROR = ''IPC setup failed''"
| "os_error_description DYN_LOAD_ERROR = ''Dynamic loader/linker failed''"
| "os_error_description SIGNAL_HND_ERROR = ''Signal handler setup failed''"
| "os_error_description OS_UNKNOWN = ''No error description is available''"

text \<open>
  Everything the program can throw. \<open>RangeException\<close> and \<open>DuplicateInsertException\<close> are
  the exceptions of the CharBuffer and QTree libraries, \<open>BadAlloc\<close> and \<open>LogicError\<close> those
  of the standard library.
\<close>

datatype cpp_exception =
    InetException inet_error_id
  | OsException os_error_id
  | ProtocolException
  | RangeException
  | ArgumentsException bytes
  | ClientException bytes
  | PluginException
  | DuplicateInsertException
  | BadAlloc
  | LogicError

type_synonym 'a result = "cpp_exception + 'a"

text \<open>The identifiers compare as the numbers the enumerations give them.\<close>

lemma inet_error_code_inject [simp]: "inet_error_code a = inet_error_code b \<longleftrightarrow> a = b"
  by (cases a; cases b) simp_all

lemma os_error_code_inject [simp]: "os_error_code a = os_error_code b \<longleftrightarrow> a = b"
  by (cases a; cases b) simp_all

instantiation inet_error_id :: linorder
begin
definition less_eq_inet_error_id :: "inet_error_id \<Rightarrow> inet_error_id \<Rightarrow> bool" where
  "a \<le> b \<longleftrightarrow> inet_error_code a \<le> inet_error_code b"
definition less_inet_error_id :: "inet_error_id \<Rightarrow> inet_error_id \<Rightarrow> bool" where
  "a < b \<longleftrightarrow> inet_error_code a < inet_error_code b"
instance
  by standard (auto simp: less_eq_inet_error_id_def less_inet_error_id_def)
end

instantiation os_error_id :: linorder
begin
definition less_eq_os_error_id :: "os_error_id \<Rightarrow> os_error_id \<Rightarrow> bool" where
  "a \<le> b \<longleftrightarrow> os_error_code a \<le> os_error_code b"
definition less_os_error_id :: "os_error_id \<Rightarrow> os_error_id \<Rightarrow> bool" where
  "a < b \<longleftrightarrow> os_error_code a < os_error_code b"
instance
  by standard (auto simp: less_eq_os_error_id_def less_os_error_id_def)
end

text \<open>\<open>ClientException::param_length_error_msg\<close> appends to the message it is given.\<close>

definition param_length_error_msg :: "bytes \<Rightarrow> bytes \<Rightarrow> nat \<Rightarrow> bytes" where
  "param_length_error_msg error_msg param_key max_length =
     error_msg @ ascii ''The value of the '' @ param_key @ ascii '' parameter exceeds the maximum length of '' @
     decimal max_length @ ascii '' bytes''"

end
