(* ===== verification/Msg_Header.thy ===== *)
theory Msg_Header
  imports Exceptions
begin

unbundle bit_operations_syntax

text \<open>
  The message header (MsgHeader.h, MsgHeader.cpp) and the message types of the protocol
  (Shared.h): two big-endian 16-bit fields at the start of the I/O buffer.
\<close>

section \<open>Message types\<close>

datatype MsgType =
    ECHO_REQUEST | ECHO_REPLY | VERSION_REQUEST | FENCE_OFF | FENCE_ON | FENCE_REBOOT
  | FENCE_SUCCESS | FENCE_FAIL

fun msg_type_code :: "MsgType \<Rightarrow> uint16" where
  "msg_type_code ECHO_REQUEST = 0x0"
| "msg_type_code ECHO_REPLY = 0x1"
| "msg_type_code VERSION_REQUEST = 0x2"
| "msg_type_code FENCE_OFF = 0x81"
| "msg_type_code FENCE_ON = 0x82"
| "msg_type_code FENCE_REBOOT = 0x83"
| "msg_type_code FENCE_SUCCESS = 0xA0"
| "msg_type_code FENCE_FAIL = 0xA1"

text \<open>The case a \<open>switch (static_cast<MsgType> (code))\<close> selects; \<open>None\<close> is \<open>default\<close>.\<close>

definition switch_msg_type :: "uint16 \<Rightarrow> MsgType option" where
  "switch_msg_type code =
     find (\<lambda>m. msg_type_code m = code)
       [ECHO_REQUEST, VERSION_REQUEST, FENCE_OFF, FENCE_ON, FENCE_REBOOT, FENCE_SUCCESS,
        FENCE_FAIL, ECHO_REPLY]"

lemma msg_type_code_inject [simp]: "msg_type_code a = msg_type_code b \<longleftrightarrow> a = b"
  by (cases a; cases b) simp_all

lemma switch_msg_type_code [simp]: "switch_msg_type (msg_type_code m) = Some m"
  by (cases m) (simp_all add: switch_msg_type_def)

lemma switch_msg_type_Some: "switch_msg_type code = Some m \<longleftrightarrow> code = msg_type_code m"
proof
  show "code = msg_type_code m" if "switch_msg_type code = Some m"
    using that unfolding switch_msg_type_def find_Some_iff by metis
qed simp

instantiation MsgType :: linorder
begin
definition less_eq_MsgType :: "MsgType \<Rightarrow> MsgType \<Rightarrow> bool" where
  "a \<le> b \<longleftrightarrow> msg_type_code a \<le> msg_type_code b"
definition less_MsgType :: "MsgType \<Rightarrow> MsgType \<Rightarrow> bool" where
  "a < b \<longleftrightarrow> msg_type_code a < msg_type_code b"
instance
  by standard (auto simp: less_eq_MsgType_def less_MsgType_def less_le)
end

section \<open>The header and its operations\<close>

definition HEADER_SIZE :: nat where [bounds_simps]: "HEADER_SIZE = 4"
definition MSG_TYPE_OFFSET :: nat where [bounds_simps]: "MSG_TYPE_OFFSET = 0"
definition DATA_LENGTH_OFFSET :: nat where [bounds_simps]: "DATA_LENGTH_OFFSET = 2"

record msg_header =
  msg_type :: uint16
  data_length :: uint16

definition new_msg_header :: msg_header where
  "new_msg_header = \<lparr>msg_type = 0xFFFF, data_length = 0\<rparr>"

definition clear_header :: "msg_header \<Rightarrow> msg_header" where
  "clear_header h = h\<lparr>msg_type := 0xFFFF, data_length := 0\<rparr>"

definition is_msg_type :: "msg_header \<Rightarrow> MsgType \<Rightarrow> bool" where
  "is_msg_type h value = (msg_type h = msg_type_code value)"

definition set_msg_type :: "msg_header \<Rightarrow> MsgType \<Rightarrow> msg_header" where
  "set_msg_type h value = h\<lparr>msg_type := msg_type_code value\<rparr>"

definition bytes_to_field_value :: "bytes \<Rightarrow> nat \<Rightarrow> uint16" where
  "bytes_to_field_value buffer offset =
     (let value = ucast (buffer ! offset) :: uint16;
          value = push_bit 8 value
      in value OR ucast (buffer ! (offset + 1)))"

definition field_value_to_bytes :: "uint16 \<Rightarrow> bytes \<Rightarrow> nat \<Rightarrow> bytes" where
  "field_value_to_bytes value buffer offset =
     (let buffer = buffer[offset := ucast (drop_bit 8 value)]
      in buffer[offset + 1 := ucast (value AND 0xFF)])"

definition serialize :: "msg_header \<Rightarrow> bytes \<Rightarrow> bytes" where
  "serialize h io_buffer =
     (let io_buffer = field_value_to_bytes (msg_type h) io_buffer MSG_TYPE_OFFSET
      in field_value_to_bytes (data_length h) io_buffer DATA_LENGTH_OFFSET)"

definition deserialize :: "msg_header \<Rightarrow> bytes \<Rightarrow> msg_header" where
  "deserialize h io_buffer =
     h\<lparr>msg_type := bytes_to_field_value io_buffer MSG_TYPE_OFFSET,
       data_length := bytes_to_field_value io_buffer DATA_LENGTH_OFFSET\<rparr>"

lemma set_msg_type_sel [simp]:
  "msg_type (set_msg_type h m) = msg_type_code m"
  "data_length (set_msg_type h m) = data_length h"
  by (simp_all add: set_msg_type_def)

lemma is_msg_type_set [simp]: "is_msg_type (set_msg_type h m) m' \<longleftrightarrow> m = m'"
  by (simp add: is_msg_type_def)

lemma clear_header_sel [simp]:
  "msg_type (clear_header h) = 0xFFFF" "data_length (clear_header h) = 0"
  by (simp_all add: clear_header_def)

section \<open>The two bytes of a field\<close>

lemma split_bytes_join:
  "push_bit 8 (ucast (ucast (drop_bit 8 v) :: byte) :: uint16) OR ucast (ucast (v AND 0xFF) :: byte) = v"
  for v :: uint16
proof (rule bit_word_eqI)
  fix n
  assume n: "n < LENGTH(16)"
  have mask: "(0xFF :: uint16) = mask 8" by (simp add: mask_eq_exp_minus_1)
  from n show "bit (push_bit 8 (ucast (ucast (drop_bit 8 v) :: byte) :: uint16)
      OR ucast (ucast (v AND 0xFF) :: byte)) n = bit v n"
    unfolding mask by (auto simp: bit_simps)
qed

lemma join_bytes_split:
  "ucast (drop_bit 8 (push_bit 8 (ucast a :: uint16) OR ucast b)) = a"
  "ucast ((push_bit 8 (ucast a :: uint16) OR ucast b) AND 0xFF) = b"
  for a b :: byte
proof -
  show "ucast (drop_bit 8 (push_bit 8 (ucast a :: uint16) OR ucast b)) = a"
    by (rule bit_word_eqI) (auto simp: bit_simps dest: bit_imp_le_length)
  have mask: "(0xFF :: uint16) = mask 8" by (simp add: mask_eq_exp_minus_1)
  show "ucast ((push_bit 8 (ucast a :: uint16) OR ucast b) AND 0xFF) = b"
    unfolding mask by (rule bit_word_eqI) (auto simp: bit_simps)
qed

lemma hi_byte: "(ucast (drop_bit 8 v) :: byte) = of_nat (unat v div 256)" for v :: uint16
proof -
  have "(ucast (drop_bit 8 v) :: byte) = of_nat (unat (drop_bit 8 v))"
    by simp
  also have "unat (drop_bit 8 v) = unat v div 256"
    by (simp add: drop_bit_eq_div unat_div_distrib)
  finally show ?thesis .
qed

lemma lo_byte: "(ucast (v AND 0xFF) :: byte) = of_nat (unat v mod 256)" for v :: uint16
proof -
  have m: "v AND 0xFF = take_bit 8 v"
    by (simp add: take_bit_eq_mask mask_eq_exp_minus_1)
  have "unat (take_bit 8 v) = unat v mod 256"
    by (simp add: take_bit_eq_mod unat_mod_distrib)
  then have "(of_nat (unat (take_bit 8 v)) :: byte) = of_nat (unat v mod 256)"
    by simp
  then show ?thesis unfolding m by simp
qed

lemma length_field_value_to_bytes [simp, buffer_simps]:
  "length (field_value_to_bytes v buf off) = length buf"
  by (simp add: field_value_to_bytes_def)

lemma nth_field_value_to_bytes_other [simp]:
  "i \<noteq> off \<Longrightarrow> i \<noteq> off + 1 \<Longrightarrow> field_value_to_bytes v buf off ! i = buf ! i"
  by (simp add: field_value_to_bytes_def)

lemma field_value_roundtrip:
  "off + 1 < length buf \<Longrightarrow> bytes_to_field_value (field_value_to_bytes v buf off) off = v"
  by (simp add: bytes_to_field_value_def field_value_to_bytes_def split_bytes_join)

lemma field_bytes_roundtrip:
  "off + 1 < length buf \<Longrightarrow> field_value_to_bytes (bytes_to_field_value buf off) buf off = buf"
  unfolding bytes_to_field_value_def field_value_to_bytes_def Let_def join_bytes_split
  by (simp add: list_update_swap)

lemma bytes_to_field_value_cong:
  "buf ! off = buf' ! off \<Longrightarrow> buf ! (off + 1) = buf' ! (off + 1) \<Longrightarrow>
   bytes_to_field_value buf off = bytes_to_field_value buf' off"
  by (simp add: bytes_to_field_value_def)

lemma length_serialize [simp, buffer_simps]: "length (serialize h buf) = length buf"
  by (simp add: serialize_def)

lemma nth_serialize_beyond: "HEADER_SIZE \<le> i \<Longrightarrow> serialize h buf ! i = buf ! i"
  by (simp add: serialize_def bounds_simps)

lemma drop_serialize: "drop HEADER_SIZE (serialize h buf) = drop HEADER_SIZE buf"
  by (simp add: nth_serialize_beyond list_eq_iff_nth_eq)

text \<open>Reading a header back, from any buffer that starts with its four bytes.\<close>

lemma deserialize_serialize:
  assumes "HEADER_SIZE \<le> length buf"
  shows "deserialize h' (serialize h buf) = h"
proof -
  have "bytes_to_field_value (serialize h buf) MSG_TYPE_OFFSET =
      bytes_to_field_value (field_value_to_bytes (msg_type h) buf MSG_TYPE_OFFSET) MSG_TYPE_OFFSET"
    by (rule bytes_to_field_value_cong) (simp_all add: serialize_def bounds_simps)
  with assms show ?thesis
    by (simp add: deserialize_def serialize_def field_value_roundtrip bounds_simps)
qed

lemma deserialize_take:
  assumes "take HEADER_SIZE buf = take HEADER_SIZE buf'"
  shows "deserialize h buf = deserialize h buf'"
proof -
  have "buf ! i = buf' ! i" if "i < HEADER_SIZE" for i
    using assms that by (rule nth_take_eq)
  then show ?thesis
    by (simp add: deserialize_def bytes_to_field_value_def bounds_simps)
qed

lemma serialize_deserialize:
  assumes "HEADER_SIZE \<le> length buf"
  shows "serialize (deserialize h buf) buf = buf"
  using assms by (simp add: serialize_def deserialize_def field_bytes_roundtrip bounds_simps)

lemma data_length_le: "unat (data_length h) \<le> 65535"
proof -
  have "unat (data_length h) < 2 ^ 16" using unsigned_less [of "data_length h", where ?'a = nat] by simp
  then show ?thesis by simp
qed

section \<open>Properties\<close>

text \<open>
  Property C31. \<open>serialize\<close> puts the two header fields on the wire in big-endian order, in the
  first four bytes and nowhere else; \<open>deserialize\<close> gets the same header back whatever the
  object held before, and serialising what was read reproduces the buffer.
\<close>

theorem header_wire_roundtrip:
  assumes "HEADER_SIZE \<le> length buf"
  shows "deserialize h' (serialize h buf) = h \<and> serialize (deserialize h' buf) buf = buf \<and>
    take HEADER_SIZE (serialize h buf) =
      [of_nat (unat (msg_type h) div 256), of_nat (unat (msg_type h) mod 256),
       of_nat (unat (data_length h) div 256), of_nat (unat (data_length h) mod 256)] \<and>
    drop HEADER_SIZE (serialize h buf) = drop HEADER_SIZE buf \<and>
    length (serialize h buf) = length buf"
proof -
  from assms obtain a b c d rest where buf: "buf = a # b # c # d # rest"
    unfolding HEADER_SIZE_def
    by (metis (no_types, lifting) One_nat_def Suc_le_length_iff numeral_2_eq_2 numeral_3_eq_3
        numeral_Bit0 Suc_eq_plus1 add_2_eq_Suc' add_Suc_right)
  have "take HEADER_SIZE (serialize h buf) =
      [ucast (drop_bit 8 (msg_type h)), ucast (msg_type h AND 0xFF),
       ucast (drop_bit 8 (data_length h)), ucast (data_length h AND 0xFF)]"
    by (simp add: buf serialize_def field_value_to_bytes_def bounds_simps)
  with assms show ?thesis
    by (simp add: deserialize_serialize serialize_deserialize drop_serialize hi_byte lo_byte)
qed

theorem header_wire_roundtrip_witness:
  "HEADER_SIZE \<le> length [0, 0, 0, 0, 7 :: byte] \<and>
   deserialize new_msg_header (serialize \<lparr>msg_type = 0x81, data_length = 0x102\<rparr> [0, 0, 0, 0, 7]) =
     \<lparr>msg_type = 0x81, data_length = 0x102\<rparr>"
proof -
  have h: "HEADER_SIZE \<le> length [0, 0, 0, 0, 7 :: byte]" by (simp add: HEADER_SIZE_def)
  show ?thesis using h header_wire_roundtrip [OF h] by simp
qed

end
