(* ===== verification/Char_Buffer.thy ===== *)
theory Char_Buffer
  imports Exceptions
begin

text \<open>
  The string class \<open>CharBuffer\<close> is not part of the repository (its directory
  include/CharBuffer is listed in .gitignore), so the model takes it as a parameter: a
  record of the member functions the code calls, over an abstract buffer type. \<open>None\<close> is a
  thrown \<open>RangeException\<close> and, for the two searches, the result \<open>NPOS\<close>.

  The locale \<open>char_buffer\<close> states what the code relies on. A buffer has a fixed capacity
  and holds \<open>length()\<close> bytes; every operation that would store more than the capacity, or
  that names a range outside the source, throws \<open>RangeException\<close> (this is what the
  handlers in Shared.cpp, Arguments.cpp and ServerParameters.cpp are written for) and the
  others do what their names say.
\<close>

section \<open>The interface\<close>

record 'b char_buffer_ops =
  cb_new :: "nat \<Rightarrow> 'b"
  cb_of_c_str :: "bytes \<Rightarrow> 'b"
  cb_length :: "'b \<Rightarrow> nat"
  cb_c_str :: "'b \<Rightarrow> bytes"
  cb_clear :: "'b \<Rightarrow> 'b"
  cb_wipe :: "'b \<Rightarrow> 'b"
  cb_assign :: "'b \<Rightarrow> 'b \<Rightarrow> 'b option"
  cb_assign_c_str :: "'b \<Rightarrow> bytes \<Rightarrow> 'b option"
  cb_index_of :: "'b \<Rightarrow> 'b \<Rightarrow> nat option"
  cb_index_of_char :: "'b \<Rightarrow> byte \<Rightarrow> nat option"
  cb_substring :: "'b \<Rightarrow> nat \<Rightarrow> nat \<Rightarrow> 'b option"
  cb_substring_from :: "'b \<Rightarrow> 'b \<Rightarrow> nat \<Rightarrow> nat \<Rightarrow> 'b option"
  cb_substring_raw_from :: "'b \<Rightarrow> bytes \<Rightarrow> nat \<Rightarrow> nat \<Rightarrow> 'b option"
  cb_starts_with :: "'b \<Rightarrow> 'b \<Rightarrow> bool"
  cb_equals_c_str :: "'b \<Rightarrow> bytes \<Rightarrow> bool"
  cb_compare_to :: "'b \<Rightarrow> 'b \<Rightarrow> int"

text \<open>
  \<open>cb_c_str\<close> is the memory \<open>c_str()\<close> points to, up to \<open>length()\<close>: a reader of C strings
  sees \<open>c_string\<close> of it. Positions of a byte sequence inside another:
\<close>

fun find_sub :: "bytes \<Rightarrow> bytes \<Rightarrow> nat option" where
  "find_sub pat [] = (if pat = [] then Some 0 else None)"
| "find_sub pat (x # xs) =
     (if take (length pat) (x # xs) = pat then Some 0 else map_option Suc (find_sub pat xs))"

definition segment :: "nat \<Rightarrow> nat \<Rightarrow> 'a list \<Rightarrow> 'a list" where
  "segment i j xs = take (j - i) (drop i xs)"

lemma length_segment [simp]: "j \<le> length xs \<Longrightarrow> length (segment i j xs) = j - i"
  by (simp add: segment_def)

lemma segment_all [simp]: "segment 0 (length xs) xs = xs"
  by (simp add: segment_def)

lemma segment_0: "segment 0 j xs = take j xs"
  by (simp add: segment_def)

lemma segment_to_end: "segment i (length xs) xs = drop i xs"
  by (simp add: segment_def)

lemma segment_take: "j \<le> n \<Longrightarrow> segment i j (take n xs) = segment i j xs"
  by (simp add: segment_def drop_take min_def diff_le_mono)

lemma drop_segment: "drop n (segment i k xs) = segment (i + n) k xs"
  by (simp add: segment_def drop_take add.commute)

lemma segment_split: "segment i k xs = take n (segment i k xs) @ segment (i + n) k xs"
  by (metis append_take_drop_id drop_segment)

lemma find_sub_bound: "find_sub pat xs = Some i \<Longrightarrow> i + length pat \<le> length xs"
proof (induction xs arbitrary: i)
  case (Cons x xs)
  show ?case
  proof (cases "take (length pat) (x # xs) = pat")
    case True
    then have "length pat \<le> length (x # xs)" by (metis length_take min.cobounded1)
    with True Cons.prems show ?thesis by simp
  next
    case False
    with Cons show ?thesis by auto
  qed
qed (auto split: if_splits)

lemma find_sub_take: "find_sub pat xs = Some i \<Longrightarrow> segment i (i + length pat) xs = pat"
  by (induction xs arbitrary: i) (auto simp: segment_def split: if_splits)

lemma find_sub_single_fresh:
  "c \<notin> set ks \<Longrightarrow> find_sub [c] (ks @ c # vs) = Some (length ks)"
  by (induction ks) auto

lemma find_sub_single_None: "find_sub [c] xs = None \<longleftrightarrow> c \<notin> set xs"
  by (induction xs) auto

section \<open>The laws\<close>

locale char_buffer =
  fixes cb :: "'b char_buffer_ops"
    and cap :: "'b \<Rightarrow> nat"
  assumes length_str: "cb_length cb b = length (cb_c_str cb b)"
    and new_str: "cb_c_str cb (cb_new cb n) = []"
    and new_cap: "cap (cb_new cb n) = n"
    and of_c_str_str: "cb_c_str cb (cb_of_c_str cb t) = c_string t"
    and clear_str: "cb_c_str cb (cb_clear cb b) = []"
    and clear_cap: "cap (cb_clear cb b) = cap b"
    and wipe_str: "cb_c_str cb (cb_wipe cb b) = []"
    and wipe_cap: "cap (cb_wipe cb b) = cap b"
    and assign_fail: "cb_assign cb d s = None \<longleftrightarrow> cap d < length (cb_c_str cb s)"
    and assign_str: "cb_assign cb d s = Some d' \<Longrightarrow> cb_c_str cb d' = cb_c_str cb s"
    and assign_cap: "cb_assign cb d s = Some d' \<Longrightarrow> cap d' = cap d"
    and assign_c_str_fail: "cb_assign_c_str cb d t = None \<longleftrightarrow> cap d < length (c_string t)"
    and assign_c_str_str: "cb_assign_c_str cb d t = Some d' \<Longrightarrow> cb_c_str cb d' = c_string t"
    and assign_c_str_cap: "cb_assign_c_str cb d t = Some d' \<Longrightarrow> cap d' = cap d"
    and index_of: "cb_index_of cb b p = find_sub (cb_c_str cb p) (cb_c_str cb b)"
    and index_of_char: "cb_index_of_char cb b x = find_sub [x] (cb_c_str cb b)"
    and substring_fail: "cb_substring cb b i j = None \<longleftrightarrow>
          \<not> (i \<le> j \<and> j \<le> length (cb_c_str cb b))"
    and substring_str: "cb_substring cb b i j = Some b' \<Longrightarrow>
          cb_c_str cb b' = segment i j (cb_c_str cb b)"
    and substring_cap: "cb_substring cb b i j = Some b' \<Longrightarrow> cap b' = cap b"
    and substring_from_fail: "cb_substring_from cb d s i j = None \<longleftrightarrow>
          \<not> (i \<le> j \<and> j \<le> length (cb_c_str cb s) \<and> j - i \<le> cap d)"
    and substring_from_str: "cb_substring_from cb d s i j = Some d' \<Longrightarrow>
          cb_c_str cb d' = segment i j (cb_c_str cb s)"
    and substring_from_cap: "cb_substring_from cb d s i j = Some d' \<Longrightarrow> cap d' = cap d"
    and raw_from_fail: "cb_substring_raw_from cb d buf i j = None \<longleftrightarrow>
          \<not> (i \<le> j \<and> j - i \<le> cap d)"
    and raw_from_str: "cb_substring_raw_from cb d buf i j = Some d' \<Longrightarrow>
          cb_c_str cb d' = segment i j buf"
    and raw_from_cap: "cb_substring_raw_from cb d buf i j = Some d' \<Longrightarrow> cap d' = cap d"
    and starts_with: "cb_starts_with cb b p \<longleftrightarrow>
          take (length (cb_c_str cb p)) (cb_c_str cb b) = cb_c_str cb p"
    and equals_c_str: "cb_equals_c_str cb b t \<longleftrightarrow> cb_c_str cb b = c_string t"
    and compare_eq: "cb_compare_to cb a b = 0 \<longleftrightarrow> cb_c_str cb a = cb_c_str cb b"
    and compare_sym: "cb_compare_to cb a b < 0 \<longleftrightarrow> cb_compare_to cb b a > 0"
    and compare_trans: "cb_compare_to cb a b < 0 \<Longrightarrow> cb_compare_to cb b c < 0 \<Longrightarrow>
          cb_compare_to cb a c < 0"
begin

lemmas str_simps = length_str new_str of_c_str_str clear_str wipe_str
lemmas cap_simps = new_cap clear_cap wipe_cap

text \<open>A copy succeeds exactly when it fits, and then it is the source's contents.\<close>

lemma assign_ok:
  assumes "length (cb_c_str cb s) \<le> cap d"
  obtains d' where "cb_assign cb d s = Some d'" "cb_c_str cb d' = cb_c_str cb s" "cap d' = cap d"
proof -
  from assms obtain d' where "cb_assign cb d s = Some d'"
    using assign_fail [of d s] by (cases "cb_assign cb d s") auto
  then show thesis using that assign_str assign_cap by blast
qed

lemma substring_from_ok:
  assumes "i \<le> j" "j \<le> length (cb_c_str cb s)" "j - i \<le> cap d"
  obtains d' where "cb_substring_from cb d s i j = Some d'"
    "cb_c_str cb d' = segment i j (cb_c_str cb s)" "cap d' = cap d"
proof -
  from assms obtain d' where "cb_substring_from cb d s i j = Some d'"
    using substring_from_fail [of d s i j] by (cases "cb_substring_from cb d s i j") auto
  then show thesis using that substring_from_str substring_from_cap by blast
qed

lemma substring_ok:
  assumes "i \<le> j" "j \<le> length (cb_c_str cb b)"
  obtains b' where "cb_substring cb b i j = Some b'"
    "cb_c_str cb b' = segment i j (cb_c_str cb b)" "cap b' = cap b"
proof -
  from assms obtain b' where "cb_substring cb b i j = Some b'"
    using substring_fail [of b i j] by (cases "cb_substring cb b i j") auto
  then show thesis using that substring_str substring_cap by blast
qed

lemma raw_from_ok:
  assumes "i \<le> j" "j - i \<le> cap d"
  obtains d' where "cb_substring_raw_from cb d buf i j = Some d'"
    "cb_c_str cb d' = segment i j buf" "cap d' = cap d"
proof -
  from assms obtain d' where "cb_substring_raw_from cb d buf i j = Some d'"
    using raw_from_fail [of d buf i j] by (cases "cb_substring_raw_from cb d buf i j") auto
  then show thesis using that raw_from_str raw_from_cap by blast
qed

lemma compare_refl: "cb_compare_to cb a a = 0"
  by (simp add: compare_eq)

end

section \<open>A bounded buffer that satisfies the laws\<close>

text \<open>
  A capacity and the bytes held. It shows that the laws can hold together, and witnesses
  run the program on it.
\<close>

type_synonym bounded_buffer = "nat \<times> bytes"

fun lex_compare :: "bytes \<Rightarrow> bytes \<Rightarrow> int" where
  "lex_compare [] [] = 0"
| "lex_compare [] (y # ys) = -1"
| "lex_compare (x # xs) [] = 1"
| "lex_compare (x # xs) (y # ys) = (if x < y then -1 else if y < x then 1 else lex_compare xs ys)"

definition bounded_ops :: "bounded_buffer char_buffer_ops" where
  "bounded_ops =
    \<lparr>cb_new = (\<lambda>n. (n, [])),
     cb_of_c_str = (\<lambda>s. (length (c_string s), c_string s)),
     cb_length = (\<lambda>b. length (snd b)),
     cb_c_str = snd,
     cb_clear = (\<lambda>b. (fst b, [])),
     cb_wipe = (\<lambda>b. (fst b, [])),
     cb_assign = (\<lambda>d s. if length (snd s) \<le> fst d then Some (fst d, snd s) else None),
     cb_assign_c_str = (\<lambda>d t. if length (c_string t) \<le> fst d then Some (fst d, c_string t) else None),
     cb_index_of = (\<lambda>b p. find_sub (snd p) (snd b)),
     cb_index_of_char = (\<lambda>b c. find_sub [c] (snd b)),
     cb_substring = (\<lambda>b i j. if i \<le> j \<and> j \<le> length (snd b)
        then Some (fst b, segment i j (snd b)) else None),
     cb_substring_from = (\<lambda>d s i j. if i \<le> j \<and> j \<le> length (snd s) \<and> j - i \<le> fst d
        then Some (fst d, segment i j (snd s)) else None),
     cb_substring_raw_from = (\<lambda>d buf i j. if i \<le> j \<and> j - i \<le> fst d
        then Some (fst d, segment i j buf) else None),
     cb_starts_with = (\<lambda>b p. take (length (snd p)) (snd b) = snd p),
     cb_equals_c_str = (\<lambda>b t. snd b = c_string t),
     cb_compare_to = (\<lambda>a b. lex_compare (snd a) (snd b))\<rparr>"

lemma lex_compare_eq: "lex_compare xs ys = 0 \<longleftrightarrow> xs = ys"
  by (induction xs ys rule: lex_compare.induct) auto

lemma lex_compare_sym: "lex_compare xs ys < 0 \<longleftrightarrow> lex_compare ys xs > 0"
  by (induction xs ys rule: lex_compare.induct) auto

lemma lex_compare_trans:
  "lex_compare xs ys < 0 \<Longrightarrow> lex_compare ys zs < 0 \<Longrightarrow> lex_compare xs zs < 0"
proof (induction xs ys arbitrary: zs rule: lex_compare.induct)
  case (2 y ys)
  then show ?case by (cases zs) auto
next
  case (4 x xs y ys)
  then show ?case by (cases zs) (auto split: if_splits)
qed auto

lemma lex_compare_trans_pos:
  "0 < lex_compare ys xs \<Longrightarrow> 0 < lex_compare zs ys \<Longrightarrow> 0 < lex_compare zs xs"
  using lex_compare_trans [of xs ys zs] by (simp add: lex_compare_sym)

interpretation bounded: char_buffer bounded_ops fst
  by unfold_locales
    (auto simp: bounded_ops_def lex_compare_eq lex_compare_sym split: if_splits
      elim: lex_compare_trans_pos)

end
