(* ===== verification/Protocol_Fields.thy ===== *)
theory Protocol_Fields
  imports Msg_Header Char_Buffer
begin

unbundle bit_operations_syntax

text \<open>
  The field encoding of the protocol (namespace \<open>protocol\<close> of Shared.h and Shared.cpp): a
  field is a two-byte big-endian length and that many bytes, and a field of a request is
  \<open>KEY=VALUE\<close>. Reading and writing work on the I/O buffer at an offset that both advance.
\<close>

section \<open>Constants\<close>

definition KEY_VALUE_SPLIT_SEQ :: "'b char_buffer_ops \<Rightarrow> 'b" where
  "KEY_VALUE_SPLIT_SEQ cb = cb_of_c_str cb (ascii ''='')"

definition NODENAME :: bytes where "NODENAME = ascii ''NODENAME''"
definition SECRET :: bytes where "SECRET = ascii ''SECRET''"
definition MAX_SECRET_LENGTH :: nat where [bounds_simps]: "MAX_SECRET_LENGTH = 64"

section \<open>Reading a field\<close>

text \<open>
  The length prefix: \<open>static_cast<unsigned char> (io_buffer[offset]) << 8\<close>, then the second
  byte joined with \<open>|=\<close>, in a \<open>uint16_t\<close>.
\<close>

definition field_length_at :: "bytes \<Rightarrow> nat \<Rightarrow> uint16" where
  "field_length_at io_buffer offset =
     (let field_length = push_bit 8 (ucast (io_buffer ! offset) :: uint16)
      in field_length OR ucast (io_buffer ! (offset + 1)))"

text \<open>
  \<open>read_field\<close> into a \<open>CharBuffer\<close>: the result, the offset and the field buffer as the call
  leaves them. A \<open>RangeException\<close> of the buffer becomes a \<open>ProtocolException\<close>.
\<close>

definition read_field ::
  "'b char_buffer_ops \<Rightarrow> bytes \<Rightarrow> nat \<Rightarrow> nat \<Rightarrow> 'b \<Rightarrow> bool result \<times> nat \<times> 'b" where
  "read_field cb io_buffer io_buffer_capacity offset field_buffer =
     (let field_buffer = cb_clear cb field_buffer in
      if offset < io_buffer_capacity \<and> size_sub io_buffer_capacity offset \<ge> 2 then
        (let field_length = unat (field_length_at io_buffer offset);
             remain_length = io_buffer_capacity - offset - 2
         in if field_length \<le> remain_length then
              (case cb_substring_raw_from cb field_buffer io_buffer
                      (offset + 2) (offset + 2 + field_length) of
                 None \<Rightarrow> (Inl ProtocolException, offset, field_buffer)
               | Some field_buffer \<Rightarrow> (Inr True, offset + (field_length + 2), field_buffer))
            else (Inl ProtocolException, offset, field_buffer))
      else (Inl ProtocolException, offset, field_buffer))"

text \<open>\<open>read_field\<close> into a \<open>std::string\<close>, which it appends to.\<close>

definition read_field_string ::
  "bytes \<Rightarrow> nat \<Rightarrow> nat \<Rightarrow> bytes \<Rightarrow> bool result \<times> nat \<times> bytes" where
  "read_field_string io_buffer io_buffer_capacity offset field_contents =
     (if offset < io_buffer_capacity \<and> size_sub io_buffer_capacity offset \<ge> 2 then
        (let field_length = unat (field_length_at io_buffer offset);
             remain_length = io_buffer_capacity - offset - 2
         in if field_length \<le> remain_length then
              (Inr True, offset + (field_length + 2),
               field_contents @ segment (offset + 2) (offset + 2 + field_length) io_buffer)
            else (Inl ProtocolException, offset, field_contents))
      else (Inl ProtocolException, offset, field_contents))"

section \<open>Writing a field\<close>

function copy_field_data :: "bytes \<Rightarrow> nat \<Rightarrow> bytes \<Rightarrow> nat \<Rightarrow> nat \<Rightarrow> bytes \<times> nat" where
  "copy_field_data io_buffer offset field_data field_length idx =
     (if idx < field_length
      then copy_field_data (io_buffer[offset := field_data ! idx]) (offset + 1)
             field_data field_length (idx + 1)
      else (io_buffer, offset))"
  by pat_completeness auto
termination
  by (relation "measure (\<lambda>(_, _, _, n, idx). n - idx)") auto

declare copy_field_data.simps [simp del]

text \<open>The buffer and the offset after the call; a thrown exception leaves both unchanged.\<close>

definition write_field_impl ::
  "bytes \<Rightarrow> nat \<Rightarrow> nat \<Rightarrow> bytes \<Rightarrow> nat \<Rightarrow> (bytes \<times> nat) result" where
  "write_field_impl io_buffer io_buffer_capacity offset field_data field_length =
     (if field_length > 0xFFFF then Inl ProtocolException
      else if offset < io_buffer_capacity then
        (let remain_capacity = io_buffer_capacity - offset in
         if field_length < remain_capacity \<and> size_sub remain_capacity field_length \<ge> 2 then
           (let io_buffer = io_buffer[offset := of_nat (drop_bit 8 field_length)];
                io_buffer = io_buffer[offset + 1 := of_nat (field_length AND 0xFF)]
            in Inr (copy_field_data io_buffer (offset + 2) field_data field_length 0))
         else Inl ProtocolException)
      else Inl ProtocolException)"

definition write_field_string :: "bytes \<Rightarrow> nat \<Rightarrow> nat \<Rightarrow> bytes \<Rightarrow> (bytes \<times> nat) result" where
  "write_field_string io_buffer io_buffer_capacity offset field_contents =
     write_field_impl io_buffer io_buffer_capacity offset field_contents (length field_contents)"

definition write_field ::
  "'b char_buffer_ops \<Rightarrow> bytes \<Rightarrow> nat \<Rightarrow> nat \<Rightarrow> 'b \<Rightarrow> (bytes \<times> nat) result" where
  "write_field cb io_buffer io_buffer_capacity offset field_buffer =
     write_field_impl io_buffer io_buffer_capacity offset
       (cb_c_str cb field_buffer) (cb_length cb field_buffer)"

section \<open>Splitting key and value\<close>

text \<open>The result, \<open>src_data\<close> and \<open>value\<close> after the call.\<close>

definition split_key_value_pair ::
  "'b char_buffer_ops \<Rightarrow> 'b \<Rightarrow> 'b \<Rightarrow> unit result \<times> 'b \<times> 'b" where
  "split_key_value_pair cb src_data value =
     (case cb_index_of cb src_data (KEY_VALUE_SPLIT_SEQ cb) of
        None \<Rightarrow> (Inl ProtocolException, src_data, value)
      | Some split_idx \<Rightarrow>
          (case cb_substring_from cb value src_data
                  (split_idx + cb_length cb (KEY_VALUE_SPLIT_SEQ cb)) (cb_length cb src_data) of
             None \<Rightarrow> (Inl ProtocolException, src_data, value)
           | Some value \<Rightarrow>
               (case cb_substring cb src_data 0 split_idx of
                  None \<Rightarrow> (Inl ProtocolException, src_data, value)
                | Some src_data \<Rightarrow> (Inr (), src_data, value))))"

definition split_key_value_string ::
  "'b char_buffer_ops \<Rightarrow> bytes \<Rightarrow> bytes \<Rightarrow> unit result \<times> bytes \<times> bytes" where
  "split_key_value_string cb src_data value =
     (case find_sub (c_string (cb_c_str cb (KEY_VALUE_SPLIT_SEQ cb))) src_data of
        None \<Rightarrow> (Inl ProtocolException, src_data, value)
      | Some split_idx \<Rightarrow>
          (Inr (), take split_idx src_data,
           value @ drop (split_idx + cb_length cb (KEY_VALUE_SPLIT_SEQ cb)) src_data))"

section \<open>What a write does\<close>

lemma copy_field_data_blit:
  assumes "offset + (n - idx) \<le> length buf" and "n \<le> length field_data"
  shows "copy_field_data buf offset field_data n idx =
    (blit buf offset (segment idx n field_data), offset + (n - idx))"
  using assms
proof (induction buf offset field_data n idx rule: copy_field_data.induct)
  case (1 buf offset field_data n idx)
  show ?case
  proof (cases "idx < n")
    case True
    have hd: "segment idx n field_data = field_data ! idx # segment (idx + 1) n field_data"
      using True "1.prems"(2) unfolding segment_def
      by (metis Cons_nth_drop_Suc Suc_diff_Suc Suc_eq_plus1 less_le_trans take_Suc_Cons)
    have "copy_field_data buf offset field_data n idx =
        (blit (buf[offset := field_data ! idx]) (offset + 1) (segment (idx + 1) n field_data),
         offset + (n - idx))"
      using True "1.IH" "1.prems" by (subst copy_field_data.simps) simp
    also have "blit (buf[offset := field_data ! idx]) (offset + 1) (segment (idx + 1) n field_data) =
        blit buf offset (segment idx n field_data)"
      using True "1.prems" by (simp add: hd blit_def take_Suc_conv_app_nth nth_list_update)
    finally show ?thesis .
  next
    case False
    then show ?thesis by (subst copy_field_data.simps) (simp add: segment_def)
  qed
qed

text \<open>The bytes a field occupies on the wire.\<close>

definition encode_field :: "bytes \<Rightarrow> bytes" where
  "encode_field data =
     of_nat (length data div 256) # of_nat (length data mod 256) # data"

lemma length_encode_field [simp]: "length (encode_field data) = length data + 2"
  by (simp add: encode_field_def)

lemma write_field_impl_eq:
  assumes "length data = n" and "cap \<le> length buf"
  shows "write_field_impl buf cap off data n =
    (if n \<le> 0xFFFF \<and> off + n + 2 \<le> cap
     then Inr (blit buf off (encode_field data), off + (n + 2))
     else Inl ProtocolException)"
proof (cases "n \<le> 0xFFFF \<and> off + n + 2 \<le> cap")
  case True
  let ?b = "buf[off := of_nat (n div 256), off + 1 := of_nat (n mod 256)]"
  have mask: "n AND 0xFF = n mod 256"
    using take_bit_eq_mask [of 8 n] by (simp add: take_bit_eq_mod mask_eq_exp_minus_1)
  have "?b = blit buf off [of_nat (n div 256), of_nat (n mod 256)]"
    using True assms by (intro nth_equalityI) (auto simp: nth_list_update nth_blit nth_Cons')
  moreover have "copy_field_data ?b (off + 2) data n 0 = (blit ?b (off + 2) data, off + 2 + n)"
    using True assms by (subst copy_field_data_blit) auto
  ultimately have "copy_field_data ?b (off + 2) data n 0 =
      (blit buf off (encode_field data), off + (n + 2))"
    using True assms
      blit_blit [of off "[of_nat (n div 256), of_nat (n mod 256)]" data buf]
    by (simp add: encode_field_def)
  moreover have "n < cap - off \<and> 2 \<le> size_sub (cap - off) n" using True by auto
  ultimately show ?thesis
    using True mask by (simp add: write_field_impl_def drop_bit_eq_div Let_def) arith
qed (auto simp: write_field_impl_def Let_def)

section \<open>What a read does\<close>

lemma field_length_at_encoded:
  assumes "buf ! off = of_nat (n div 256)" and "buf ! (off + 1) = of_nat (n mod 256)"
    and "n \<le> 0xFFFF"
  shows "unat (field_length_at buf off) = n"
proof -
  have "field_length_at buf off = (of_nat n :: uint16)"
  proof -
    have hi: "ucast (of_nat (n div 256) :: byte) = (of_nat (n div 256) :: uint16)"
      using assms(3) by (simp add: unsigned_of_nat take_bit_nat_eq_self div_less_iff_less_mult)
    have lo: "ucast (of_nat (n mod 256) :: byte) = (of_nat (n mod 256) :: uint16)"
      by (simp add: unsigned_of_nat take_bit_nat_eq_self)
    have "push_bit 8 (of_nat (n div 256) :: uint16) OR of_nat (n mod 256) = of_nat n"
    proof -
      have "push_bit 8 (n div 256) OR n mod 256 = n"
      proof -
        have "push_bit 8 (drop_bit 8 n) OR take_bit 8 n = n"
          by (auto simp: bit_eq_iff bit_simps)
        then show ?thesis by (simp add: drop_bit_eq_div take_bit_eq_mod)
      qed
      then show ?thesis by (metis of_nat_or_eq of_nat_push_bit)
    qed
    with assms(1,2) hi lo show ?thesis by (simp add: field_length_at_def)
  qed
  with assms(3) show ?thesis by (simp add: unsigned_of_nat take_bit_nat_eq_self)
qed

lemma field_length_at_take:
  assumes "take n buf = take n buf'" and "off + 2 \<le> n"
  shows "field_length_at buf off = field_length_at buf' off"
  using nth_take_eq [OF assms(1), of off] nth_take_eq [OF assms(1), of "off + 1"] assms(2)
  by (simp add: field_length_at_def)

lemma read_field_advance:
  assumes "read_field cb buf cap off fb = (Inr r, off', fb')"
  shows "off + 2 \<le> off' \<and> off' \<le> cap \<and> off' = off + (unat (field_length_at buf off) + 2)"
  using assms by (auto simp: read_field_def Let_def split: if_splits option.splits)

lemma read_field_string_advance:
  assumes "read_field_string buf cap off s = (Inr r, off', s')"
  shows "off + 2 \<le> off' \<and> off' \<le> cap"
  using assms by (auto simp: read_field_string_def Let_def split: if_splits)

lemma read_field_error:
  assumes "read_field cb buf cap off fb = (Inl e, off', fb')"
  shows "e = ProtocolException \<and> off' = off"
  using assms by (auto simp: read_field_def Let_def split: if_splits option.splits)

lemma split_key_value_pair_error:
  assumes "split_key_value_pair cb src v = (Inl e, src', v')"
  shows "e = ProtocolException"
  using assms by (auto simp: split_key_value_pair_def split: option.splits)

text \<open>The std::string reader after the writer gives the written bytes back.\<close>

lemma field_length_at_blit:
  assumes "length data \<le> 0xFFFF" and "off + length data + 2 \<le> length buf"
  shows "unat (field_length_at (blit buf off (encode_field data)) off) = length data"
  using assms
  by (intro field_length_at_encoded) (simp_all add: nth_blit encode_field_def)

lemma segment_blit_encoded:
  assumes "off + length data + 2 \<le> length buf"
  shows "segment (off + 2) (off + 2 + length data) (blit buf off (encode_field data)) = data"
  using assms by (simp add: segment_def blit_def encode_field_def min_def)


section \<open>Writers as field codecs\<close>

text \<open>
  Both overloads of \<open>write_field\<close> promise the same: a field that fits is stored in its wire
  form at the offset, any other is refused and nothing is written. Clients that write several
  fields in sequence rest on this contract alone.
\<close>

fun write_fields ::
  "(bytes \<Rightarrow> nat \<Rightarrow> nat \<Rightarrow> 'f \<Rightarrow> (bytes \<times> nat) result) \<Rightarrow> bytes \<Rightarrow> nat \<Rightarrow> nat \<Rightarrow> 'f list \<Rightarrow>
   (bytes \<times> nat) result" where
  "write_fields put buf capacity off [] = Inr (buf, off)"
| "write_fields put buf capacity off (f # fs) =
     (case put buf capacity off f of
        Inl e \<Rightarrow> Inl e
      | Inr (buf, off) \<Rightarrow> write_fields put buf capacity off fs)"

locale field_codec =
  fixes put :: "bytes \<Rightarrow> nat \<Rightarrow> nat \<Rightarrow> 'f \<Rightarrow> (bytes \<times> nat) result"
    and content :: "'f \<Rightarrow> bytes"
  assumes write_eq: "capacity \<le> length buf \<Longrightarrow> put buf capacity off f =
    (if length (content f) \<le> 0xFFFF \<and> off + length (content f) + 2 \<le> capacity
     then Inr (blit buf off (encode_field (content f)), off + (length (content f) + 2))
     else Inl ProtocolException)"
begin

lemma write_OkD:
  assumes "capacity \<le> length buf" and "put buf capacity off f = Inr (buf', off')"
  shows "length (content f) \<le> 0xFFFF" "off' = off + length (encode_field (content f))"
    "off' \<le> capacity" "buf' = blit buf off (encode_field (content f))"
    "length buf' = length buf"
  using assms by (auto simp: write_eq split: if_splits)

lemma write_fields_blit:
  assumes "capacity \<le> length buf" and "off \<le> capacity"
    and "write_fields put buf capacity off fs = Inr (buf', off')"
  shows "off' = off + length (concat (map (\<lambda>f. encode_field (content f)) fs)) \<and> off' \<le> capacity \<and>
    buf' = blit buf off (concat (map (\<lambda>f. encode_field (content f)) fs))"
  using assms
proof (induction fs arbitrary: buf off)
  case Nil
  then show ?case by simp
next
  case (Cons f fs)
  then obtain buf1 off1 where w: "put buf capacity off f = Inr (buf1, off1)"
    and rest: "write_fields put buf1 capacity off1 fs = Inr (buf', off')"
    by (auto split: sum.splits)
  note w1 = write_OkD [OF Cons.prems(1) w]
  have "off' = off1 + length (concat (map (\<lambda>f. encode_field (content f)) fs)) \<and> off' \<le> capacity \<and>
      buf' = blit buf1 off1 (concat (map (\<lambda>f. encode_field (content f)) fs))"
    using Cons.IH [of buf1 off1] w1 Cons.prems(1) rest by simp
  with w1 Cons.prems(1)
    blit_blit [of off "encode_field (content f)" "concat (map (\<lambda>f. encode_field (content f)) fs)" buf]
  show ?case by simp
qed

lemma write_fields_fit:
  assumes "capacity \<le> length buf" and "off \<le> capacity"
    and "\<And>f. f \<in> set fs \<Longrightarrow> length (content f) \<le> 0xFFFF"
    and "off + length (concat (map (\<lambda>f. encode_field (content f)) fs)) \<le> capacity"
  shows "write_fields put buf capacity off fs =
    Inr (blit buf off (concat (map (\<lambda>f. encode_field (content f)) fs)),
         off + length (concat (map (\<lambda>f. encode_field (content f)) fs)))"
  using assms
proof (induction fs arbitrary: buf off)
  case Nil
  then show ?case by simp
next
  case (Cons f fs)
  then have "put buf capacity off f =
      Inr (blit buf off (encode_field (content f)), off + (length (content f) + 2))"
    by (simp add: write_eq)
  then show ?case
    using Cons.IH [of "blit buf off (encode_field (content f))" "off + (length (content f) + 2)"]
      Cons.prems
      blit_blit [of off "encode_field (content f)" "concat (map (\<lambda>f. encode_field (content f)) fs)" buf]
    by (simp add: add.assoc)
qed

end

interpretation string_codec: field_codec write_field_string "\<lambda>s. s"
  by unfold_locales (simp add: write_field_string_def write_field_impl_eq)

sublocale char_buffer \<subseteq> field_codec "write_field cb" "cb_c_str cb"
  by unfold_locales (simp add: write_field_def write_field_impl_eq length_str)

section \<open>Reading and splitting over the buffer laws\<close>

context char_buffer begin

lemmas write_field_OkD = write_OkD

lemma read_field_ok:
  assumes "off + 2 + n \<le> capacity" and "n \<le> cap fb" and "n = unat (field_length_at buf off)"
  shows "\<exists>fb'. read_field cb buf capacity off fb = (Inr True, off + (n + 2), fb') \<and>
    cb_c_str cb fb' = segment (off + 2) (off + 2 + n) buf \<and> cap fb' = cap fb"
proof -
  have c: "cap (cb_clear cb fb) = cap fb" by (simp add: clear_cap)
  obtain fb' where fb': "cb_substring_raw_from cb (cb_clear cb fb) buf (off + 2) (off + 2 + n) = Some fb'"
      "cb_c_str cb fb' = segment (off + 2) (off + 2 + n) buf" "cap fb' = cap (cb_clear cb fb)"
    by (rule raw_from_ok [of "off + 2" "off + 2 + n" "cb_clear cb fb" buf]) (use assms c in auto)
  have "off < capacity \<and> 2 \<le> capacity - off \<and> n \<le> capacity - off - 2"
    using assms(1) by auto
  with fb' c show ?thesis
    by (simp add: read_field_def assms(3) [symmetric] Let_def)
qed

lemma read_field_cap:
  "read_field cb buf capacity off fb = (r, off', fb') \<Longrightarrow> cap fb' = cap fb"
  by (auto simp: read_field_def Let_def clear_cap raw_from_cap split: if_splits option.splits)

lemma split_key_value_pair_ok:
  assumes src: "cb_c_str cb src = k @ ascii ''='' @ v" and k: "of_char CHR ''='' \<notin> set k"
    and v: "length v \<le> cap val"
  shows "\<exists>src' val'. split_key_value_pair cb src val = (Inr (), src', val') \<and>
    cb_c_str cb src' = k \<and> cb_c_str cb val' = v \<and> cap src' = cap src \<and> cap val' = cap val"
proof -
  have sep: "cb_c_str cb (KEY_VALUE_SPLIT_SEQ cb) = ascii ''=''"
    by (simp add: KEY_VALUE_SPLIT_SEQ_def of_c_str_str ascii_def c_string_def)
  have idx: "cb_index_of cb src (KEY_VALUE_SPLIT_SEQ cb) = Some (length k)"
    using k by (simp add: index_of sep src ascii_def find_sub_single_fresh)
  have len: "cb_length cb (KEY_VALUE_SPLIT_SEQ cb) = 1" "cb_length cb src = length k + 1 + length v"
    by (simp_all add: length_str sep src)
  obtain val' where val': "cb_substring_from cb val src (length k + 1) (length k + 1 + length v) = Some val'"
      "cb_c_str cb val' = segment (length k + 1) (length k + 1 + length v) (cb_c_str cb src)"
      "cap val' = cap val"
    by (rule substring_from_ok [of "length k + 1" "length k + 1 + length v" src val])
      (use v in \<open>auto simp: src\<close>)
  obtain src' where src': "cb_substring cb src 0 (length k) = Some src'"
      "cb_c_str cb src' = segment 0 (length k) (cb_c_str cb src)" "cap src' = cap src"
    by (rule substring_ok [of 0 "length k" src]) (auto simp: src)
  from val' src' show ?thesis
    by (simp add: split_key_value_pair_def idx len) (simp add: src segment_def ascii_def)
qed

lemma split_key_value_pair_no_separator:
  assumes "of_char CHR ''='' \<notin> set (cb_c_str cb src)"
  shows "split_key_value_pair cb src val = (Inl ProtocolException, src, val)"
proof -
  have "cb_index_of cb src (KEY_VALUE_SPLIT_SEQ cb) = None"
    using assms by (simp add: index_of KEY_VALUE_SPLIT_SEQ_def of_c_str_str ascii_def c_string_def
        find_sub_single_None)
  then show ?thesis by (simp add: split_key_value_pair_def)
qed

lemma split_key_value_pair_cap:
  "split_key_value_pair cb src val = (r, src', val') \<Longrightarrow> cap src' = cap src \<and> cap val' = cap val"
  by (auto simp: split_key_value_pair_def substring_cap substring_from_cap split: option.splits)

end

section \<open>Properties\<close>

text \<open>
  Property C17. A field that \<open>write_field\<close> stored is what \<open>read_field\<close> at the same offset
  returns, with the offset advanced past it, for any larger readable part of the buffer and
  any field buffer that can hold it.
\<close>

theorem field_roundtrip:
  assumes cb: "char_buffer cb cap"
    and wr: "write_field cb buf capacity off fb = Inr (buf', off')"
    and c: "capacity \<le> length buf" "off' \<le> capacity'"
    and d: "length (cb_c_str cb fb) \<le> cap dst"
  shows "\<exists>dst'. read_field cb buf' capacity' off dst = (Inr True, off', dst') \<and>
    cb_c_str cb dst' = cb_c_str cb fb"
proof -
  note codec = char_buffer.write_field_OkD [OF cb c(1) wr]
  let ?n = "length (cb_c_str cb fb)"
  have fit: "off + ?n + 2 \<le> length buf" using codec(2,3) c(1) by simp
  have n: "?n = unat (field_length_at buf' off)"
    using field_length_at_blit [OF codec(1) fit] codec(4) by simp
  have "off + 2 + ?n \<le> capacity'" using codec(2) c(2) by simp
  from char_buffer.read_field_ok [OF cb this d n] segment_blit_encoded [OF fit] codec(2,4)
  show ?thesis by auto
qed

theorem field_roundtrip_witness:
  "\<exists>dst'. read_field bounded_ops [9, 0, 2, 65, 66, 0] 5 1 (8, []) = (Inr True, 5, dst') \<and>
     cb_c_str bounded_ops dst' = [65, 66 :: byte]"
proof -
  have w: "write_field bounded_ops [9, 0, 0, 0, 0, 0] 6 1 (2, [65, 66]) = Inr ([9, 0, 2, 65, 66, 0], 5)"
    by (simp add: write_field_def write_field_impl_eq bounded_ops_def encode_field_def blit_def)
  show ?thesis
    using field_roundtrip [OF bounded.char_buffer_axioms w, of 5 "(8, [])"]
    by (simp add: bounded_ops_def)
qed

text \<open>
  Writing succeeds exactly when the field fits and its length has 16 bits; then
  the bytes at the offset are the length prefix and the contents, and all others keep their
  value. Otherwise a \<open>ProtocolException\<close> leaves the buffer and the offset as they were.
\<close>

lemma write_field_exact:
  assumes "capacity \<le> length buf"
  shows "write_field_string buf capacity off data =
    (if length data \<le> 0xFFFF \<and> off + length data + 2 \<le> capacity
     then Inr (take off buf @ of_nat (length data div 256) # of_nat (length data mod 256) # data @
                 drop (off + length data + 2) buf, off + length data + 2)
     else Inl ProtocolException)"
  using assms
  by (simp add: string_codec.write_eq blit_def encode_field_def)

text \<open>The overload for strings depends on the readable part only, too.\<close>

lemma read_field_string_confined:
  assumes "take capacity buf = take capacity buf'"
  shows "read_field_string buf capacity off s = read_field_string buf' capacity off s"
proof (cases "off < capacity \<and> size_sub capacity off \<ge> 2")
  case True
  then have c: "off + 2 \<le> capacity" by (auto simp: size_sub_def)
  note f = field_length_at_take [OF assms c, symmetric]
  let ?last = "off + 2 + unat (field_length_at buf off)"
  have "segment (off + 2) ?last buf = segment (off + 2) ?last buf'" if "?last \<le> capacity"
    using assms that by (metis segment_take)
  moreover have "?last \<le> capacity" if "unat (field_length_at buf off) \<le> capacity - off - 2"
    using that c by simp
  ultimately show ?thesis unfolding read_field_string_def Let_def f by (auto split: if_splits)
next
  case False
  then show ?thesis unfolding read_field_string_def by (simp only: if_False)
qed

text \<open>
  Property C32. \<open>read_field\<close> never looks beyond the readable part of the I/O buffer, whatever
  bytes a client has sent: what it answers, the new offset and the contents of the field buffer
  are the same for any two buffers that agree on the first \<open>capacity\<close> bytes. It accepts exactly
  the fields whose two length bytes and contents lie within them and fit the field buffer; then
  the offset has advanced past the field and the field buffer holds its bytes. Anything else is
  a \<open>ProtocolException\<close> that leaves the offset as it was and the field buffer empty.
\<close>

theorem read_field_confined:
  assumes cb: "char_buffer cb cap"
    and same: "take capacity buf = take capacity buf'"
    and rd: "read_field cb buf capacity off fb = (r, off1, fb1)"
      "read_field cb buf' capacity off fb = (r', off1', fb1')"
  shows "r' = r \<and> off1' = off1 \<and> cb_c_str cb fb1' = cb_c_str cb fb1 \<and>
    (if off + 2 \<le> capacity \<and> off + 2 + unat (field_length_at buf off) \<le> capacity \<and>
        unat (field_length_at buf off) \<le> cap fb
     then r = Inr True \<and> off1 = off + 2 + unat (field_length_at buf off) \<and>
       cb_c_str cb fb1 = segment (off + 2) off1 (take capacity buf)
     else r = Inl ProtocolException \<and> off1 = off \<and> cb_c_str cb fb1 = [])"
proof (cases "off + 2 \<le> capacity")
  case False
  then have "\<not> (off < capacity \<and> size_sub capacity off \<ge> 2)" by (auto simp: size_sub_def)
  then have "read_field cb b capacity off fb = (Inl ProtocolException, off, cb_clear cb fb)" for b
    unfolding read_field_def Let_def by (simp only: if_False)
  with rd False char_buffer.clear_str [OF cb, of fb] show ?thesis by auto
next
  case True
  let ?n = "unat (field_length_at buf off)"
  have n: "?n = unat (field_length_at buf' off)"
    using field_length_at_take [OF same True] by simp
  show ?thesis
  proof (cases "off + 2 + ?n \<le> capacity \<and> ?n \<le> cap fb")
    case fits: True
    note pre = segment_take [OF conjunct1 [OF fits], of "off + 2", symmetric]
    have seg: "segment (off + 2) (off + 2 + ?n) buf = segment (off + 2) (off + 2 + ?n) (take capacity buf)"
      "segment (off + 2) (off + 2 + ?n) buf' = segment (off + 2) (off + 2 + ?n) (take capacity buf)"
      using pre [of buf] pre [of buf'] by (simp_all only: same)
    note ok = char_buffer.read_field_ok [OF cb]
    from ok [of off ?n capacity fb buf] ok [of off ?n capacity fb buf'] fits n rd seg True
    show ?thesis by (auto simp: add.assoc)
  next
    case False
    have "read_field cb b capacity off fb = (Inl ProtocolException, off, cb_clear cb fb)"
      if b: "unat (field_length_at b off) = ?n" for b
    proof -
      have "cb_substring_raw_from cb (cb_clear cb fb) b (off + 2) (off + 2 + ?n) = None" if "\<not> ?n \<le> cap fb"
        using that by (simp add: char_buffer.raw_from_fail [OF cb] char_buffer.clear_cap [OF cb])
      with False True show ?thesis by (auto simp: read_field_def Let_def b)
    qed
    from this [of buf] this [of buf'] rd False True n char_buffer.clear_str [OF cb]
    show ?thesis by (auto split: if_splits)
  qed
qed

theorem read_field_confined_witness:
  "\<exists>off1 fb1. read_field bounded_ops [0, 1, 65, 1] 3 0 (8, []) = (Inr True, off1, fb1) \<and>
    cb_c_str bounded_ops fb1 = [65 :: byte] \<and> off1 = 3"
proof -
  have h: "take 3 [0, 1, 65, 1 :: byte] = take 3 [0, 1, 65, 2]" by simp
  obtain r off1 fb1 where rd: "read_field bounded_ops [0, 1, 65, 1] 3 0 (8, []) = (r, off1, fb1)"
    by (metis prod_cases3)
  obtain r' off1' fb1' where rd': "read_field bounded_ops [0, 1, 65, 2] 3 0 (8, []) = (r', off1', fb1')"
    by (metis prod_cases3)
  have n: "unat (field_length_at [0, 1, 65, 1 :: byte] 0) = 1" by (simp add: field_length_at_def)
  from read_field_confined [OF bounded.char_buffer_axioms h rd rd'] show ?thesis
    unfolding n using rd by (simp add: segment_def)
qed

end
