(* ===== verification/Node_Queue.thy ===== *)
theory Node_Queue
  imports Prelude
begin

text \<open>
  The intrusive doubly linked queue (Queue.h). A node of type \<open>T\<close> extends \<open>Queue<T>::Node\<close>,
  which holds the two link pointers; here a record that extends \<open>link\<close>. Nodes live in a
  store indexed by their address, so two queues over the same nodes (the connector has two)
  share one store. A null pointer is \<open>None\<close>.
\<close>

section \<open>Nodes, store, queue object\<close>

record link =
  next_node :: "nat option"
  prev_node :: "nat option"

record node_queue =
  q_size :: nat
  head_node :: "nat option"
  tail_node :: "nat option"

type_synonym 'a store = "nat \<Rightarrow> 'a link_scheme"

definition new_link :: link where
  "new_link = \<lparr>next_node = None, prev_node = None\<rparr>"

definition new_queue :: node_queue where
  "new_queue = \<lparr>q_size = 0, head_node = None, tail_node = None\<rparr>"

definition set_next :: "'a store \<Rightarrow> nat \<Rightarrow> nat option \<Rightarrow> 'a store" where
  "set_next h n p = h(n := (h n)\<lparr>next_node := p\<rparr>)"

definition set_prev :: "'a store \<Rightarrow> nat \<Rightarrow> nat option \<Rightarrow> 'a store" where
  "set_prev h n p = h(n := (h n)\<lparr>prev_node := p\<rparr>)"

section \<open>The operations of Queue.h\<close>

definition add_first :: "'a store \<Rightarrow> node_queue \<Rightarrow> nat \<Rightarrow> 'a store \<times> node_queue" where
  "add_first h q ins_node =
     (let (h, tn) = (case head_node q of
             Some hn \<Rightarrow> (set_prev h hn (Some ins_node), tail_node q)
           | None \<Rightarrow> (h, Some ins_node));
          h = set_next h ins_node (head_node q);
          h = set_prev h ins_node None
      in (h, q\<lparr>head_node := Some ins_node, tail_node := tn, q_size := size_inc (q_size q)\<rparr>))"

definition add_last :: "'a store \<Rightarrow> node_queue \<Rightarrow> nat \<Rightarrow> 'a store \<times> node_queue" where
  "add_last h q ins_node =
     (let (h, hn) = (case tail_node q of
             Some tn \<Rightarrow> (set_next h tn (Some ins_node), head_node q)
           | None \<Rightarrow> (h, Some ins_node));
          h = set_next h ins_node None;
          h = set_prev h ins_node (tail_node q)
      in (h, q\<lparr>head_node := hn, tail_node := Some ins_node, q_size := size_inc (q_size q)\<rparr>))"

definition get_first :: "node_queue \<Rightarrow> nat option" where
  "get_first q = head_node q"

definition get_last :: "node_queue \<Rightarrow> nat option" where
  "get_last q = tail_node q"

definition get_next_node :: "'a store \<Rightarrow> nat \<Rightarrow> nat option" where
  "get_next_node h n = next_node (h n)"

definition get_prev_node :: "'a store \<Rightarrow> nat \<Rightarrow> nat option" where
  "get_prev_node h n = prev_node (h n)"

text \<open>
  In the branch with more than one node, \<open>head_node->prev_node = nullptr\<close> dereferences the
  new head; the model writes through it when it is there.
\<close>

definition remove_first :: "'a store \<Rightarrow> node_queue \<Rightarrow> nat option \<times> 'a store \<times> node_queue" where
  "remove_first h q =
     (case head_node q of
        None \<Rightarrow> (None, h, q)
      | Some rmv_node \<Rightarrow>
          (let (h, hn, tn) =
             (if head_node q = tail_node q then (h, None, None)
              else (case next_node (h rmv_node) of
                      Some hn \<Rightarrow> (set_prev h hn None, Some hn, tail_node q)
                    | None \<Rightarrow> (h, None, tail_node q)));
               h = set_next h rmv_node None
           in (Some rmv_node, h,
               q\<lparr>head_node := hn, tail_node := tn, q_size := size_dec (q_size q)\<rparr>)))"

text \<open>
  \<open>remove_last\<close> decrements the size only in the branch with more than one node, as written.
\<close>

definition remove_last :: "'a store \<Rightarrow> node_queue \<Rightarrow> nat option \<times> 'a store \<times> node_queue" where
  "remove_last h q =
     (case tail_node q of
        None \<Rightarrow> (None, h, q)
      | Some rmv_node \<Rightarrow>
          (let (h, q) =
             (if head_node q = tail_node q then (h, q\<lparr>head_node := None, tail_node := None\<rparr>)
              else (case prev_node (h rmv_node) of
                      Some tn \<Rightarrow> (set_next h tn None,
                                 q\<lparr>tail_node := Some tn, q_size := size_dec (q_size q)\<rparr>)
                    | None \<Rightarrow> (h, q\<lparr>tail_node := None, q_size := size_dec (q_size q)\<rparr>)));
               h = set_prev h rmv_node None
           in (Some rmv_node, h, q)))"

definition remove_node :: "'a store \<Rightarrow> node_queue \<Rightarrow> nat \<Rightarrow> 'a store \<times> node_queue" where
  "remove_node h q rmv_node =
     (let (h, hn) = (case prev_node (h rmv_node) of
             None \<Rightarrow> (h, next_node (h rmv_node))
           | Some p \<Rightarrow> (set_next h p (next_node (h rmv_node)), head_node q));
          (h, tn) = (case next_node (h rmv_node) of
             None \<Rightarrow> (h, prev_node (h rmv_node))
           | Some s \<Rightarrow> (set_prev h s (prev_node (h rmv_node)), tail_node q));
          h = set_prev h rmv_node None;
          h = set_next h rmv_node None
      in (h, q\<lparr>head_node := hn, tail_node := tn, q_size := size_dec (q_size q)\<rparr>))"

text \<open>The loop of \<open>clear\<close> ends when the chain from \<open>head_node\<close> does.\<close>

partial_function (option) clear_nodes :: "'a store \<Rightarrow> nat option \<Rightarrow> 'a store option" where
  "clear_nodes h clr_node =
     (case clr_node of
        None \<Rightarrow> Some h
      | Some n \<Rightarrow>
          (let next_node' = next_node (h n);
               h = set_next h n None;
               h = set_prev h n None
           in clear_nodes h next_node'))"

definition clear_queue :: "'a store \<Rightarrow> node_queue \<Rightarrow> ('a store \<times> node_queue) option" where
  "clear_queue h q =
     (case clear_nodes h (head_node q) of
        None \<Rightarrow> None
      | Some h \<Rightarrow> Some (h, q\<lparr>head_node := None, tail_node := None, q_size := 0\<rparr>))"

definition get_size :: "node_queue \<Rightarrow> nat" where
  "get_size q = q_size q"

section \<open>The list a queue holds\<close>

text \<open>
  \<open>chain h p xs n\<close>: the nodes \<open>xs\<close> are linked one after the other both ways, with \<open>p\<close>
  before the first and \<open>n\<close> after the last.
\<close>

definition first_or :: "nat option \<Rightarrow> nat list \<Rightarrow> nat option" where
  "first_or n xs = (case xs of [] \<Rightarrow> n | x # _ \<Rightarrow> Some x)"

definition last_or :: "nat option \<Rightarrow> nat list \<Rightarrow> nat option" where
  "last_or p xs = (if xs = [] then p else Some (last xs))"

fun chain :: "'a store \<Rightarrow> nat option \<Rightarrow> nat list \<Rightarrow> nat option \<Rightarrow> bool" where
  "chain h p [] n = True"
| "chain h p (x # xs) n =
     (prev_node (h x) = p \<and> next_node (h x) = first_or n xs \<and> chain h (Some x) xs n)"

definition queue_links :: "'a store \<Rightarrow> node_queue \<Rightarrow> nat list \<Rightarrow> bool" where
  "queue_links h q xs \<longleftrightarrow> distinct xs \<and> head_node q = first_or None xs \<and>
     tail_node q = last_or None xs \<and> chain h None xs None"

definition size_ok :: "node_queue \<Rightarrow> nat list \<Rightarrow> bool" where
  "size_ok q xs \<longleftrightarrow> q_size q = length xs \<and> length xs < SIZE_MODULUS"

lemma first_or_simps [simp]:
  "first_or n [] = n" "first_or n (x # xs) = Some x"
  by (simp_all add: first_or_def)

lemma last_or_simps [simp]:
  "last_or p [] = p" "last_or p (xs @ [x]) = Some x" "last_or p (x # xs) = last_or (Some x) xs"
  by (simp_all add: last_or_def)

lemma first_or_append [simp]: "first_or n (xs @ ys) = first_or (first_or n ys) xs"
  by (cases xs) simp_all

lemma last_or_append [simp]: "last_or p (xs @ ys) = last_or (last_or p xs) ys"
  by (simp add: last_or_def)

lemma first_or_None_iff [simp]: "first_or None xs = None \<longleftrightarrow> xs = []"
  by (cases xs) simp_all

lemma last_or_None_iff [simp]: "last_or None xs = None \<longleftrightarrow> xs = []"
  by (simp add: last_or_def)

lemma chain_append [simp]:
  "chain h p (xs @ ys) n \<longleftrightarrow> chain h p xs (first_or n ys) \<and> chain h (last_or p xs) ys n"
  by (induction xs arbitrary: p) auto

lemma chain_cong:
  assumes "\<And>x. x \<in> set xs \<Longrightarrow> next_node (h' x) = next_node (h x) \<and> prev_node (h' x) = prev_node (h x)"
  shows "chain h' p xs n = chain h p xs n"
  using assms by (induction xs arbitrary: p) auto

lemma chain_upd_other [simp]:
  "a \<notin> set xs \<Longrightarrow> chain (h(a := v)) p xs n = chain h p xs n"
  by (rule chain_cong) auto

lemma chain_set_next_last:
  assumes "chain h p xs n" and "distinct xs" and "xs \<noteq> []"
  shows "chain (set_next h (last xs) n') p xs n'"
  using assms by (cases xs rule: rev_cases) (simp_all add: set_next_def)

lemma chain_set_prev_first:
  assumes "chain h p (x # xs) n" and "distinct (x # xs)"
  shows "chain (set_prev h x p') p' (x # xs) n"
  using assms by (simp add: set_prev_def)

lemma queue_links_distinct: "queue_links h q xs \<Longrightarrow> distinct xs"
  by (simp add: queue_links_def)

lemma queue_links_local:
  "(\<And>x. x \<in> set xs \<Longrightarrow> h' x = h x) \<Longrightarrow> queue_links h q xs \<Longrightarrow> queue_links h' q xs"
  by (simp add: queue_links_def chain_cong [of xs h' h])

lemma queue_links_new: "queue_links h new_queue []"
  by (simp add: queue_links_def new_queue_def)

text \<open>The list is determined by the store and the queue: walking the links reads it.\<close>

fun walk :: "nat \<Rightarrow> 'a store \<Rightarrow> nat option \<Rightarrow> nat list" where
  "walk 0 h p = []"
| "walk (Suc k) h None = []"
| "walk (Suc k) h (Some n) = n # walk k h (next_node (h n))"

lemma walk_chain:
  "chain h p xs None \<Longrightarrow> length xs \<le> k \<Longrightarrow> walk k h (first_or None xs) = xs"
proof (induction xs arbitrary: k p)
  case Nil
  then show ?case by (cases k) simp_all
next
  case (Cons x xs)
  then show ?case by (cases k) auto
qed

lemma walk_queue_links: "queue_links h q xs \<Longrightarrow> length xs \<le> k \<Longrightarrow> walk k h (head_node q) = xs"
  unfolding queue_links_def by (metis walk_chain)

lemma queue_links_unique: "queue_links h q xs \<Longrightarrow> queue_links h q ys \<Longrightarrow> xs = ys"
  by (metis walk_queue_links le_add1 le_add2)

section \<open>What the operations do to the list\<close>

text \<open>
  An operation changes the links of nodes only: every other part of a node, and every node
  outside the queue and its argument, is left as it was.
\<close>

definition same_payload :: "'a store \<Rightarrow> 'a store \<Rightarrow> bool" where
  "same_payload h h' \<longleftrightarrow> (\<forall>x. link.more (h' x) = link.more (h x))"

lemma same_payload_refl [simp]: "same_payload h h"
  by (simp add: same_payload_def)

lemma same_payload_trans: "same_payload h1 h2 \<Longrightarrow> same_payload h2 h3 \<Longrightarrow> same_payload h1 h3"
  by (simp add: same_payload_def)

lemma same_payload_set_next [simp]: "same_payload h (set_next h' n v) = same_payload h h'"
  by (auto simp: same_payload_def set_next_def)

lemma same_payload_set_prev [simp]: "same_payload h (set_prev h' n v) = same_payload h h'"
  by (auto simp: same_payload_def set_prev_def)

text \<open>So a node is the old one with other links, which leaves every further field alone.\<close>

lemma same_payloadE:
  assumes "same_payload h h'"
  obtains a b where "h' x = (h x)\<lparr>next_node := a, prev_node := b\<rparr>"
proof -
  have "link.more (h' x) = link.more (h x)" using assms by (simp add: same_payload_def)
  then have "h' x = (h x)\<lparr>next_node := next_node (h' x), prev_node := prev_node (h' x)\<rparr>"
    by (cases "h x"; cases "h' x") simp
  then show thesis by (rule that)
qed

lemma same_payload_add_last: "same_payload h (fst (add_last h q n))"
  by (auto simp: add_last_def Let_def split: option.splits)

lemma same_payload_remove_node: "same_payload h (fst (remove_node h q n))"
  by (auto simp: remove_node_def Let_def split: option.splits prod.splits)

lemma same_payload_remove_first: "same_payload h (fst (snd (remove_first h q)))"
  by (auto simp: remove_first_def Let_def split: option.splits prod.splits if_splits)

lemma add_last_links:
  assumes q: "queue_links h q xs" and n: "n \<notin> set xs" and eq: "add_last h q n = (h', q')"
  shows "queue_links h' q' (xs @ [n])"
proof (cases xs rule: rev_cases)
  case Nil
  with assms show ?thesis
    by (auto simp: queue_links_def add_last_def set_next_def set_prev_def)
next
  case (snoc ys y)
  with assms show ?thesis
    by (auto simp: queue_links_def add_last_def set_next_def set_prev_def)
qed

lemma add_last_frame:
  assumes "queue_links h q xs" and "add_last h q n = (h', q')" and "x \<notin> insert n (set xs)"
  shows "h' x = h x"
  using assms
  by (cases xs rule: rev_cases)
    (auto simp: queue_links_def add_last_def set_next_def set_prev_def)

lemma add_first_links:
  assumes q: "queue_links h q xs" and n: "n \<notin> set xs" and eq: "add_first h q n = (h', q')"
  shows "queue_links h' q' (n # xs)"
proof (cases xs)
  case Nil
  with assms show ?thesis
    by (auto simp: queue_links_def add_first_def set_next_def set_prev_def)
next
  case (Cons y ys)
  with assms show ?thesis
    by (auto simp: queue_links_def add_first_def set_next_def set_prev_def last_or_def)
qed

lemma remove_first_links:
  assumes q: "queue_links h q xs" and eq: "remove_first h q = (r, h', q')"
  shows "r = first_or None xs \<and> queue_links h' q' (tl xs)"
proof (cases xs)
  case Nil
  with assms show ?thesis by (auto simp: queue_links_def remove_first_def)
next
  case (Cons y ys)
  show ?thesis
  proof (cases ys)
    case Nil
    with Cons assms show ?thesis
      by (auto simp: queue_links_def remove_first_def)
  next
    case (Cons z zs)
    with \<open>xs = y # ys\<close> q have "head_node q = Some y" "tail_node q = last_or (Some z) zs" "y \<noteq> z"
      "last_or (Some z) zs \<noteq> Some y"
      by (auto simp: queue_links_def last_or_def split: if_splits)
    with \<open>xs = y # ys\<close> Cons assms show ?thesis
      by (auto simp: queue_links_def remove_first_def set_next_def set_prev_def)
  qed
qed

lemma remove_first_frame:
  assumes "queue_links h q xs" and "remove_first h q = (r, h', q')" and "x \<notin> set xs"
  shows "h' x = h x"
proof (cases xs)
  case Nil
  with assms show ?thesis by (auto simp: queue_links_def remove_first_def)
next
  case (Cons y ys)
  with assms show ?thesis
    by (cases ys)
      (auto simp: queue_links_def remove_first_def set_next_def set_prev_def Let_def split: if_splits)
qed

lemma remove_first_detached:
  assumes "queue_links h q (x # xs)" and "remove_first h q = (r, h', q')"
  shows "next_node (h' x) = None \<and> prev_node (h' x) = None"
  using assms
  by (cases xs)
    (auto simp: queue_links_def remove_first_def set_next_def set_prev_def Let_def split: if_splits)

lemma remove_node_split:
  assumes q: "queue_links h q (as @ n # bs)" and eq: "remove_node h q n = (h', q')"
  shows "queue_links h' q' (as @ bs)"
proof -
  from q have d: "distinct as" "distinct bs" "n \<notin> set as" "n \<notin> set bs" "set as \<inter> set bs = {}"
    and ch: "chain h None as (Some n)" "prev_node (h n) = last_or None as"
      "next_node (h n) = first_or None bs" "chain h (Some n) bs None"
    and ends: "head_node q = first_or (Some n) as" "tail_node q = last_or (Some n) bs"
    by (auto simp: queue_links_def)
  show ?thesis
  proof (cases as rule: rev_cases)
    case as: Nil
    show ?thesis
    proof (cases bs)
      case Nil
      with as eq ch ends show ?thesis
        by (auto simp: queue_links_def remove_node_def set_next_def set_prev_def)
    next
      case (Cons b bs')
      with as eq ch ends d show ?thesis
        by (auto simp: queue_links_def remove_node_def set_next_def set_prev_def)
    qed
  next
    case as: (snoc as' a)
    show ?thesis
    proof (cases bs)
      case Nil
      with as eq ch ends d show ?thesis
        by (auto simp: queue_links_def remove_node_def set_next_def set_prev_def)
    next
      case (Cons b bs')
      with as eq ch ends d show ?thesis
        by (auto simp: queue_links_def remove_node_def set_next_def set_prev_def)
    qed
  qed
qed

lemma remove_node_links:
  assumes "queue_links h q xs" and "n \<in> set xs" and "remove_node h q n = (h', q')"
  shows "queue_links h' q' (remove1 n xs)"
proof -
  from assms(2) obtain as bs where xs: "xs = as @ n # bs" "n \<notin> set as"
    by (meson split_list_first)
  then have "remove1 n xs = as @ bs" by (simp add: remove1_append)
  with remove_node_split [of h q as n bs] assms xs show ?thesis by simp
qed

lemma remove_node_frame:
  assumes q: "queue_links h q xs" and n: "n \<in> set xs" and eq: "remove_node h q n = (h', q')"
    and x: "x \<notin> set xs"
  shows "h' x = h x"
proof -
  from n obtain as bs where xs: "xs = as @ n # bs" by (meson split_list)
  with q have "prev_node (h n) = last_or None as" "next_node (h n) = first_or None bs"
    by (auto simp: queue_links_def)
  moreover have "last_or None as = Some p \<Longrightarrow> p \<in> set xs" for p
    using xs by (auto simp: last_or_def split: if_splits)
  moreover have "first_or None bs = Some p \<Longrightarrow> p \<in> set xs" for p
    using xs by (cases bs) auto
  ultimately show ?thesis
    using eq n x
    by (auto simp: remove_node_def set_next_def set_prev_def Let_def split: option.splits)
qed

lemma remove_node_detached:
  "remove_node h q n = (h', q') \<Longrightarrow> next_node (h' n) = None \<and> prev_node (h' n) = None"
  by (auto simp: remove_node_def set_next_def set_prev_def split: prod.splits)

lemma remove_last_links:
  assumes q: "queue_links h q xs" and eq: "remove_last h q = (r, h', q')"
  shows "r = last_or None xs \<and> queue_links h' q' (butlast xs)"
proof (cases xs rule: rev_cases)
  case Nil
  with assms show ?thesis by (auto simp: queue_links_def remove_last_def)
next
  case (snoc ys y)
  show ?thesis
  proof (cases ys rule: rev_cases)
    case Nil
    with snoc assms show ?thesis
      by (auto simp: queue_links_def remove_last_def set_prev_def)
  next
    case (snoc zs z)
    have "first_or (Some z) zs \<noteq> Some y"
      using \<open>xs = ys @ [y]\<close> snoc q by (cases zs) (auto simp: queue_links_def)
    with \<open>xs = ys @ [y]\<close> snoc assms show ?thesis
      by (auto simp: queue_links_def remove_last_def set_next_def set_prev_def butlast_append)
  qed
qed

text \<open>Sizes: every operation but \<open>remove_last\<close> keeps the count.\<close>

lemma add_last_size:
  "size_ok q xs \<Longrightarrow> Suc (length xs) < SIZE_MODULUS \<Longrightarrow> add_last h q n = (h', q') \<Longrightarrow>
   size_ok q' (xs @ [n])"
  by (auto simp: size_ok_def add_last_def split: prod.splits)

lemma add_first_size:
  "size_ok q xs \<Longrightarrow> Suc (length xs) < SIZE_MODULUS \<Longrightarrow> add_first h q n = (h', q') \<Longrightarrow>
   size_ok q' (n # xs)"
  by (auto simp: size_ok_def add_first_def split: prod.splits)

lemma remove_node_q_size: "remove_node h q n = (h', q') \<Longrightarrow> q_size q' = size_dec (q_size q)"
  by (auto simp: remove_node_def split: prod.splits)

lemma remove_node_size:
  assumes "size_ok q xs" and "n \<in> set xs" and "remove_node h q n = (h', q')"
  shows "size_ok q' (remove1 n xs)"
proof -
  have "0 < length xs" using assms(2) by (cases xs) auto
  with assms remove_node_q_size [OF assms(3)] show ?thesis
    by (simp add: size_ok_def length_remove1 size_dec_pos less_imp_diff_less)
qed

lemma remove_first_size:
  "queue_links h q xs \<Longrightarrow> size_ok q xs \<Longrightarrow> remove_first h q = (r, h', q') \<Longrightarrow>
   size_ok q' (tl xs)"
  by (cases xs) (auto simp: size_ok_def queue_links_def remove_first_def split: prod.splits if_splits)

lemma remove_last_size:
  assumes "queue_links h q xs" and "size_ok q xs" and "remove_last h q = (r, h', q')"
  shows "q_size q' = (if length xs = 1 then 1 else length (butlast xs))"
proof (cases xs rule: rev_cases)
  case Nil
  with assms show ?thesis by (auto simp: size_ok_def queue_links_def remove_last_def)
next
  case (snoc ys y)
  show ?thesis
  proof (cases ys rule: rev_cases)
    case Nil
    with snoc assms show ?thesis
      by (auto simp: size_ok_def queue_links_def remove_last_def)
  next
    case (snoc zs z)
    have "first_or (Some z) zs \<noteq> Some y"
      using \<open>xs = ys @ [y]\<close> snoc assms(1) by (cases zs) (auto simp: queue_links_def)
    with \<open>xs = ys @ [y]\<close> snoc assms show ?thesis
      by (auto simp: size_ok_def queue_links_def remove_last_def)
  qed
qed

text \<open>\<open>clear\<close> returns, unlinks every node of the queue and touches no other.\<close>

lemma clear_nodes_chain:
  assumes "chain h p xs None" and "distinct xs"
  shows "\<exists>h'. clear_nodes h (first_or None xs) = Some h' \<and>
    (\<forall>x. h' x = (if x \<in> set xs then (h x)\<lparr>next_node := None, prev_node := None\<rparr> else h x))"
  using assms
proof (induction xs arbitrary: h p)
  case Nil
  show ?case by (subst clear_nodes.simps) simp
next
  case (Cons x xs)
  let ?h = "set_prev (set_next h x None) x None"
  have "chain ?h (Some x) xs None" and "distinct xs"
    using Cons.prems by (simp_all add: set_prev_def set_next_def)
  then obtain h' where h': "clear_nodes ?h (first_or None xs) = Some h'"
    "\<forall>y. h' y = (if y \<in> set xs then (?h y)\<lparr>next_node := None, prev_node := None\<rparr> else ?h y)"
    using Cons.IH by blast
  have "clear_nodes h (first_or None (x # xs)) = clear_nodes ?h (first_or None xs)"
    using Cons.prems(1) by (subst clear_nodes.simps) simp
  with h' Cons.prems(2) show ?case
    by (auto simp: set_prev_def set_next_def)
qed

lemma clear_queue_links:
  assumes "queue_links h q xs"
  shows "\<exists>h' q'. clear_queue h q = Some (h', q') \<and> queue_links h' q' [] \<and> size_ok q' [] \<and>
    (\<forall>x. h' x = (if x \<in> set xs then (h x)\<lparr>next_node := None, prev_node := None\<rparr> else h x))"
  using clear_nodes_chain [of h None xs] assms
  by (auto simp: queue_links_def clear_queue_def size_ok_def SIZE_MODULUS_def)

text \<open>
  \<open>remove\<close> of a node whose links are null takes it for the only node of the queue: the
  queue forgets whatever it held.
\<close>

lemma remove_node_detached_node:
  assumes "next_node (h n) = None" and "prev_node (h n) = None"
  shows "remove_node h q n =
    (h, q\<lparr>head_node := None, tail_node := None, q_size := size_dec (q_size q)\<rparr>)"
proof -
  have "set_next (set_prev h n None) n None = h"
    using assms by (auto simp: set_next_def set_prev_def)
  with assms show ?thesis by (simp add: remove_node_def)
qed

section \<open>The contract the connector relies on\<close>

locale intrusive_queue =
  fixes links :: "(nat \<Rightarrow> 'n) \<Rightarrow> 'q \<Rightarrow> nat list \<Rightarrow> bool"
    and enq :: "(nat \<Rightarrow> 'n) \<Rightarrow> 'q \<Rightarrow> nat \<Rightarrow> (nat \<Rightarrow> 'n) \<times> 'q"
    and deq :: "(nat \<Rightarrow> 'n) \<Rightarrow> 'q \<Rightarrow> nat option \<times> (nat \<Rightarrow> 'n) \<times> 'q"
    and unlink :: "(nat \<Rightarrow> 'n) \<Rightarrow> 'q \<Rightarrow> nat \<Rightarrow> (nat \<Rightarrow> 'n) \<times> 'q"
  assumes links_distinct: "links h q xs \<Longrightarrow> distinct xs"
    and links_local: "(\<And>x. x \<in> set xs \<Longrightarrow> h' x = h x) \<Longrightarrow> links h q xs \<Longrightarrow> links h' q xs"
    and enq_links: "links h q xs \<Longrightarrow> n \<notin> set xs \<Longrightarrow> enq h q n = (h', q') \<Longrightarrow> links h' q' (xs @ [n])"
    and enq_frame: "links h q xs \<Longrightarrow> enq h q n = (h', q') \<Longrightarrow> x \<notin> insert n (set xs) \<Longrightarrow> h' x = h x"
    and deq_links: "links h q xs \<Longrightarrow> deq h q = (r, h', q') \<Longrightarrow>
          r = first_or None xs \<and> links h' q' (tl xs)"
    and deq_frame: "links h q xs \<Longrightarrow> deq h q = (r, h', q') \<Longrightarrow> x \<notin> set xs \<Longrightarrow> h' x = h x"
    and unlink_links: "links h q xs \<Longrightarrow> n \<in> set xs \<Longrightarrow> unlink h q n = (h', q') \<Longrightarrow>
          links h' q' (remove1 n xs)"
    and unlink_frame: "links h q xs \<Longrightarrow> n \<in> set xs \<Longrightarrow> unlink h q n = (h', q') \<Longrightarrow>
          x \<notin> set xs \<Longrightarrow> h' x = h x"
begin

text \<open>Two queues over disjoint nodes of one store do not disturb each other.\<close>

lemma enq_other:
  "links h q xs \<Longrightarrow> links h p ys \<Longrightarrow> enq h q n = (h', q') \<Longrightarrow> n \<notin> set ys \<Longrightarrow>
   set xs \<inter> set ys = {} \<Longrightarrow> links h' p ys"
  by (rule links_local [of ys h' h]) (auto intro: enq_frame)

lemma deq_other:
  "links h q xs \<Longrightarrow> links h p ys \<Longrightarrow> deq h q = (r, h', q') \<Longrightarrow> set xs \<inter> set ys = {} \<Longrightarrow>
   links h' p ys"
  by (rule links_local [of ys h' h]) (auto intro: deq_frame)

lemma unlink_other:
  "links h q xs \<Longrightarrow> links h p ys \<Longrightarrow> n \<in> set xs \<Longrightarrow> unlink h q n = (h', q') \<Longrightarrow>
   set xs \<inter> set ys = {} \<Longrightarrow> links h' p ys"
  by (rule links_local [of ys h' h]) (auto intro: unlink_frame)

text \<open>Moving a node from one queue to the end of the other.\<close>

lemma move_node:
  assumes q: "links h q xs" and p: "links h p ys" and disj: "set xs \<inter> set ys = {}"
    and n: "n \<in> set xs"
    and u: "unlink h q n = (h1, q1)" and e: "enq h1 p n = (h2, p2)"
  shows "links h2 q1 (remove1 n xs) \<and> links h2 p2 (ys @ [n])"
proof -
  have d: "distinct xs" by (rule links_distinct [OF q])
  have q1: "links h1 q1 (remove1 n xs)" by (rule unlink_links [OF q n u])
  have p1: "links h1 p ys" by (rule unlink_other [OF q p n u disj])
  have "links h2 p2 (ys @ [n])" by (rule enq_links [OF p1 _ e]) (use n disj in auto)
  moreover have "links h2 q1 (remove1 n xs)"
    by (rule enq_other [OF p1 q1 e]) (use d n disj in \<open>auto dest: notin_set_remove1\<close>)
  ultimately show ?thesis by simp
qed

end

text \<open>Enqueueing and dequeueing several nodes; first in, first out.\<close>

fun enq_all ::
  "((nat \<Rightarrow> 'n) \<Rightarrow> 'q \<Rightarrow> nat \<Rightarrow> (nat \<Rightarrow> 'n) \<times> 'q) \<Rightarrow> (nat \<Rightarrow> 'n) \<Rightarrow> 'q \<Rightarrow> nat list \<Rightarrow> (nat \<Rightarrow> 'n) \<times> 'q" where
  "enq_all enq h q [] = (h, q)"
| "enq_all enq h q (n # ns) = (case enq h q n of (h, q) \<Rightarrow> enq_all enq h q ns)"

fun deq_all ::
  "((nat \<Rightarrow> 'n) \<Rightarrow> 'q \<Rightarrow> nat option \<times> (nat \<Rightarrow> 'n) \<times> 'q) \<Rightarrow> nat \<Rightarrow> (nat \<Rightarrow> 'n) \<Rightarrow> 'q \<Rightarrow>
   nat list \<times> bool \<times> (nat \<Rightarrow> 'n) \<times> 'q" where
  "deq_all deq 0 h q = ([], False, h, q)"
| "deq_all deq (Suc k) h q =
     (case deq h q of
        (None, h, q) \<Rightarrow> ([], True, h, q)
      | (Some n, h, q) \<Rightarrow>
          (case deq_all deq k h q of (ns, emptied, h, q) \<Rightarrow> (n # ns, emptied, h, q)))"

context intrusive_queue begin

lemma enq_all_links:
  "links h q xs \<Longrightarrow> distinct (xs @ ns) \<Longrightarrow> enq_all enq h q ns = (h', q') \<Longrightarrow> links h' q' (xs @ ns)"
proof (induction ns arbitrary: h q xs)
  case (Cons n ns)
  obtain h1 q1 where e: "enq h q n = (h1, q1)" by fastforce
  have "links h1 q1 (xs @ [n])" using Cons.prems by (intro enq_links [OF _ _ e]) auto
  with Cons.IH [of h1 q1 "xs @ [n]"] Cons.prems e show ?case by simp
qed simp

lemma deq_all_links:
  "links h q xs \<Longrightarrow> length xs < k \<Longrightarrow>
   \<exists>h' q'. deq_all deq k h q = (xs, True, h', q') \<and> links h' q' []"
proof (induction k arbitrary: h q xs)
  case (Suc k)
  obtain r h1 q1 where d: "deq h q = (r, h1, q1)" by (metis prod_cases3)
  from deq_links [OF Suc.prems(1) d] have r: "r = first_or None xs" "links h1 q1 (tl xs)"
    by simp_all
  show ?case
  proof (cases xs)
    case Nil
    with d r show ?thesis by simp
  next
    case (Cons y ys)
    with Suc.IH [of h1 q1 ys] Suc.prems(2) r obtain h' q' where
      "deq_all deq k h1 q1 = (ys, True, h', q')" "links h' q' []"
      by auto
    with Cons d r show ?thesis by simp
  qed
qed simp

lemma fifo:
  assumes "links h q []" and "distinct ns" and "enq_all enq h q ns = (h1, q1)"
  shows "\<exists>h' q'. deq_all deq (Suc (length ns)) h1 q1 = (ns, True, h', q') \<and> links h' q' []"
  using enq_all_links [of h q "[]" ns] deq_all_links [of h1 q1 ns "Suc (length ns)"] assms
  by simp

end

interpretation nq: intrusive_queue queue_links add_last remove_first remove_node
  by unfold_locales
    (fact queue_links_distinct queue_links_local add_last_links add_last_frame
      remove_first_links remove_first_frame remove_node_links remove_node_frame)+

text \<open>
  Removing a node that is in no queue is not harmless: \<open>remove\<close> then sets head and tail to
  null, so that every node of the queue is dropped from it while its links stay, and counts
  down, below zero in a queue that was empty.
\<close>

lemma remove_detached_drops_queue:
  assumes "queue_links h q xs" and "next_node (h n) = None" and "prev_node (h n) = None"
  shows "\<exists>h' q'. remove_node h q n = (h', q') \<and> queue_links h' q' [] \<and>
    get_size q' = size_dec (get_size q) \<and> (\<forall>x. x \<noteq> n \<longrightarrow> h' x = h x)"
  using assms
  by (auto simp: remove_node_def set_next_def set_prev_def queue_links_def get_size_def)

text \<open>
  \<open>remove_last\<close> takes out the last node, but the counter is right only for longer queues:
  after the only node is removed the empty queue still reports the size 1.
\<close>

lemma remove_last_counts_wrong_on_one:
  assumes "queue_links h q xs" and "size_ok q xs" and "remove_last h q = (r, h', q')"
  shows "r = last_or None xs \<and> queue_links h' q' (butlast xs) \<and>
    get_size q' = (if length xs = 1 then 1 else length (butlast xs))"
  using remove_last_links [OF assms(1,3)] remove_last_size [OF assms] by (simp add: get_size_def)

section \<open>Properties\<close>

text \<open>
  Property C33. A queue is first in, first out: distinct nodes added one by one to the end of an
  empty queue come out of \<open>remove_first\<close> in the same order, after which the queue is empty
  and \<open>remove_first\<close> answers null.
\<close>

theorem queue_fifo:
  assumes "queue_links h q []" and "distinct ns" and "enq_all add_last h q ns = (h1, q1)"
  shows "\<exists>h' q'. deq_all remove_first (Suc (length ns)) h1 q1 = (ns, True, h', q') \<and>
    queue_links h' q' []"
  using assms by (rule nq.fifo)

theorem queue_fifo_witness:
  "\<exists>h q h' q'. enq_all add_last (\<lambda>_. new_link) new_queue [5, 3, 8] = (h, q) \<and>
    deq_all remove_first 4 h q = ([5, 3, 8], True, h', q') \<and> queue_links h' q' []"
proof -
  obtain h q where e: "enq_all add_last (\<lambda>_. new_link) new_queue [5, 3, 8] = (h, q)" by fastforce
  show ?thesis using e queue_fifo [OF queue_links_new _ e] by (simp add: eval_nat_numeral)
qed

text \<open>
  Property C15. On a node of the queue, \<open>remove\<close> takes exactly that node out, in constant time
  and wherever it stands: the rest keep their order, the count goes down by one, the removed
  node has null links, nodes of other queues are untouched and no node's data changes.
\<close>

theorem queue_remove_member:
  assumes "queue_links h q xs" and "size_ok q xs" and "n \<in> set xs"
    and "queue_links h p ys" and "set xs \<inter> set ys = {}"
    and "remove_node h q n = (h', q')"
  shows "queue_links h' q' (remove1 n xs) \<and> size_ok q' (remove1 n xs) \<and>
    next_node (h' n) = None \<and> prev_node (h' n) = None \<and>
    queue_links h' p ys \<and> same_payload h h'"
  using nq.unlink_links [OF assms(1,3,6)] remove_node_size [OF assms(2,3,6)]
    remove_node_detached [OF assms(6)] nq.unlink_other [OF assms(1,4,3,6,5)]
    same_payload_remove_node [of h q n] assms(6)
  by simp

theorem queue_remove_member_witness:
  "\<exists>h q h' q'. enq_all add_last (\<lambda>_. new_link) new_queue [5, 3] = (h, q) \<and>
    remove_node h q 5 = (h', q') \<and> queue_links h' q' [3] \<and> size_ok q' [3]"
proof -
  obtain h q where e: "enq_all add_last (\<lambda>_. new_link) new_queue [5, 3] = (h, q)" by fastforce
  obtain h' q' where r: "remove_node h q 5 = (h', q')" by fastforce
  have links: "queue_links h q [5, 3]"
    using nq.enq_all_links [OF queue_links_new _ e] by simp
  have sz: "size_ok q [5, 3]"
    using e by (simp add: add_last_def new_queue_def size_ok_def SIZE_MODULUS_def size_inc_def
        new_link_def) auto
  show ?thesis
    using e r queue_remove_member [OF links sz _ queue_links_new _ r] by simp
qed

text \<open>
  Property C34. \<open>clear\<close> terminates on every well-formed queue, leaves it empty with size 0, nulls
  the links of its nodes and touches no other node.
\<close>

theorem queue_clear_complete:
  assumes "queue_links h q xs"
  shows "\<exists>h' q'. clear_queue h q = Some (h', q') \<and> queue_links h' q' [] \<and> get_size q' = 0 \<and>
    (\<forall>x. if x \<in> set xs then next_node (h' x) = None \<and> prev_node (h' x) = None else h' x = h x)"
  using clear_nodes_chain [of h None xs] assms
  by (auto simp: queue_links_def clear_queue_def get_size_def)

theorem queue_clear_complete_witness:
  "\<exists>h q h' q'. enq_all add_last (\<lambda>_. new_link) new_queue [5, 3] = (h, q) \<and>
    clear_queue h q = Some (h', q') \<and> get_size q' = 0"
proof -
  obtain h q where e: "enq_all add_last (\<lambda>_. new_link) new_queue [5, 3] = (h, q)" by fastforce
  have links: "queue_links h q [5, 3]"
    using nq.enq_all_links [OF queue_links_new _ e] by simp
  show ?thesis using e queue_clear_complete [OF links] by blast
qed

end
