(* ===== verification/Fence_Server.thy ===== *)
theory Fence_Server
  imports Char_Buffer
begin

text \<open>
  The fencing plugin and the server's use of it (plugin_loader.h, plugin_loader.cpp,
  plugin_api.h, Server.h, Server.cpp). A plugin is a shared object of someone else: the
  dynamic linker and the plugin's functions are parameters, collected in \<open>plugin_env\<close>, and
  act on a state of any type: that of the plugin and of the libraries that are loaded.
  Addresses are numbers, a null pointer is \<open>None\<close>.
\<close>

section \<open>The plugin interface\<close>

type_synonym fn_address = nat
type_synonym context_ptr = "nat option"

record 'p plugin_env =
  dlopen :: "bytes \<Rightarrow> 'p \<Rightarrow> nat option \<times> 'p"
  dlsym :: "nat \<Rightarrow> string \<Rightarrow> fn_address option"
  dlclose :: "nat \<Rightarrow> 'p \<Rightarrow> 'p"
  call_init :: "fn_address \<Rightarrow> 'p \<Rightarrow> (bool \<times> context_ptr) \<times> 'p"
  call_destroy :: "fn_address \<Rightarrow> context_ptr \<Rightarrow> 'p \<Rightarrow> 'p"
  call_fence :: "fn_address \<Rightarrow> context_ptr \<Rightarrow> bytes \<Rightarrow> nat \<Rightarrow> 'p \<Rightarrow> bool \<times> 'p"

record function_table =
  ufh_plugin_init :: "fn_address option"
  ufh_plugin_destroy :: "fn_address option"
  ufh_fence_off :: "fn_address option"
  ufh_fence_on :: "fn_address option"
  ufh_fence_reboot :: "fn_address option"

definition new_function_table :: function_table where
  "new_function_table =
     \<lparr>ufh_plugin_init = None, ufh_plugin_destroy = None, ufh_fence_off = None,
      ufh_fence_on = None, ufh_fence_reboot = None\<rparr>"

definition SYMBOL_INIT :: string where "SYMBOL_INIT = ''ufh_plugin_init''"
definition SYMBOL_DESTROY :: string where "SYMBOL_DESTROY = ''ufh_plugin_destroy''"
definition SYMBOL_FENCE_OFF :: string where "SYMBOL_FENCE_OFF = ''ufh_fence_off''"
definition SYMBOL_FENCE_ON :: string where "SYMBOL_FENCE_ON = ''ufh_fence_on''"
definition SYMBOL_FENCE_REBOOT :: string where "SYMBOL_FENCE_REBOOT = ''ufh_fence_reboot''"

section \<open>Loading and unloading\<close>

text \<open>
  The handle, or the exception; the function table is written only on success. A library that
  lacks a symbol has been opened and is not closed.
\<close>

definition load_plugin ::
  "'p plugin_env \<Rightarrow> bytes \<Rightarrow> function_table \<Rightarrow> 'p \<Rightarrow> nat result \<times> function_table \<times> 'p" where
  "load_plugin env path functions p =
     (case dlopen env path p of
        (None, p) \<Rightarrow> (Inl (OsException DYN_LOAD_ERROR), functions, p)
      | (Some plugin_handle, p) \<Rightarrow>
          (let tmp_functions =
             \<lparr>ufh_plugin_init = dlsym env plugin_handle SYMBOL_INIT,
              ufh_plugin_destroy = dlsym env plugin_handle SYMBOL_DESTROY,
              ufh_fence_off = dlsym env plugin_handle SYMBOL_FENCE_OFF,
              ufh_fence_on = dlsym env plugin_handle SYMBOL_FENCE_ON,
              ufh_fence_reboot = dlsym env plugin_handle SYMBOL_FENCE_REBOOT\<rparr>
           in if ufh_plugin_init tmp_functions \<noteq> None \<and> ufh_plugin_destroy tmp_functions \<noteq> None \<and>
                 ufh_fence_off tmp_functions \<noteq> None \<and> ufh_fence_on tmp_functions \<noteq> None \<and>
                 ufh_fence_reboot tmp_functions \<noteq> None
              then (Inr plugin_handle, tmp_functions, p)
              else (Inl (OsException DYN_LOAD_ERROR), functions, p)))"

definition unload_plugin ::
  "'p plugin_env \<Rightarrow> nat \<Rightarrow> function_table \<Rightarrow> 'p \<Rightarrow> function_table \<times> 'p" where
  "unload_plugin env plugin_handle functions p =
     (functions\<lparr>ufh_plugin_init := None, ufh_plugin_destroy := None, ufh_fence_off := None,
        ufh_fence_on := None, ufh_fence_reboot := None\<rparr>, dlclose env plugin_handle p)"

definition table_complete :: "function_table \<Rightarrow> bool" where
  "table_complete t \<longleftrightarrow> ufh_plugin_init t \<noteq> None \<and> ufh_plugin_destroy t \<noteq> None \<and>
     ufh_fence_off t \<noteq> None \<and> ufh_fence_on t \<noteq> None \<and> ufh_fence_reboot t \<noteq> None"

lemma load_plugin_ok: "load_plugin env path t p = (Inr handle, t', p') \<Longrightarrow> table_complete t'"
  by (auto simp: load_plugin_def table_complete_def Let_def split: prod.splits option.splits if_splits)

lemma load_plugin_error:
  "load_plugin env path t p = (Inl e, t', p') \<Longrightarrow>
     t' = t \<and> e = OsException DYN_LOAD_ERROR \<and> p' = snd (dlopen env path p)"
  by (auto simp: load_plugin_def Let_def split: prod.splits option.splits if_splits)

section \<open>The server object\<close>

record fence_server =
  plugin_functions :: function_table
  plugin_context :: context_ptr

definition new_fence_server :: fence_server where
  "new_fence_server = \<lparr>plugin_functions = new_function_table, plugin_context = None\<rparr>"

text \<open>
  A call through a function pointer of the table; \<open>None\<close> is the call of a null pointer. The
  secret is a parameter of the three actions and none of them reads it. What the actions write to
  the log around the call is in Fence_Log.
\<close>

definition fence_action_off ::
  "'b char_buffer_ops \<Rightarrow> 'p plugin_env \<Rightarrow> fence_server \<Rightarrow> 'b \<Rightarrow> 'b \<Rightarrow> 'p \<Rightarrow> (bool \<times> 'p) option" where
  "fence_action_off cb env srv nodename client_secret p =
     (case ufh_fence_off (plugin_functions srv) of
        None \<Rightarrow> None
      | Some f \<Rightarrow> Some (call_fence env f (plugin_context srv) (cb_c_str cb nodename)
                        (cb_length cb nodename) p))"

definition fence_action_on ::
  "'b char_buffer_ops \<Rightarrow> 'p plugin_env \<Rightarrow> fence_server \<Rightarrow> 'b \<Rightarrow> 'b \<Rightarrow> 'p \<Rightarrow> (bool \<times> 'p) option" where
  "fence_action_on cb env srv nodename client_secret p =
     (case ufh_fence_on (plugin_functions srv) of
        None \<Rightarrow> None
      | Some f \<Rightarrow> Some (call_fence env f (plugin_context srv) (cb_c_str cb nodename)
                        (cb_length cb nodename) p))"

definition fence_action_reboot ::
  "'b char_buffer_ops \<Rightarrow> 'p plugin_env \<Rightarrow> fence_server \<Rightarrow> 'b \<Rightarrow> 'b \<Rightarrow> 'p \<Rightarrow> (bool \<times> 'p) option" where
  "fence_action_reboot cb env srv nodename client_secret p =
     (case ufh_fence_reboot (plugin_functions srv) of
        None \<Rightarrow> None
      | Some f \<Rightarrow> Some (call_fence env f (plugin_context srv) (cb_c_str cb nodename)
                        (cb_length cb nodename) p))"

section \<open>PluginMgr\<close>

record plugin_mgr =
  plugin_handle :: "nat option"
  have_plugin_init :: bool

text \<open>
  The constructor: an exception it throws leaves no object, so its destructor does not run
  and a plugin that was loaded stays loaded. The server and the plugin state after the call
  are given in every case; \<open>Undefined_Behaviour\<close> would be the call of a null init pointer.
\<close>

definition construct_plugin_mgr ::
  "'p plugin_env \<Rightarrow> bytes \<Rightarrow> fence_server \<Rightarrow> 'p \<Rightarrow>
   (cpp_exception, plugin_mgr option \<times> fence_server \<times> 'p) outcome" where
  "construct_plugin_mgr env path srv p =
     (case load_plugin env path (plugin_functions srv) p of
        (Inl e, t, p) \<Rightarrow> Raised e (None, srv\<lparr>plugin_functions := t\<rparr>, p)
      | (Inr handle, t, p) \<Rightarrow>
          (let srv = srv\<lparr>plugin_functions := t\<rparr> in
           case ufh_plugin_init t of
             None \<Rightarrow> Undefined_Behaviour
           | Some f \<Rightarrow>
               (case call_init env f p of
                  ((init_successful, context), p) \<Rightarrow>
                    if init_successful
                    then Normal (Some \<lparr>plugin_handle = Some handle, have_plugin_init = True\<rparr>,
                                 srv\<lparr>plugin_context := context\<rparr>, p)
                    else Raised PluginException (None, srv, p))))"

definition destruct_plugin_mgr ::
  "'p plugin_env \<Rightarrow> plugin_mgr \<Rightarrow> fence_server \<Rightarrow> 'p \<Rightarrow>
   (cpp_exception, fence_server \<times> 'p) outcome" where
  "destruct_plugin_mgr env mgr srv p =
     bind_outcome
       (if have_plugin_init mgr then
          (case ufh_plugin_destroy (plugin_functions srv) of
             None \<Rightarrow> Undefined_Behaviour
           | Some f \<Rightarrow> Normal (srv\<lparr>plugin_context := None\<rparr>,
                              call_destroy env f (plugin_context srv) p))
        else Normal (srv, p))
       (\<lambda>(srv, p).
          case plugin_handle mgr of
            None \<Rightarrow> Normal (srv, p)
          | Some handle \<Rightarrow>
              (case unload_plugin env handle (plugin_functions srv) p of
                 (t, p) \<Rightarrow> Normal (srv\<lparr>plugin_functions := t\<rparr>, p)))"

text \<open>A server whose plugin manager exists never calls a null pointer.\<close>

lemma construct_plugin_mgr_complete:
  "construct_plugin_mgr env path srv p = Normal (mgr, srv', p') \<Longrightarrow>
   table_complete (plugin_functions srv') \<and>
   (\<exists>handle. mgr = Some \<lparr>plugin_handle = Some handle, have_plugin_init = True\<rparr>)"
  by (auto simp: construct_plugin_mgr_def Let_def
      split: prod.splits sum.splits option.splits if_splits dest: load_plugin_ok)

lemma construct_plugin_mgr_defined: "construct_plugin_mgr env path srv p \<noteq> Undefined_Behaviour"
  by (auto simp: construct_plugin_mgr_def Let_def table_complete_def
      split: prod.splits sum.splits option.splits if_splits dest!: load_plugin_ok)

lemma fence_actions_defined:
  assumes "table_complete (plugin_functions srv)"
  shows "fence_action_off cb env srv n s p \<noteq> None" "fence_action_on cb env srv n s p \<noteq> None"
    "fence_action_reboot cb env srv n s p \<noteq> None"
  using assms
  by (auto simp: table_complete_def fence_action_off_def fence_action_on_def fence_action_reboot_def)

lemma load_plugin_table:
  assumes "load_plugin env path t p = (Inr handle, t', p')"
  obtains i d f g r where "dlopen env path p = (Some handle, p')"
    "dlsym env handle SYMBOL_INIT = Some i" "dlsym env handle SYMBOL_DESTROY = Some d"
    "dlsym env handle SYMBOL_FENCE_OFF = Some f" "dlsym env handle SYMBOL_FENCE_ON = Some g"
    "dlsym env handle SYMBOL_FENCE_REBOOT = Some r"
    "t' = \<lparr>ufh_plugin_init = Some i, ufh_plugin_destroy = Some d, ufh_fence_off = Some f,
           ufh_fence_on = Some g, ufh_fence_reboot = Some r\<rparr>"
  using assms that
  by (auto simp: load_plugin_def Let_def split: prod.splits option.splits if_splits)

lemma construct_plugin_mgr_Normal:
  assumes "construct_plugin_mgr env path srv p = Normal (mgr, srv', p')"
  obtains handle i c p1 where
    "load_plugin env path (plugin_functions srv) p = (Inr handle, plugin_functions srv', p1)"
    "mgr = Some \<lparr>plugin_handle = Some handle, have_plugin_init = True\<rparr>"
    "ufh_plugin_init (plugin_functions srv') = Some i" "call_init env i p1 = ((True, plugin_context srv'), p')"
  using assms that
  by (auto simp: construct_plugin_mgr_def Let_def
      split: prod.splits sum.splits option.splits if_splits)

section \<open>Properties\<close>

text \<open>
  Property C29. With a plugin manager constructed, the three fencing actions never call a null
  pointer: each calls the function the plugin exports under the action's symbol, with the
  context that the plugin's init returned and the node name and its length. Destroying the
  manager is defined too, and leaves no function and no context behind.
\<close>

theorem plugin_actions_call_the_plugin:
  assumes "construct_plugin_mgr env path srv p = Normal (mgr, srv', p')"
  shows "\<exists>handle p1 f g r. dlopen env path p = (Some handle, p1) \<and>
    dlsym env handle SYMBOL_FENCE_OFF = Some f \<and> dlsym env handle SYMBOL_FENCE_ON = Some g \<and>
    dlsym env handle SYMBOL_FENCE_REBOOT = Some r \<and>
    fence_action_off cb env srv' n s q =
      Some (call_fence env f (plugin_context srv') (cb_c_str cb n) (cb_length cb n) q) \<and>
    fence_action_on cb env srv' n s q =
      Some (call_fence env g (plugin_context srv') (cb_c_str cb n) (cb_length cb n) q) \<and>
    fence_action_reboot cb env srv' n s q =
      Some (call_fence env r (plugin_context srv') (cb_c_str cb n) (cb_length cb n) q) \<and>
    (\<exists>m q'. mgr = Some m \<and> destruct_plugin_mgr env m srv' q =
      Normal (\<lparr>plugin_functions = new_function_table, plugin_context = None\<rparr>, q'))"
proof -
  from assms obtain handle p1 where
    l: "load_plugin env path (plugin_functions srv) p = (Inr handle, plugin_functions srv', p1)"
    and m: "mgr = Some \<lparr>plugin_handle = Some handle, have_plugin_init = True\<rparr>"
    by (rule construct_plugin_mgr_Normal)
  from l obtain i d f g r where t: "dlopen env path p = (Some handle, p1)"
    "dlsym env handle SYMBOL_FENCE_OFF = Some f" "dlsym env handle SYMBOL_FENCE_ON = Some g"
    "dlsym env handle SYMBOL_FENCE_REBOOT = Some r"
    "plugin_functions srv' = \<lparr>ufh_plugin_init = Some i, ufh_plugin_destroy = Some d,
      ufh_fence_off = Some f, ufh_fence_on = Some g, ufh_fence_reboot = Some r\<rparr>"
    by (rule load_plugin_table)
  have "destruct_plugin_mgr env \<lparr>plugin_handle = Some handle, have_plugin_init = True\<rparr> srv' q =
      Normal (\<lparr>plugin_functions = new_function_table, plugin_context = None\<rparr>,
        dlclose env handle (call_destroy env d (plugin_context srv') q))"
    using t(5) by (simp add: destruct_plugin_mgr_def unload_plugin_def new_function_table_def)
  with t m show ?thesis
    by (simp add: fence_action_off_def fence_action_on_def fence_action_reboot_def)
qed

theorem plugin_actions_call_the_plugin_witness:
  "fence_action_on bounded_ops
     \<lparr>dlopen = (\<lambda>_ p. (Some 1, p)), dlsym = (\<lambda>_ s. Some (length s)), dlclose = (\<lambda>_ p. p),
      call_init = (\<lambda>_ p. ((True, Some 9), p)), call_destroy = (\<lambda>_ _ p. p),
      call_fence = (\<lambda>f c n l p. (True, [(f, c, n, l)]))\<rparr>
     \<lparr>plugin_functions = \<lparr>ufh_plugin_init = Some 15, ufh_plugin_destroy = Some 18,
        ufh_fence_off = Some 13, ufh_fence_on = Some 12, ufh_fence_reboot = Some 16\<rparr>,
      plugin_context = Some 9\<rparr> (255, ascii ''n1'') (64, []) [] =
   Some (True, [(12, Some 9, ascii ''n1'', 2)])"
proof -
  let ?env = "\<lparr>dlopen = (\<lambda>_ p. (Some 1, p)), dlsym = (\<lambda>_ s. Some (length s)), dlclose = (\<lambda>_ p. p),
      call_init = (\<lambda>_ p. ((True, Some 9), p)), call_destroy = (\<lambda>_ _ p. p),
      call_fence = (\<lambda>f c n l p. (True, [(f, c, n, l)]))\<rparr> ::
      (nat \<times> nat option \<times> bytes \<times> nat) list plugin_env"
  let ?srv = "\<lparr>plugin_functions = \<lparr>ufh_plugin_init = Some 15, ufh_plugin_destroy = Some 18,
        ufh_fence_off = Some 13, ufh_fence_on = Some 12, ufh_fence_reboot = Some 16\<rparr>,
      plugin_context = Some 9\<rparr>"
  have c: "construct_plugin_mgr ?env (ascii ''p.so'') new_fence_server [] =
      Normal (Some \<lparr>plugin_handle = Some 1, have_plugin_init = True\<rparr>, ?srv, [])"
    by (simp add: construct_plugin_mgr_def load_plugin_def new_fence_server_def
        SYMBOL_INIT_def SYMBOL_DESTROY_def SYMBOL_FENCE_OFF_def SYMBOL_FENCE_ON_def
        SYMBOL_FENCE_REBOOT_def)
  show ?thesis
    using plugin_actions_call_the_plugin [OF c, of bounded_ops "(255, ascii ''n1'')" "(64, [])" "[]"]
    by (auto simp: SYMBOL_FENCE_ON_def bounded_ops_def)
qed

text \<open>
  The dynamic linker counts how often each handle is open: \<open>dlopen\<close> adds one when it succeeds,
  \<open>dlclose\<close> takes one away, and nothing else changes the count.
\<close>

definition counts_handles :: "'p plugin_env \<Rightarrow> ('p \<Rightarrow> nat \<Rightarrow> nat) \<Rightarrow> bool" where
  "counts_handles env open_count \<longleftrightarrow>
     (\<forall>path p. case dlopen env path p of
        (None, p') \<Rightarrow> open_count p' = open_count p
      | (Some h, p') \<Rightarrow> open_count p' = (open_count p)(h := open_count p h + 1)) \<and>
     (\<forall>h p. open_count (dlclose env h p) = (open_count p)(h := open_count p h - 1)) \<and>
     (\<forall>f p. open_count (snd (call_init env f p)) = open_count p) \<and>
     (\<forall>f c p. open_count (call_destroy env f c p) = open_count p)"

lemma counts_handlesD:
  assumes "counts_handles env k"
  shows "dlopen env path p = (None, p') \<Longrightarrow> k p' = k p"
    and "dlopen env path p = (Some h, p') \<Longrightarrow> k p' = (k p)(h := k p h + 1)"
    and "k (dlclose env h p) = (k p)(h := k p h - 1)"
    and "call_init env f p = (r, p') \<Longrightarrow> k p' = k p"
    and "k (call_destroy env f c p) = k p"
proof -
  show "k p' = k p" if "dlopen env path p = (None, p')"
    using assms that unfolding counts_handles_def by (metis (mono_tags, lifting) option.case(1) case_prod_conv)
  show "k p' = (k p)(h := k p h + 1)" if "dlopen env path p = (Some h, p')"
    using assms that unfolding counts_handles_def by (metis (mono_tags, lifting) option.case(2) case_prod_conv)
qed (use assms in \<open>auto simp: counts_handles_def dest!: spec [of _ f] spec [of _ p]\<close>)

text \<open>The destructor closes what the constructor opened.\<close>

lemma destruct_plugin_mgr_closes:
  assumes "counts_handles env k" and "destruct_plugin_mgr env \<lparr>plugin_handle = Some h, have_plugin_init = i\<rparr> srv q =
      Normal (srv', q')"
  shows "k q' = (k q)(h := k q h - 1)"
  using assms(2) counts_handlesD(3,5) [OF assms(1)]
  by (auto simp: destruct_plugin_mgr_def unload_plugin_def split: if_splits option.splits)

lemma made_manager_unloads:
  assumes linker: "counts_handles env open_count"
    and made: "construct_plugin_mgr env path srv p = Normal (mgr, srv', p')"
  shows "\<exists>h m. fst (dlopen env path p) = Some h \<and> mgr = Some m \<and>
    table_complete (plugin_functions srv') \<and>
    open_count p' = (open_count p)(h := open_count p h + 1) \<and>
    (\<forall>q. open_count q = open_count p' \<longrightarrow>
       (\<exists>srv2 q'. destruct_plugin_mgr env m srv' q = Normal (srv2, q') \<and>
          plugin_functions srv2 = new_function_table \<and> open_count q' = open_count p))"
proof -
  from made obtain h i p1 where l: "load_plugin env path (plugin_functions srv) p = (Inr h, plugin_functions srv', p1)"
    and m: "mgr = Some \<lparr>plugin_handle = Some h, have_plugin_init = True\<rparr>"
    and i: "call_init env i p1 = ((True, plugin_context srv'), p')"
    by (rule construct_plugin_mgr_Normal)
  from l have o: "dlopen env path p = (Some h, p1)" by (rule load_plugin_table)
  have k: "open_count p' = (open_count p)(h := open_count p h + 1)"
    using counts_handlesD(4) [OF linker i] counts_handlesD(2) [OF linker o] by simp
  have complete: "table_complete (plugin_functions srv')" by (rule load_plugin_ok [OF l])
  then obtain d where d: "ufh_plugin_destroy (plugin_functions srv') = Some d" by (auto simp: table_complete_def)
  have "\<exists>srv2 q'. destruct_plugin_mgr env \<lparr>plugin_handle = Some h, have_plugin_init = True\<rparr> srv' q = Normal (srv2, q') \<and>
      plugin_functions srv2 = new_function_table \<and> open_count q' = open_count p"
    if q: "open_count q = open_count p'" for q
  proof -
    have des: "destruct_plugin_mgr env \<lparr>plugin_handle = Some h, have_plugin_init = True\<rparr> srv' q =
        Normal (\<lparr>plugin_functions = new_function_table, plugin_context = None\<rparr>,
          dlclose env h (call_destroy env d (plugin_context srv') q))"
      using d by (simp add: destruct_plugin_mgr_def unload_plugin_def new_function_table_def)
    from destruct_plugin_mgr_closes [OF linker this] q k des show ?thesis by simp
  qed
  with m o k complete show ?thesis by auto
qed

lemma failed_manager_leaves:
  assumes linker: "counts_handles env open_count"
    and failed: "construct_plugin_mgr env path srv p = Raised e (mgr, srv', p')"
  shows "mgr = None \<and>
    (case fst (dlopen env path p) of
       None \<Rightarrow> e = OsException DYN_LOAD_ERROR \<and> srv' = srv \<and> open_count p' = open_count p
     | Some h \<Rightarrow> open_count p' = (open_count p)(h := open_count p h + 1) \<and>
         (if \<exists>sym \<in> {SYMBOL_INIT, SYMBOL_DESTROY, SYMBOL_FENCE_OFF, SYMBOL_FENCE_ON, SYMBOL_FENCE_REBOOT}.
               dlsym env h sym = None
          then e = OsException DYN_LOAD_ERROR \<and> srv' = srv
          else e = PluginException \<and> table_complete (plugin_functions srv')))"
proof -
  obtain oh p1 where o: "dlopen env path p = (oh, p1)" by fastforce
  show ?thesis
  proof (cases oh)
    case None
    with o counts_handlesD(1) [OF linker] failed show ?thesis
      by (auto simp: construct_plugin_mgr_def load_plugin_def)
  next
    case (Some h)
    note k = counts_handlesD(2) [OF linker o [unfolded Some]] counts_handlesD(4) [OF linker]
    show ?thesis
      using failed o k unfolding Some
      by (auto simp: construct_plugin_mgr_def load_plugin_def table_complete_def Let_def
          split: if_splits prod.splits option.splits)
  qed
qed

text \<open>
  Property C30. What becomes of the plugin when the manager is made, for every library. If the
  constructor returns, the table is complete, init has succeeded, the library is open once more
  than before, and the destructor, whatever happened in between, closes it: the count that
  remains is the one before. If it throws, no object is left to close the library: when there
  is no such file nothing has happened (\<open>DYN_LOAD_ERROR\<close>); when a symbol is missing the server's
  table is as it was, with the same error, but the library stays open; when init fails
  (\<open>PluginException\<close>) it stays open too, and its functions stay in the table. No outcome is
  undefined.
\<close>

theorem plugin_loading_outcomes:
  assumes linker: "counts_handles env open_count"
  shows "case construct_plugin_mgr env path srv p of
     Normal (mgr, srv', p') \<Rightarrow> \<exists>h m. fst (dlopen env path p) = Some h \<and> mgr = Some m \<and>
       table_complete (plugin_functions srv') \<and>
       open_count p' = (open_count p)(h := open_count p h + 1) \<and>
       (\<forall>q. open_count q = open_count p' \<longrightarrow>
          (\<exists>srv2 q'. destruct_plugin_mgr env m srv' q = Normal (srv2, q') \<and>
             plugin_functions srv2 = new_function_table \<and> open_count q' = open_count p))
   | Raised e (mgr, srv', p') \<Rightarrow> mgr = None \<and>
       (case fst (dlopen env path p) of
          None \<Rightarrow> e = OsException DYN_LOAD_ERROR \<and> srv' = srv \<and> open_count p' = open_count p
        | Some h \<Rightarrow> open_count p' = (open_count p)(h := open_count p h + 1) \<and>
            (if \<exists>sym \<in> {SYMBOL_INIT, SYMBOL_DESTROY, SYMBOL_FENCE_OFF, SYMBOL_FENCE_ON, SYMBOL_FENCE_REBOOT}.
                  dlsym env h sym = None
             then e = OsException DYN_LOAD_ERROR \<and> srv' = srv
             else e = PluginException \<and> table_complete (plugin_functions srv')))
   | Undefined_Behaviour \<Rightarrow> False"
proof (cases "construct_plugin_mgr env path srv p")
  case (Normal r)
  then show ?thesis using made_manager_unloads [OF linker] by (cases r) simp
next
  case (Raised e r)
  then show ?thesis using failed_manager_leaves [OF linker] by (cases r) simp
next
  case Undefined_Behaviour
  with construct_plugin_mgr_defined show ?thesis by metis
qed

text \<open>A library without \<open>ufh_fence_on\<close>: the handle 1 stays open.\<close>

theorem plugin_loading_outcomes_witness:
  "\<exists>p'. construct_plugin_mgr \<lparr>dlopen = (\<lambda>_ k. (Some 1, k(1 := k 1 + 1))),
      dlsym = (\<lambda>_ s. if s = SYMBOL_FENCE_ON then None else Some (length s)),
      dlclose = (\<lambda>h k. k(h := k h - 1)), call_init = (\<lambda>_ k. ((True, None), k)),
      call_destroy = (\<lambda>_ _ k. k), call_fence = (\<lambda>_ _ _ _ k. (True, k))\<rparr> (ascii ''p.so'') new_fence_server (\<lambda>_. 0) =
      Raised (OsException DYN_LOAD_ERROR) (None, new_fence_server, p') \<and> p' 1 = (1 :: nat)"
proof -
  let ?env = "\<lparr>dlopen = (\<lambda>_ k. (Some 1, k(1 := k 1 + 1))),
      dlsym = (\<lambda>_ s. if s = SYMBOL_FENCE_ON then None else Some (length s)),
      dlclose = (\<lambda>h k. k(h := k h - 1)), call_init = (\<lambda>_ k. ((True, None), k)),
      call_destroy = (\<lambda>_ _ k. k), call_fence = (\<lambda>_ _ _ _ k. (True, k))\<rparr> :: (nat \<Rightarrow> nat) plugin_env"
  have k: "counts_handles ?env (\<lambda>k. k)" by (simp add: counts_handles_def)
  obtain p' where "construct_plugin_mgr ?env (ascii ''p.so'') new_fence_server (\<lambda>_. 0) =
      Raised (OsException DYN_LOAD_ERROR) (None, new_fence_server, p')"
    by (simp add: construct_plugin_mgr_def load_plugin_def)
  with plugin_loading_outcomes [OF k, where path = "ascii ''p.so''" and srv = new_fence_server and p = "\<lambda>_. 0"] show ?thesis by auto
qed

end
