(* ===== verification/System_Calls.thy ===== *)
theory System_Calls
  imports Exceptions
begin

text \<open>
  The operating system as the program sees it (namespace \<open>sys\<close> of Shared.h and Shared.cpp,
  and the system calls the connectors make): descriptors, descriptor sets, and the possible
  results of \<open>close\<close>, \<open>recv\<close>, \<open>send\<close> and \<open>write\<close>. What a call returns is an input of the
  model; its effects on the program's memory are written out where it is called.
\<close>

section \<open>Descriptors\<close>

definition FD_NONE :: int where [bounds_simps]: "FD_NONE = -1"

datatype close_result = CLOSED | CLOSE_EINTR | CLOSE_FAILED

text \<open>The loop of \<open>sys::close_fd\<close>: the number of calls, \<open>None\<close> if the results run out first.\<close>

fun close_loop :: "close_result list \<Rightarrow> nat option" where
  "close_loop [] = None"
| "close_loop (CLOSE_EINTR # rs) = map_option Suc (close_loop rs)"
| "close_loop (r # rs) = Some 1"

definition close_fd_calls :: "close_result list \<Rightarrow> int \<Rightarrow> (int \<times> nat) option" where
  "close_fd_calls rs fd =
     (if fd \<ge> 0 then map_option (\<lambda>calls. (FD_NONE, calls)) (close_loop rs) else Some (fd, 0))"

text \<open>
  Its effect once it returns: the descriptor variable, and the list of descriptors that the
  program has closed.
\<close>

definition close_fd :: "int \<Rightarrow> int list \<Rightarrow> int \<times> int list" where
  "close_fd fd closed = (if fd \<ge> 0 then (FD_NONE, closed @ [fd]) else (fd, closed))"

lemma close_loop_returns:
  "r \<noteq> CLOSE_EINTR \<Longrightarrow> close_loop (replicate n CLOSE_EINTR @ r # rs) = Some (Suc n)"
  by (induction n; cases r) simp_all

lemma close_fd_calls_effect:
  "close_fd_calls rs fd = Some (fd', calls) \<Longrightarrow> fd' = fst (close_fd fd closed)"
  by (auto simp: close_fd_calls_def close_fd_def split: if_splits)

lemma close_fd_negative: "fst (close_fd fd closed) < 0"
  by (simp add: close_fd_def FD_NONE_def)

lemma close_fd_twice:
  "close_fd fd closed = (fd', closed') \<Longrightarrow> close_fd fd' closed' = (fd', closed')"
  by (auto simp: close_fd_def FD_NONE_def split: if_splits)

section \<open>Descriptor sets\<close>

text \<open>
  \<open>fd_set\<close> is an array of \<open>FD_SETSIZE\<close> bits; \<open>FD_SET\<close> and \<open>FD_ISSET\<close> of any other number
  reach outside it, which is undefined behaviour (\<open>None\<close>).
\<close>

type_synonym fd_set = "int set"

definition FD_SETSIZE :: int where [bounds_simps]: "FD_SETSIZE = 1024"

definition valid_select_fd :: "int \<Rightarrow> bool" where
  "valid_select_fd fd \<longleftrightarrow> 0 \<le> fd \<and> fd < FD_SETSIZE"

definition FD_SET :: "int \<Rightarrow> fd_set \<Rightarrow> fd_set option" where
  "FD_SET fd S = (if valid_select_fd fd then Some (insert fd S) else None)"

definition FD_ISSET :: "int \<Rightarrow> fd_set \<Rightarrow> bool option" where
  "FD_ISSET fd S = (if valid_select_fd fd then Some (fd \<in> S) else None)"

section \<open>Results of transfers\<close>

text \<open>
  \<open>recv\<close>: a positive count with the bytes received, 0 at the end of the stream, or -1.
  \<open>send\<close>: a count, or -1 with \<open>errno\<close> EAGAIN/EWOULDBLOCK or another error.
\<close>

datatype recv_result = Received bytes | EndOfStream | RecvFailed

datatype send_result = Sent nat | SendWouldBlock | SendFailed

text \<open>POSIX: a call transfers at most what was asked for.\<close>

definition recv_allowed :: "nat \<Rightarrow> recv_result \<Rightarrow> bool" where
  "recv_allowed n r = (case r of Received bs \<Rightarrow> bs \<noteq> [] \<and> length bs \<le> n | _ \<Rightarrow> True)"

definition send_allowed :: "nat \<Rightarrow> send_result \<Rightarrow> bool" where
  "send_allowed n r = (case r of Sent k \<Rightarrow> k \<le> n | _ \<Rightarrow> True)"

end
