(* ===== verification/Net_Client.thy ===== *)
theory Net_Client
  imports Protocol_Fields Node_Queue Fence_Server System_Calls
begin

text \<open>
  One client connection of the server: the class \<open>ServerConnector::NetClient\<close>
  (ServerConnector.h, ServerConnector.cpp) and the handling of its requests,
  \<open>process_client_message\<close> and \<open>fence_action\<close>. A client extends \<open>link\<close>, as the class extends
  \<open>Queue<NetClient>::Node\<close>.
\<close>

section \<open>The object\<close>

definition IO_BUFFER_SIZE :: nat where [bounds_simps]: "IO_BUFFER_SIZE = 1024"
definition FIELD_SIZE :: nat where [bounds_simps]: "FIELD_SIZE = 1024"
definition NODENAME_SIZE :: nat where [bounds_simps]: "NODENAME_SIZE = 255"

datatype IoOp = NOOP | READ | WRITE

datatype Phase = RECV | SEND | PENDING | EXECUTING | CANCELED

text \<open>\<open>AF_INET6\<close> and \<open>AF_INET\<close>; the sizes of their socket addresses.\<close>

datatype domain = AF_INET6 | AF_INET

definition sizeof_sockaddr :: "domain \<Rightarrow> nat" where
  "sizeof_sockaddr d = (case d of AF_INET6 \<Rightarrow> 28 | AF_INET \<Rightarrow> 16)"

record 'b net_client = link +
  key_buffer :: 'b
  value_buffer :: 'b
  nodename :: 'b
  secret :: 'b
  address :: bytes
  address_length :: nat
  socket_domain :: domain
  socket_fd :: int
  current_phase :: Phase
  next_phase :: Phase
  io_state :: IoOp
  header :: msg_header
  have_header :: bool
  io_offset :: nat
  io_buffer :: bytes

text \<open>
  The constructor with the member initialisers. The new array behind \<open>io_buffer\<close> is not
  initialised in C++; its contents are a parameter.
\<close>

definition new_net_client :: "'b char_buffer_ops \<Rightarrow> bytes \<Rightarrow> 'b net_client" where
  "new_net_client cb garbage =
     \<lparr>next_node = None, prev_node = None,
      key_buffer = cb_new cb FIELD_SIZE, value_buffer = cb_new cb FIELD_SIZE,
      nodename = cb_new cb NODENAME_SIZE, secret = cb_new cb MAX_SECRET_LENGTH,
      address = [], address_length = 0, socket_domain = AF_INET6, socket_fd = FD_NONE,
      current_phase = RECV, next_phase = PENDING, io_state = NOOP, header = new_msg_header,
      have_header = False, io_offset = 0, io_buffer = garbage\<rparr>"

definition clear_io_buffer :: "('b, 'x) net_client_scheme \<Rightarrow> ('b, 'x) net_client_scheme" where
  "clear_io_buffer cl =
     cl\<lparr>io_offset := 0, have_header := False,
        io_buffer := zero_memory (io_buffer cl) IO_BUFFER_SIZE\<rparr>"

lemma clear_io_buffer_sel [simp]:
  "io_offset (clear_io_buffer cl) = 0" "have_header (clear_io_buffer cl) = False"
  "key_buffer (clear_io_buffer cl) = key_buffer cl"
  "value_buffer (clear_io_buffer cl) = value_buffer cl"
  "nodename (clear_io_buffer cl) = nodename cl" "secret (clear_io_buffer cl) = secret cl"
  "address (clear_io_buffer cl) = address cl" "address_length (clear_io_buffer cl) = address_length cl"
  "socket_domain (clear_io_buffer cl) = socket_domain cl" "socket_fd (clear_io_buffer cl) = socket_fd cl"
  "current_phase (clear_io_buffer cl) = current_phase cl"
  "next_phase (clear_io_buffer cl) = next_phase cl" "io_state (clear_io_buffer cl) = io_state cl"
  "header (clear_io_buffer cl) = header cl" "next_node (clear_io_buffer cl) = next_node cl"
  "prev_node (clear_io_buffer cl) = prev_node cl"
  "io_buffer (clear_io_buffer cl) = zero_memory (io_buffer cl) IO_BUFFER_SIZE"
  by (simp_all add: clear_io_buffer_def)

definition clear_client ::
  "'b char_buffer_ops \<Rightarrow> ('b, 'x) net_client_scheme \<Rightarrow> ('b, 'x) net_client_scheme" where
  "clear_client cb cl =
     clear_io_buffer
       (cl\<lparr>address := zero_memory (address cl) (address_length cl),
           socket_fd := FD_NONE, current_phase := RECV, next_phase := PENDING, io_state := NOOP,
           header := clear_header (header cl),
           nodename := cb_wipe cb (nodename cl), secret := cb_wipe cb (secret cl),
           key_buffer := cb_wipe cb (key_buffer cl),
           value_buffer := cb_wipe cb (value_buffer cl)\<rparr>)"

text \<open>\<open>clients_init_ipv4\<close> and \<open>clients_init_ipv6\<close> for one object of the pool.\<close>

definition init_client_address :: "domain \<Rightarrow> bytes \<Rightarrow> 'b net_client \<Rightarrow> 'b net_client" where
  "init_client_address d garbage cl =
     cl\<lparr>socket_domain := d, address := take (sizeof_sockaddr d) garbage,
        address_length := sizeof_sockaddr d\<rparr>"

section \<open>Fencing requests\<close>

text \<open>
  One round of the loop of \<open>fence_action\<close>: read a field, split it, and store the value if the
  key is one of the two known ones. The readers throw \<open>ProtocolException\<close>, the assignments of
  a value that is too long \<open>RangeException\<close>.
\<close>

definition fence_field ::
  "'b char_buffer_ops \<Rightarrow> 'b net_client \<Rightarrow> nat \<Rightarrow> (cpp_exception, 'b net_client \<times> nat) outcome" where
  "fence_field cb cl field_offset =
     (case read_field cb (io_buffer cl) (io_offset cl) field_offset (key_buffer cl) of
        (Inl e, off, key) \<Rightarrow> Raised e (cl\<lparr>key_buffer := key\<rparr>, off)
      | (Inr b, off, key) \<Rightarrow>
          (case split_key_value_pair cb key (value_buffer cl) of
             (Inl e, key, val) \<Rightarrow> Raised e (cl\<lparr>key_buffer := key, value_buffer := val\<rparr>, off)
           | (Inr u, key, val) \<Rightarrow>
               (let cl = cl\<lparr>key_buffer := key, value_buffer := val\<rparr> in
                if cb_equals_c_str cb key NODENAME then
                  (case cb_assign cb (nodename cl) val of
                     None \<Rightarrow> Raised RangeException (cl, off)
                   | Some n \<Rightarrow> Normal (cl\<lparr>nodename := n\<rparr>, off))
                else if cb_equals_c_str cb key SECRET then
                  (case cb_assign cb (secret cl) val of
                     None \<Rightarrow> Raised RangeException (cl, off)
                   | Some s \<Rightarrow> Normal (cl\<lparr>secret := s\<rparr>, off))
                else Normal (cl, off))))"

lemma fence_field_advance:
  assumes "fence_field cb cl off = Normal (cl', off')"
  shows "io_offset cl' = io_offset cl \<and> off + 2 \<le> off' \<and> off' \<le> io_offset cl"
proof -
  obtain r off1 key where rd: "read_field cb (io_buffer cl) (io_offset cl) off (key_buffer cl) = (r, off1, key)"
    by (metis prod_cases3)
  with assms obtain b where r: "r = Inr b" by (cases r) (auto simp: fence_field_def)
  with rd assms have "off' = off1" "io_offset cl' = io_offset cl"
    by (auto simp: fence_field_def Let_def split: prod.splits sum.splits if_splits option.splits)
  with read_field_advance [OF rd [unfolded r]] show ?thesis by simp
qed

function fence_fields ::
  "'b char_buffer_ops \<Rightarrow> 'b net_client \<Rightarrow> nat \<Rightarrow> (cpp_exception, 'b net_client) outcome" where
  "fence_fields cb cl field_offset =
     (if field_offset < io_offset cl then
        (case fence_field cb cl field_offset of
           Normal (cl, field_offset) \<Rightarrow> fence_fields cb cl field_offset
         | Raised e (cl, field_offset) \<Rightarrow> Raised e cl
         | Undefined_Behaviour \<Rightarrow> Undefined_Behaviour)
      else Normal cl)"
  by pat_completeness auto
termination
  by (relation "measure (\<lambda>(cb, cl, off). io_offset cl - off)")
    (auto dest!: fence_field_advance intro: diff_less_mono2)

declare fence_fields.simps [simp del]

lemma fence_fields_done: "io_offset cl \<le> off \<Longrightarrow> fence_fields cb cl off = Normal cl"
  by (simp add: fence_fields.simps)

lemma fence_fields_step:
  "off < io_offset cl \<Longrightarrow> fence_field cb cl off = Normal (cl', off') \<Longrightarrow>
   fence_fields cb cl off = fence_fields cb cl' off'"
  by (simp add: fence_fields.simps [of cb cl off])

lemma fence_fields_raise:
  "off < io_offset cl \<Longrightarrow> fence_field cb cl off = Raised e (cl', off') \<Longrightarrow>
   fence_fields cb cl off = Raised e cl'"
  by (simp add: fence_fields.simps [of cb cl off])

type_synonym ('b, 'p) fence_method = "'b \<Rightarrow> 'b \<Rightarrow> 'p \<Rightarrow> (bool \<times> 'p) option"

definition fence_reply :: "bool \<Rightarrow> 'b net_client \<Rightarrow> 'b net_client" where
  "fence_reply success_flag cl =
     cl\<lparr>header := (header cl)\<lparr>msg_type := msg_type_code (if success_flag then FENCE_SUCCESS else FENCE_FAIL),
                              data_length := of_nat HEADER_SIZE\<rparr>,
        current_phase := SEND, next_phase := CANCELED, io_state := WRITE\<rparr>"

definition fence_action ::
  "'b char_buffer_ops \<Rightarrow> ('b, 'p) fence_method \<Rightarrow> 'b net_client \<Rightarrow> 'p \<Rightarrow>
   (cpp_exception, 'b net_client \<times> 'p) outcome" where
  "fence_action cb fence cl p =
     (case fence_fields cb cl HEADER_SIZE of
        Undefined_Behaviour \<Rightarrow> Undefined_Behaviour
      | Raised e cl \<Rightarrow>
          if e = ProtocolException
          then Normal (cl\<lparr>current_phase := CANCELED, io_state := NOOP\<rparr>, p)
          else Raised e (cl, p)
      | Normal cl \<Rightarrow>
          (let cl = clear_io_buffer cl;
               cl = cl\<lparr>header := clear_header (header cl)\<rparr>
           in if cb_length cb (nodename cl) > 0 then
                (case fence (nodename cl) (secret cl) p of
                   None \<Rightarrow> Undefined_Behaviour
                 | Some (success_flag, p) \<Rightarrow> Normal (fence_reply success_flag cl, p))
              else Normal (cl, p)))"

section \<open>Requests\<close>

definition echo_reply :: "'b net_client \<Rightarrow> 'b net_client" where
  "echo_reply cl =
     (let cl = clear_io_buffer cl
      in cl\<lparr>header := (header cl)\<lparr>msg_type := msg_type_code ECHO_REPLY,
                                  data_length := of_nat HEADER_SIZE\<rparr>,
            current_phase := SEND, next_phase := RECV, io_state := WRITE\<rparr>)"

definition process_client_message ::
  "'b char_buffer_ops \<Rightarrow> 'p plugin_env \<Rightarrow> fence_server \<Rightarrow> 'b net_client \<Rightarrow> 'p \<Rightarrow>
   (cpp_exception, 'b net_client \<times> 'p) outcome" where
  "process_client_message cb env srv cl p =
     (case switch_msg_type (msg_type (header cl)) of
        Some ECHO_REQUEST \<Rightarrow> Normal (echo_reply cl, p)
      | Some VERSION_REQUEST \<Rightarrow> Normal (cl, p)
      | Some FENCE_OFF \<Rightarrow> fence_action cb (fence_action_off cb env srv) cl p
      | Some FENCE_ON \<Rightarrow> fence_action cb (fence_action_on cb env srv) cl p
      | Some FENCE_REBOOT \<Rightarrow> fence_action cb (fence_action_reboot cb env srv) cl p
      | _ \<Rightarrow> Normal (cl\<lparr>current_phase := CANCELED\<rparr>, p))"

end
