(* ===== verification/Gen_Alloc.thy ===== *)
theory Gen_Alloc
  imports Exceptions
begin

text \<open>
  The object pool (GenAlloc.h): a fixed array of objects and a stack of pointers to the free
  ones. The address of \<open>pool[i]\<close> is modelled as \<open>i\<close>. The mutex serialises the operations,
  so each is one step on the pool.
\<close>

section \<open>The pool and its operations\<close>

record gen_alloc =
  pool_size :: nat
  free_list :: "nat list"
  alloc_index :: nat

definition new_alloc :: "nat \<Rightarrow> gen_alloc" where
  "new_alloc n = \<lparr>pool_size = n, free_list = map (\<lambda>idx. idx) [0..<n], alloc_index = n\<rparr>"

definition get_pool_size :: "gen_alloc \<Rightarrow> nat" where
  "get_pool_size a = pool_size a"

definition get_free_count :: "gen_alloc \<Rightarrow> nat" where
  "get_free_count a = alloc_index a"

definition get_allocated_count :: "gen_alloc \<Rightarrow> nat" where
  "get_allocated_count a = size_sub (pool_size a) (alloc_index a)"

definition allocate :: "gen_alloc \<Rightarrow> nat result \<times> gen_alloc" where
  "allocate a =
     (if alloc_index a > 0 then
        (let a = a\<lparr>alloc_index := alloc_index a - 1\<rparr>
         in (Inr (free_list a ! alloc_index a), a))
      else (Inl BadAlloc, a))"

definition deallocate :: "gen_alloc \<Rightarrow> nat \<Rightarrow> gen_alloc" where
  "deallocate a obj =
     (if alloc_index a < pool_size a then
        a\<lparr>free_list := (free_list a)[alloc_index a := obj], alloc_index := alloc_index a + 1\<rparr>
      else a)"

definition object_at_index :: "gen_alloc \<Rightarrow> nat \<Rightarrow> nat option" where
  "object_at_index a idx = (if idx < pool_size a then Some idx else None)"

text \<open>
  A \<open>scope_ptr\<close> owns an object until it is released or leaves its scope; \<open>Dealloc\<close> returns
  an owned object to the pool.
\<close>

definition allocate_scope :: "gen_alloc \<Rightarrow> nat option result \<times> gen_alloc" where
  "allocate_scope a =
     (case allocate a of (Inl e, a) \<Rightarrow> (Inl e, a) | (Inr obj, a) \<Rightarrow> (Inr (Some obj), a))"

definition make_scope_ptr :: "nat \<Rightarrow> nat option" where
  "make_scope_ptr obj = Some obj"

definition release_scope_ptr :: "nat option \<Rightarrow> nat option \<times> nat option" where
  "release_scope_ptr p = (p, None)"

definition end_scope :: "gen_alloc \<Rightarrow> nat option \<Rightarrow> gen_alloc" where
  "end_scope a p = (case p of None \<Rightarrow> a | Some obj \<Rightarrow> deallocate a obj)"

text \<open>
  Moving a pool: the new object takes the arrays and the counters, the old one keeps the
  counters and has null pointers for the arrays (an empty list here). Assigning an object to
  itself does nothing; otherwise what the target had is gone.
\<close>

definition move_alloc :: "gen_alloc \<Rightarrow> gen_alloc \<times> gen_alloc" where
  "move_alloc orig = (orig, orig\<lparr>free_list := []\<rparr>)"

definition move_assign_alloc :: "bool \<Rightarrow> gen_alloc \<Rightarrow> gen_alloc \<Rightarrow> gen_alloc \<times> gen_alloc" where
  "move_assign_alloc same_object this orig = (if \<not> same_object then move_alloc orig else (this, orig))"

definition allocate_reads_list :: "gen_alloc \<Rightarrow> bool" where
  "allocate_reads_list a \<longleftrightarrow> (alloc_index a > 0 \<longrightarrow> alloc_index a - 1 < length (free_list a))"

section \<open>Free and used objects\<close>

definition free_objects :: "gen_alloc \<Rightarrow> nat set" where
  "free_objects a = set (take (alloc_index a) (free_list a))"

definition used_objects :: "gen_alloc \<Rightarrow> nat set" where
  "used_objects a = {..<pool_size a} - free_objects a"

definition alloc_inv :: "gen_alloc \<Rightarrow> bool" where
  "alloc_inv a \<longleftrightarrow> length (free_list a) = pool_size a \<and> alloc_index a \<le> pool_size a \<and>
     distinct (take (alloc_index a) (free_list a)) \<and> free_objects a \<subseteq> {..<pool_size a}"

lemma new_alloc_inv: "alloc_inv (new_alloc n)"
  by (auto simp: alloc_inv_def new_alloc_def free_objects_def)

lemma new_alloc_used: "used_objects (new_alloc n) = {}" "free_objects (new_alloc n) = {..<n}"
  by (auto simp: used_objects_def new_alloc_def free_objects_def)

text \<open>
  A pool in use stays within its free list; the object it is moved from does not, since its
  counters still say that it has free objects.
\<close>

lemma allocate_within_list: "alloc_inv a \<Longrightarrow> allocate_reads_list a"
  by (auto simp: alloc_inv_def allocate_reads_list_def)

lemma moved_from_alloc_unusable:
  assumes "alloc_index a > 0" and "move_alloc a = (b, a')"
  shows "b = a \<and> get_free_count a' = get_free_count a \<and> \<not> allocate_reads_list a'"
  using assms by (auto simp: move_alloc_def get_free_count_def allocate_reads_list_def)

lemma card_free_objects: "alloc_inv a \<Longrightarrow> card (free_objects a) = alloc_index a"
  by (simp add: alloc_inv_def free_objects_def distinct_card)

lemma card_used_objects: "alloc_inv a \<Longrightarrow> card (used_objects a) = get_allocated_count a"
  using card_free_objects [of a]
  by (simp add: used_objects_def alloc_inv_def get_allocated_count_def card_Diff_subset
      free_objects_def)

lemma allocate_fails_iff: "fst (allocate a) = Inl e \<longleftrightarrow> e = BadAlloc \<and> alloc_index a = 0"
  by (auto simp: allocate_def Let_def)

lemma allocate_ok:
  assumes inv: "alloc_inv a" and eq: "allocate a = (Inr obj, a')"
  shows "alloc_inv a' \<and> obj \<in> free_objects a \<and> free_objects a' = free_objects a - {obj} \<and>
    used_objects a' = insert obj (used_objects a) \<and> pool_size a' = pool_size a"
proof -
  from eq have i: "0 < alloc_index a" and a': "a' = a\<lparr>alloc_index := alloc_index a - 1\<rparr>"
    and obj: "obj = free_list a ! (alloc_index a - 1)"
    by (auto simp: allocate_def Let_def split: if_splits)
  let ?k = "alloc_index a - 1"
  have k: "?k < length (free_list a)" using inv i by (auto simp: alloc_inv_def)
  have tk: "take (alloc_index a) (free_list a) = take ?k (free_list a) @ [obj]"
    using take_Suc_conv_app_nth [OF k] i obj by simp
  then have free: "free_objects a = insert obj (free_objects a')" "obj \<notin> free_objects a'"
    using inv by (auto simp: free_objects_def alloc_inv_def a')
  have "obj < pool_size a" using inv free(1) by (auto simp: alloc_inv_def)
  with free inv tk show ?thesis
    by (auto simp: alloc_inv_def used_objects_def a')
qed

lemma allocate_error:
  assumes "allocate a = (Inl e, a')"
  shows "a' = a \<and> e = BadAlloc \<and> (alloc_inv a \<longrightarrow> used_objects a = {..<pool_size a})"
  using assms by (auto simp: allocate_def Let_def used_objects_def free_objects_def split: if_splits)

lemma deallocate_ok:
  assumes inv: "alloc_inv a" and obj: "obj \<in> used_objects a"
  shows "alloc_inv (deallocate a obj) \<and> free_objects (deallocate a obj) = insert obj (free_objects a) \<and>
    used_objects (deallocate a obj) = used_objects a - {obj}"
proof -
  have "alloc_index a < pool_size a"
  proof (rule ccontr)
    assume "\<not> ?thesis"
    then have "alloc_index a = pool_size a" using inv by (simp add: alloc_inv_def)
    then have "card (free_objects a) = card {..<pool_size a}"
      using card_free_objects [OF inv] by simp
    then have "free_objects a = {..<pool_size a}"
      using inv by (intro card_subset_eq) (auto simp: alloc_inv_def)
    with obj show False by (simp add: used_objects_def)
  qed
  with inv have i: "alloc_index a < length (free_list a)" and
    d: "deallocate a obj =
      a\<lparr>free_list := (free_list a)[alloc_index a := obj], alloc_index := alloc_index a + 1\<rparr>"
    by (auto simp: alloc_inv_def deallocate_def)
  have tk: "take (alloc_index a + 1) ((free_list a)[alloc_index a := obj]) =
      take (alloc_index a) (free_list a) @ [obj]"
    using i by (simp add: take_Suc_conv_app_nth)
  then have free: "free_objects (deallocate a obj) = insert obj (free_objects a)"
    by (simp add: free_objects_def d)
  moreover have "alloc_inv (deallocate a obj)"
    using inv obj i tk free
    by (auto simp: alloc_inv_def d used_objects_def free_objects_def)
  ultimately show ?thesis by (auto simp: used_objects_def d)
qed

lemma deallocate_pool_size [simp]: "pool_size (deallocate a obj) = pool_size a"
  by (simp add: deallocate_def)

lemma deallocate_full: "alloc_index a = pool_size a \<Longrightarrow> deallocate a obj = a"
  by (simp add: deallocate_def)

text \<open>The next allocation after a deallocation hands out the returned object.\<close>

lemma allocate_deallocate:
  "alloc_inv a \<Longrightarrow> alloc_index a < pool_size a \<Longrightarrow> fst (allocate (deallocate a obj)) = Inr obj"
  by (simp add: allocate_def deallocate_def alloc_inv_def Let_def)

lemma object_at_index_all: "object_at_index a i \<noteq> None \<longleftrightarrow> i < get_pool_size a"
  by (simp add: object_at_index_def get_pool_size_def)

section \<open>The contract of an object pool\<close>

locale object_pool =
  fixes inv :: "'a \<Rightarrow> bool"
    and used :: "'a \<Rightarrow> nat set"
    and capacity :: "'a \<Rightarrow> nat"
    and get :: "'a \<Rightarrow> 'e + nat" and after_get :: "'a \<Rightarrow> 'a"
    and give :: "'a \<Rightarrow> nat \<Rightarrow> 'a"
  assumes used_bound: "inv a \<Longrightarrow> used a \<subseteq> {..<capacity a}"
    and get_ok: "inv a \<Longrightarrow> get a = Inr obj \<Longrightarrow> inv (after_get a) \<and> obj \<notin> used a \<and>
          used (after_get a) = insert obj (used a) \<and> capacity (after_get a) = capacity a"
    and get_error: "inv a \<Longrightarrow> get a = Inl e \<Longrightarrow> after_get a = a \<and> used a = {..<capacity a}"
    and give_ok: "inv a \<Longrightarrow> obj \<in> used a \<Longrightarrow> inv (give a obj) \<and>
          used (give a obj) = used a - {obj} \<and> capacity (give a obj) = capacity a"
begin

lemma used_finite: "inv a \<Longrightarrow> finite (used a)"
  using used_bound [of a] finite_subset by blast

lemma get_total: "inv a \<Longrightarrow> card (used a) < capacity a \<Longrightarrow> \<exists>obj. get a = Inr obj"
  using get_error [of a] by (cases "get a") auto

lemma get_new: "inv a \<Longrightarrow> get a = Inr obj \<Longrightarrow> obj < capacity a"
  using get_ok [of a obj] used_bound [of "after_get a"] by auto

lemma get_give: "inv a \<Longrightarrow> get a = Inr obj \<Longrightarrow> used (give (after_get a) obj) = used a"
  using get_ok [of a obj] give_ok [of "after_get a" obj] by auto

end

text \<open>
  A history of requests: take an object, or give back the \<open>i\<close>-th of those held. A holder
  only gives back what it holds.
\<close>

datatype pool_event = Take | GiveBack nat

fun pool_run ::
  "('a \<Rightarrow> 'e + nat) \<Rightarrow> ('a \<Rightarrow> 'a) \<Rightarrow> ('a \<Rightarrow> nat \<Rightarrow> 'a) \<Rightarrow> 'a \<Rightarrow> nat list \<Rightarrow> pool_event list \<Rightarrow> 'a \<times> nat list" where
  "pool_run get after_get give a held [] = (a, held)"
| "pool_run get after_get give a held (Take # es) =
     (case get a of
        Inl e \<Rightarrow> pool_run get after_get give (after_get a) held es
      | Inr obj \<Rightarrow> pool_run get after_get give (after_get a) (obj # held) es)"
| "pool_run get after_get give a held (GiveBack i # es) =
     (if i < length held
      then pool_run get after_get give (give a (held ! i)) (remove1 (held ! i) held) es
      else pool_run get after_get give a held es)"

context object_pool begin

lemma pool_run_exclusive:
  assumes "inv a" and "distinct held" and "set held = used a"
    and "pool_run get after_get give a held es = (a', held')"
  shows "inv a' \<and> distinct held' \<and> set held' = used a' \<and> capacity a' = capacity a \<and>
    length held' \<le> capacity a"
  using assms
proof (induction es arbitrary: a held)
  case Nil
  then show ?case
    using used_bound [of a] card_mono [of "{..<capacity a}" "used a"] distinct_card [of held] by auto
next
  case (Cons e es)
  show ?case
  proof (cases e)
    case Take
    show ?thesis
    proof (cases "get a")
      case (Inl err)
      with get_error [OF Cons.prems(1) Inl] have "pool_run get after_get give a held es = (a', held')"
        using Cons.prems(4) Take by simp
      from Cons.IH [OF Cons.prems(1-3) this] show ?thesis .
    next
      case (Inr obj)
      note g = get_ok [OF Cons.prems(1) Inr]
      have "pool_run get after_get give (after_get a) (obj # held) es = (a', held')"
        using Cons.prems(4) Take Inr by simp
      from Cons.IH [OF _ _ _ this] g Cons.prems(2,3) show ?thesis by simp
    qed
  next
    case (GiveBack i)
    show ?thesis
    proof (cases "i < length held")
      case True
      then have "held ! i \<in> used a" using Cons.prems(3) nth_mem by blast
      note g = give_ok [OF Cons.prems(1) this]
      have "pool_run get after_get give (give a (held ! i)) (remove1 (held ! i) held) es = (a', held')"
        using Cons.prems(4) GiveBack True by simp
      from Cons.IH [OF _ _ _ this] g Cons.prems(2,3) show ?thesis
        by (simp add: set_remove1_eq)
    next
      case False
      then have "pool_run get after_get give a held es = (a', held')"
        using Cons.prems(4) GiveBack by simp
      from Cons.IH [OF Cons.prems(1-3) this] show ?thesis .
    qed
  qed
qed

end

lemma free_not_used: "obj \<in> free_objects a \<Longrightarrow> obj \<notin> used_objects a"
  by (simp add: used_objects_def)

interpretation ga: object_pool alloc_inv used_objects pool_size
  "\<lambda>a. fst (allocate a)" "\<lambda>a. snd (allocate a)" deallocate
proof unfold_locales
  fix a obj
  assume inv: "alloc_inv a" and get: "fst (allocate a) = Inr obj"
  obtain r a' where eq: "allocate a = (r, a')" by fastforce
  with get have "allocate a = (Inr obj, a')" by simp
  from allocate_ok [OF inv this] eq
  show "alloc_inv (snd (allocate a)) \<and> obj \<notin> used_objects a \<and>
      used_objects (snd (allocate a)) = insert obj (used_objects a) \<and>
      pool_size (snd (allocate a)) = pool_size a"
    by (simp add: free_not_used)
next
  fix a e
  assume inv: "alloc_inv a" and get: "fst (allocate a) = Inl e"
  obtain r a' where eq: "allocate a = (r, a')" by fastforce
  with get have "allocate a = (Inl e, a')" by simp
  from allocate_error [OF this] eq inv
  show "snd (allocate a) = a \<and> used_objects a = {..<pool_size a}" by simp
next
  fix a obj
  assume "alloc_inv a" "obj \<in> used_objects a"
  from deallocate_ok [OF this]
  show "alloc_inv (deallocate a obj) \<and>
      used_objects (deallocate a obj) = used_objects a - {obj} \<and>
      pool_size (deallocate a obj) = pool_size a"
    by simp
qed (simp add: used_objects_def)

section \<open>Properties\<close>

text \<open>
  Property C16. Whatever the order of requests, a pool of \<open>n\<close> objects never hands out an object
  that is in use, never more than \<open>n\<close> of them, and its counters tell the number of objects in
  use and free; holders that give back only what they hold cannot break this.
\<close>

theorem pool_exclusive:
  assumes "pool_run (\<lambda>a. fst (allocate a)) (\<lambda>a. snd (allocate a)) deallocate (new_alloc n) [] es =
    (a, held)"
  shows "distinct held \<and> set held \<subseteq> {..<n} \<and> get_allocated_count a = length held \<and>
    get_free_count a + length held = n \<and> get_pool_size a = n \<and>
    ((\<exists>obj. fst (allocate a) = Inr obj) \<longleftrightarrow> length held < n)"
proof -
  have "pool_size (new_alloc n) = n" by (simp add: new_alloc_def)
  with ga.pool_run_exclusive [OF new_alloc_inv _ _ assms] new_alloc_used(1) [of n]
  have e: "alloc_inv a" "distinct held" "set held = used_objects a" "pool_size a = n" "length held \<le> n"
    by simp_all
  have c: "get_allocated_count a = length held"
    using card_used_objects [OF e(1)] e(2,3) distinct_card by metis
  moreover have "alloc_index a \<le> n" using e(1,4) by (simp add: alloc_inv_def)
  ultimately have "alloc_index a + length held = n"
    using e(4) by (simp add: get_allocated_count_def)
  with c e show ?thesis
    by (auto simp: used_objects_def get_free_count_def get_pool_size_def allocate_def Let_def)
qed

theorem pool_exclusive_witness:
  "\<exists>a. pool_run (\<lambda>a. fst (allocate a)) (\<lambda>a. snd (allocate a)) deallocate (new_alloc 2) []
      [Take, Take, Take, GiveBack 1, Take] = (a, [1, 0]) \<and> get_free_count a = 0"
proof -
  obtain a where r: "pool_run (\<lambda>a. fst (allocate a)) (\<lambda>a. snd (allocate a)) deallocate (new_alloc 2) []
      [Take, Take, Take, GiveBack 1, Take] = (a, [1, 0])"
    by (simp add: allocate_def deallocate_def new_alloc_def upt_rec)
  show ?thesis using r pool_exclusive [OF r] by simp
qed

end
