(* ===== verification/Signal_Handler.thy ===== *)
theory Signal_Handler
  imports System_Calls
begin

text \<open>
  The stop signal (SignalHandler.h, SignalHandler.cpp): a flag that the handler of SIGHUP,
  SIGINT and SIGTERM raises, and the write end of the selector's wakeup pipe. Members are
  static, so there is one state; \<open>wakeup_pipe\<close> is what the pipe holds.
\<close>

section \<open>State and operations\<close>

definition WAKEUP_TRIGGER_BYTE :: byte where
  "WAKEUP_TRIGGER_BYTE = 0xFF"

record signal_handler =
  signal_flag :: bool
  wakeup_fd :: int

text \<open>
  The constructor: the results of sigemptyset and the sigaddset calls, then those of the
  sigaction calls, are joined with \<open>|=\<close>; any non-zero result is an error.
\<close>

definition construct_signal_handler ::
  "signal_handler \<Rightarrow> int list \<Rightarrow> int list \<Rightarrow> signal_handler result" where
  "construct_signal_handler sh mask_rcs action_rcs =
     (let sh = sh\<lparr>signal_flag := False\<rparr> in
      if \<exists>rc \<in> set mask_rcs. rc \<noteq> 0 then Inl (OsException SIGNAL_HND_ERROR)
      else if \<exists>rc \<in> set action_rcs. rc \<noteq> 0 then Inl (OsException SIGNAL_HND_ERROR)
      else Inr sh)"

text \<open>
  The handler is one object, created by the first call; \<open>has_instance\<close> says that \<open>instance\<close> is
  not null.
\<close>

definition get_instance ::
  "bool \<Rightarrow> signal_handler \<Rightarrow> int list \<Rightarrow> int list \<Rightarrow> (bool \<times> signal_handler) result" where
  "get_instance has_instance sh mask_rcs action_rcs =
     (if \<not> has_instance then
        (case construct_signal_handler sh mask_rcs action_rcs of
           Inl e \<Rightarrow> Inl e
         | Inr sh \<Rightarrow> Inr (True, sh))
      else Inr (True, sh))"

lemma get_instance_again:
  "get_instance has_instance sh m a = Inr (h, sh') \<Longrightarrow> get_instance h sh' m' a' = Inr (h, sh')"
  by (auto simp: get_instance_def split: if_splits sum.splits)

text \<open>
  The actions of the three signals in the process: a handler and the set of signals that are
  blocked while it runs. \<open>handler_action\<close> is the static member \<open>signal_action\<close> as the
  constructor fills it in; its calls of \<open>sigaction\<close> install it for each signal. The destructor
  passes \<open>SIG_DFL\<close>, which is the number 0, as the pointer to the new action; for a null pointer
  \<open>sigaction\<close> changes nothing.
\<close>

datatype signal_nr = SIGHUP | SIGINT | SIGTERM
datatype handler_function = DefaultAction | UfhSignalHandler
type_synonym signal_set = "signal_nr set"

record signal_action =
  sa_handler :: handler_function
  sa_mask :: signal_set

type_synonym dispositions = "signal_nr \<Rightarrow> signal_action"

definition sigemptyset :: signal_set where "sigemptyset = {}"

definition sigaddset :: "signal_set \<Rightarrow> signal_nr \<Rightarrow> signal_set" where
  "sigaddset sigs nr = insert nr sigs"

definition handler_action :: signal_action where
  "handler_action =
     \<lparr>sa_handler = UfhSignalHandler,
      sa_mask = sigaddset (sigaddset (sigaddset sigemptyset SIGHUP) SIGINT) SIGTERM\<rparr>"

definition sigaction :: "signal_nr \<Rightarrow> signal_action option \<Rightarrow> dispositions \<Rightarrow> dispositions" where
  "sigaction nr act d = (case act of None \<Rightarrow> d | Some a \<Rightarrow> d(nr := a))"

definition install_handlers :: "dispositions \<Rightarrow> dispositions" where
  "install_handlers d =
     sigaction SIGTERM (Some handler_action)
       (sigaction SIGINT (Some handler_action) (sigaction SIGHUP (Some handler_action) d))"

definition SIG_DFL_POINTER :: "signal_action option" where
  "SIG_DFL_POINTER = None"

definition destruct_signal_handler :: "dispositions \<Rightarrow> dispositions" where
  "destruct_signal_handler d =
     sigaction SIGTERM SIG_DFL_POINTER (sigaction SIGINT SIG_DFL_POINTER (sigaction SIGHUP SIG_DFL_POINTER d))"

lemma install_handlers_all: "install_handlers d nr = handler_action"
  by (cases nr) (simp_all add: install_handlers_def sigaction_def)

lemma handlers_survive_destruction:
  "destruct_signal_handler (install_handlers d) = (\<lambda>_. handler_action)"
  by (rule ext) (simp add: destruct_signal_handler_def SIG_DFL_POINTER_def sigaction_def install_handlers_all)

definition signal :: "signal_handler \<Rightarrow> signal_handler" where
  "signal sh = sh\<lparr>signal_flag := True\<rparr>"

definition is_signaled :: "signal_handler \<Rightarrow> bool" where
  "is_signaled sh = signal_flag sh"

definition enable_wakeup_fd :: "signal_handler \<Rightarrow> int \<Rightarrow> signal_handler" where
  "enable_wakeup_fd sh fd = sh\<lparr>wakeup_fd := fd\<rparr>"

definition disable_wakeup_fd :: "signal_handler \<Rightarrow> signal_handler" where
  "disable_wakeup_fd sh = sh\<lparr>wakeup_fd := FD_NONE\<rparr>"

text \<open>
  \<open>write\<close> of one byte to the non-blocking wakeup pipe, retried while it is interrupted. The
  results of the calls are given; \<open>None\<close> if they end before the loop does.
\<close>

datatype write_result = WROTE | WRITE_EINTR | WRITE_FAILED

fun write_trigger :: "write_result list \<Rightarrow> bytes \<Rightarrow> bytes option" where
  "write_trigger [] pipe = None"
| "write_trigger (WRITE_EINTR # rs) pipe = write_trigger rs pipe"
| "write_trigger (WROTE # rs) pipe = Some (pipe @ [WAKEUP_TRIGGER_BYTE])"
| "write_trigger (WRITE_FAILED # rs) pipe = Some pipe"

definition ufh_signal_handler ::
  "signal_handler \<Rightarrow> write_result list \<Rightarrow> bytes \<Rightarrow> (signal_handler \<times> bytes) option" where
  "ufh_signal_handler sh rs pipe =
     (let sh = sh\<lparr>signal_flag := True\<rparr> in
      if wakeup_fd sh \<noteq> FD_NONE
      then map_option (\<lambda>pipe. (sh, pipe)) (write_trigger rs pipe)
      else Some (sh, pipe))"

lemma write_trigger_returns:
  "r \<noteq> WRITE_EINTR \<Longrightarrow> \<exists>pipe'. write_trigger (replicate n WRITE_EINTR @ r # rs) pipe = Some pipe'"
  by (induction n; cases r) simp_all

lemma ufh_signal_handler_flag:
  "ufh_signal_handler sh rs pipe = Some (sh', pipe') \<Longrightarrow> is_signaled sh' \<and> wakeup_fd sh' = wakeup_fd sh"
  by (auto simp: ufh_signal_handler_def is_signaled_def Let_def split: if_splits)

section \<open>Threads, signal masks and the lock\<close>

text \<open>
  Each operation of the class and the handler as the list of what it does with the signal mask
  of the thread, with \<open>signal_lock\<close> and with the state. \<open>HandlerBody\<close> is the handler between
  its \<open>lock()\<close> and its \<open>unlock()\<close>.
\<close>

datatype operation = OpSignal | OpIsSignaled | OpEnable int | OpDisable

fun apply_operation :: "operation \<Rightarrow> signal_handler \<Rightarrow> signal_handler" where
  "apply_operation OpSignal sh = signal sh"
| "apply_operation OpIsSignaled sh = sh"
| "apply_operation (OpEnable fd) sh = enable_wakeup_fd sh fd"
| "apply_operation OpDisable sh = disable_wakeup_fd sh"

datatype instruction =
    BlockSignals signal_set | UnblockSignals signal_set | LockMutex | UnlockMutex
  | Access operation | HandlerBody

definition operation_code :: "operation \<Rightarrow> instruction list" where
  "operation_code opn =
     [BlockSignals (sa_mask handler_action), LockMutex, Access opn, UnlockMutex,
      UnblockSignals (sa_mask handler_action)]"

definition handler_code :: "instruction list" where
  "handler_code = [LockMutex, HandlerBody, UnlockMutex]"

text \<open>
  A thread is a stack of frames, the running one first: what a frame has still to do and the
  signal mask it runs under. The last frame is the thread's own code, the others are handlers.
  \<open>masks\<close> are the signal masks the threads start with.
\<close>

type_synonym frame = "instruction list \<times> signal_set"

record signal_system =
  frames :: "nat \<Rightarrow> frame list"
  signal_lock :: "nat option"
  handler_state :: signal_handler
  wakeup_pipe :: bytes
  actions :: dispositions

definition init_signal_system ::
  "dispositions \<Rightarrow> (nat \<Rightarrow> signal_set) \<Rightarrow> signal_handler \<Rightarrow> signal_system" where
  "init_signal_system d masks sh =
     \<lparr>frames = (\<lambda>t. [([], masks t)]), signal_lock = None, handler_state = sh, wakeup_pipe = [],
      actions = install_handlers d\<rparr>"

text \<open>
  One instruction of thread \<open>t\<close> under the mask \<open>m\<close>; \<open>None\<close> when it cannot go on: the mutex is
  not free, or is not its own. \<open>rs\<close> are the results of \<open>write\<close>.
\<close>

fun run_instruction ::
  "nat \<Rightarrow> write_result list \<Rightarrow> instruction \<Rightarrow> signal_set \<Rightarrow> signal_system \<Rightarrow>
   (signal_set \<times> signal_system) option" where
  "run_instruction t rs (BlockSignals b) m s = Some (m \<union> b, s)"
| "run_instruction t rs (UnblockSignals b) m s = Some (m - b, s)"
| "run_instruction t rs LockMutex m s =
     (if signal_lock s = None then Some (m, s\<lparr>signal_lock := Some t\<rparr>) else None)"
| "run_instruction t rs UnlockMutex m s =
     (if signal_lock s = Some t then Some (m, s\<lparr>signal_lock := None\<rparr>) else None)"
| "run_instruction t rs (Access opn) m s =
     Some (m, s\<lparr>handler_state := apply_operation opn (handler_state s)\<rparr>)"
| "run_instruction t rs HandlerBody m s =
     map_option (\<lambda>(sh, pipe). (m, s\<lparr>handler_state := sh, wakeup_pipe := pipe\<rparr>))
       (ufh_signal_handler (handler_state s) rs (wakeup_pipe s))"

abbreviation set_frames :: "nat \<Rightarrow> frame list \<Rightarrow> signal_system \<Rightarrow> signal_system" where
  "set_frames t fs s \<equiv> s\<lparr>frames := (frames s)(t := fs)\<rparr>"

text \<open>
  The steps of a thread. A signal can arrive at any moment, in any frame whose mask does not
  block it; with \<open>sa_flags\<close> 0 the handler then runs with \<open>sa_mask\<close> and the signal itself blocked
  in addition, and its end restores the mask.
\<close>

inductive signal_step :: "nat \<Rightarrow> signal_system \<Rightarrow> signal_system \<Rightarrow> bool" for t where
  call: "frames s t = [([], m)] \<Longrightarrow> signal_step t s (set_frames t [(operation_code opn, m)] s)"
| run: "frames s t = (i # code, m) # rest \<Longrightarrow> run_instruction t rs i m s = Some (m', s') \<Longrightarrow>
     signal_step t s (set_frames t ((code, m') # rest) s')"
| deliver: "frames s t = (code, m) # rest \<Longrightarrow> nr \<notin> m \<Longrightarrow>
     sa_handler (actions s nr) = UfhSignalHandler \<Longrightarrow>
     signal_step t s
       (set_frames t ((handler_code, m \<union> sa_mask (actions s nr) \<union> {nr}) # (code, m) # rest) s)"
| return: "frames s t = ([], m) # f # rest \<Longrightarrow> signal_step t s (set_frames t (f # rest) s)"

inductive signal_reachable ::
  "dispositions \<Rightarrow> (nat \<Rightarrow> signal_set) \<Rightarrow> signal_handler \<Rightarrow> signal_system \<Rightarrow> bool" for d masks sh where
  start: "signal_reachable d masks sh (init_signal_system d masks sh)"
| step: "signal_reachable d masks sh s \<Longrightarrow> signal_step t s s' \<Longrightarrow> signal_reachable d masks sh s'"

section \<open>The invariant\<close>

text \<open>A frame that has taken the lock and has not given it back yet.\<close>

definition owns :: "frame \<Rightarrow> bool" where
  "owns f \<longleftrightarrow> UnlockMutex \<in> set (fst f) \<and> LockMutex \<notin> set (fst f)"

text \<open>
  The thread's own frame has come to some point of an operation, and between its calls of
  \<open>sigprocmask\<close> every signal is blocked; a handler runs with every signal blocked. So a handler
  is never interrupted and interrupts only where the lock is not held.
\<close>

definition base_ok :: "frame \<Rightarrow> bool" where
  "base_ok f \<longleftrightarrow> fst f = [] \<or> (\<exists>opn. fst f = operation_code opn \<or>
     snd f = UNIV \<and>
       (fst f = [LockMutex, Access opn, UnlockMutex, UnblockSignals (sa_mask handler_action)] \<or>
        fst f = [Access opn, UnlockMutex, UnblockSignals (sa_mask handler_action)] \<or>
        fst f = [UnlockMutex, UnblockSignals (sa_mask handler_action)] \<or>
        fst f = [UnblockSignals (sa_mask handler_action)]))"

definition handler_ok :: "frame \<Rightarrow> bool" where
  "handler_ok f \<longleftrightarrow> snd f = UNIV \<and>
     (fst f = handler_code \<or> fst f = [HandlerBody, UnlockMutex] \<or> fst f = [UnlockMutex] \<or> fst f = [])"

definition frames_ok :: "frame list \<Rightarrow> bool" where
  "frames_ok fs \<longleftrightarrow> (\<exists>b. base_ok b \<and> (fs = [b] \<or> snd b \<noteq> UNIV \<and> (\<exists>h. handler_ok h \<and> fs = [h, b])))"

lemma frames_ok_cases:
  assumes "frames_ok fs"
  obtains (own) b where "fs = [b]" "base_ok b"
    | (interrupted) h b where "fs = [h, b]" "handler_ok h" "base_ok b" "snd b \<noteq> UNIV"
  using assms unfolding frames_ok_def by blast

definition signal_inv :: "signal_system \<Rightarrow> bool" where
  "signal_inv s \<longleftrightarrow> (\<forall>t. frames_ok (frames s t)) \<and>
     (\<forall>t. signal_lock s = Some t \<longleftrightarrow> (\<exists>f \<in> set (frames s t). owns f)) \<and>
     (\<forall>nr. actions s nr = handler_action)"

lemma handler_mask: "sa_mask handler_action = UNIV"
proof -
  have "nr \<in> sa_mask handler_action" for nr
    by (cases nr) (simp_all add: handler_action_def sigaddset_def)
  then show ?thesis by blast
qed

lemma owns_simps:
  "\<not> owns ([], m)" "\<not> owns (operation_code opn, m)" "\<not> owns (handler_code, m)"
  by (simp_all add: owns_def operation_code_def handler_code_def)

text \<open>A frame whose mask lets a signal through does not hold the lock.\<close>

lemma unmasked_not_owner: "base_ok f \<Longrightarrow> snd f \<noteq> UNIV \<Longrightarrow> \<not> owns f"
  using owns_simps by (cases f) (auto simp: base_ok_def)

lemma run_frame:
  assumes "run_instruction t rs i m s = Some (m', s')" and "signal_lock s = Some t \<longleftrightarrow> owns (i # code, m)"
    and "base_ok (i # code, m) \<or> handler_ok (i # code, m)"
  shows "frames s' = frames s" "actions s' = actions s"
    "signal_lock s' = Some t \<longleftrightarrow> owns (code, m')"
    "u \<noteq> t \<Longrightarrow> signal_lock s' = Some u \<longleftrightarrow> signal_lock s = Some u"
  using assms
  by (auto simp: base_ok_def handler_ok_def operation_code_def handler_code_def owns_def split: if_splits)

lemma run_base: "base_ok (i # code, m) \<Longrightarrow> run_instruction t rs i m s = Some (m', s') \<Longrightarrow> base_ok (code, m')"
  by (auto simp: base_ok_def operation_code_def handler_mask split: if_splits)

lemma run_handler:
  "handler_ok (i # code, m) \<Longrightarrow> run_instruction t rs i m s = Some (m', s') \<Longrightarrow> handler_ok (code, m')"
  by (auto simp: handler_ok_def handler_code_def split: if_splits)

text \<open>A step that changes the frames of its thread only, and what that thread owns with them.\<close>

lemma signal_inv_frames:
  assumes "signal_inv s" and "frames_ok fs" and "frames s' = (frames s)(t := fs)" and "actions s' = actions s"
    and "signal_lock s' = Some t \<longleftrightarrow> (\<exists>f \<in> set fs. owns f)"
    and "\<And>u. u \<noteq> t \<Longrightarrow> signal_lock s' = Some u \<longleftrightarrow> signal_lock s = Some u"
  shows "signal_inv s'"
  using assms by (auto simp: signal_inv_def)

lemma signal_inv_thread:
  assumes "signal_inv s"
  shows "frames_ok (frames s t)" "signal_lock s = Some t \<longleftrightarrow> (\<exists>f \<in> set (frames s t). owns f)"
  using assms by (simp_all add: signal_inv_def)

lemma signal_step_inv: "signal_step t s s' \<Longrightarrow> signal_inv s \<Longrightarrow> signal_inv s'"
proof (induction rule: signal_step.induct)
  case (call s m opn)
  from signal_inv_thread [OF call(2), of t] call(1) show ?case
    by (intro signal_inv_frames [OF call(2), of "[(operation_code opn, m)]" _ t])
      (auto simp: frames_ok_def base_ok_def owns_simps)
next
  case (run s i code m rest rs m' s')
  note t = signal_inv_thread [OF run(3), of t]
  from t(1) run(1) consider (base) "rest = []" "base_ok (i # code, m)"
    | (handler) b where "rest = [b]" "base_ok b" "snd b \<noteq> UNIV" "handler_ok (i # code, m)"
    by (cases rule: frames_ok_cases) auto
  then show ?case
  proof cases
    case base
    with t(2) run(1) have "signal_lock s = Some t \<longleftrightarrow> owns (i # code, m)" by simp
    note f = run_frame [OF run(2) this] base(2)
    show ?thesis
      by (rule signal_inv_frames [OF run(3), of "(code, m') # rest" _ t])
        (use f base run_base [OF base(2) run(2)] in \<open>auto simp: frames_ok_def\<close>)
  next
    case handler
    note b = unmasked_not_owner [OF handler(2,3)]
    with t(2) run(1) handler have "signal_lock s = Some t \<longleftrightarrow> owns (i # code, m)" by simp
    note f = run_frame [OF run(2) this] handler(4)
    have "frames_ok ((code, m') # rest)"
      using handler run_handler [OF handler(4) run(2)] unfolding frames_ok_def by blast
    then show ?thesis
      by (rule signal_inv_frames [OF run(3), where t = t]) (use f b handler(1) in auto)
  qed
next
  case (deliver s code m rest nr)
  note t = signal_inv_thread [OF deliver(4), of t]
  from t(1) deliver(1,2) have rest: "rest = []" and b: "base_ok (code, m)" "m \<noteq> UNIV"
    by (cases rule: frames_ok_cases; auto simp: handler_ok_def)+
  have "handler_ok (handler_code, m \<union> sa_mask (actions s nr) \<union> {nr})"
    using deliver(4) by (simp add: handler_ok_def signal_inv_def handler_mask)
  with b have "frames_ok ((handler_code, m \<union> sa_mask (actions s nr) \<union> {nr}) # (code, m) # rest)"
    unfolding rest frames_ok_def by fastforce
  then show ?case
    by (rule signal_inv_frames [OF deliver(4), where t = t])
      (use t(2) deliver(1) owns_simps(3) in auto)
next
  case (return s m f rest)
  note t = signal_inv_thread [OF return(2), of t]
  from t(1) return(1) have "frames_ok (f # rest)"
    by (cases rule: frames_ok_cases) (simp_all, metis frames_ok_def)
  then show ?case
    by (rule signal_inv_frames [OF return(2), where t = t])
      (use t(2) return(1) owns_simps(1) in auto)
qed

lemma signal_reachable_inv: "signal_reachable d masks sh s \<Longrightarrow> signal_inv s"
proof (induction rule: signal_reachable.induct)
  case start
  show ?case
    by (simp add: signal_inv_def init_signal_system_def frames_ok_def base_ok_def owns_simps install_handlers_all)
next
  case (step s t s')
  then show ?case by (blast intro: signal_step_inv)
qed

text \<open>The flag is never taken back once it is up.\<close>

lemma signal_step_flag_mono:
  "signal_step t s s' \<Longrightarrow> signal_flag (handler_state s) \<Longrightarrow> signal_flag (handler_state s')"
proof (induction rule: signal_step.induct)
  case (run s i code m rest rs m' s')
  have "signal_flag (apply_operation opn sh)" if "signal_flag sh" for opn sh
    using that by (cases opn) (simp_all add: signal_def enable_wakeup_fd_def disable_wakeup_fd_def)
  with run show ?case
    by (cases i) (auto simp: is_signaled_def split: if_splits dest: ufh_signal_handler_flag)
qed simp_all

lemma stop_request_is_permanent:
  assumes "(\<lambda>s s'. \<exists>t. signal_step t s s')\<^sup>*\<^sup>* s s'" and "is_signaled (handler_state s)"
  shows "is_signaled (handler_state s')"
  using assms
  by (induction rule: rtranclp_induct)
    (auto simp: is_signaled_def dest: signal_step_flag_mono)

text \<open>Whoever has the lock can give it back, without another thread.\<close>

lemma unlock_step:
  assumes "frames s t = (UnlockMutex # code, m) # rest" and "signal_lock s = Some t"
  shows "\<exists>s'. signal_step t s s' \<and> signal_lock s' = None"
  using signal_step.run [OF assms(1), of "[]"] assms(2) by fastforce

lemma body_step:
  assumes "frames s t = (i # UnlockMutex # code, m) # rest" and "signal_lock s = Some t"
    and "i = HandlerBody \<or> (\<exists>opn. i = Access opn)"
  shows "\<exists>s'. (signal_step t)\<^sup>*\<^sup>* s s' \<and> signal_lock s' = None"
proof -
  obtain sh pipe where "ufh_signal_handler (handler_state s) [WROTE] (wakeup_pipe s) = Some (sh, pipe)"
    by (cases "wakeup_fd (handler_state s) = FD_NONE") (simp_all add: ufh_signal_handler_def Let_def)
  then have "\<exists>s1. run_instruction t [WROTE] i m s = Some (m, s1) \<and> signal_lock s1 = Some t"
    using assms(3) by (elim disjE exE) (simp_all add: assms(2))
  then obtain s1 where s1: "run_instruction t [WROTE] i m s = Some (m, s1)" "signal_lock s1 = Some t" by blast
  let ?s1 = "set_frames t ((UnlockMutex # code, m) # rest) s1"
  have "signal_step t s ?s1" by (rule signal_step.run [OF assms(1) s1(1)])
  moreover obtain s2 where "signal_step t ?s1 s2" "signal_lock s2 = None"
    using unlock_step [of ?s1 t code m rest] s1(2) by auto
  ultimately show ?thesis by (blast intro: converse_rtranclp_into_rtranclp)
qed

lemma owner_releases:
  assumes "frames s t = f # rest" and "owns f" and "base_ok f \<or> handler_ok f" and "signal_lock s = Some t"
  shows "\<exists>s'. (signal_step t)\<^sup>*\<^sup>* s s' \<and> signal_lock s' = None"
proof -
  from assms(2,3) owns_simps consider code where "fst f = UnlockMutex # code"
    | i code where "fst f = i # UnlockMutex # code" "i = HandlerBody \<or> (\<exists>opn. i = Access opn)"
    by (cases f) (auto simp: base_ok_def handler_ok_def owns_def)
  then show ?thesis
  proof cases
    case 1
    with unlock_step assms(1,4) show ?thesis by (metis prod.collapse r_into_rtranclp)
  next
    case 2
    with body_step assms(1,4) show ?thesis by (metis prod.collapse)
  qed
qed

section \<open>Properties\<close>

text \<open>
  Property C20. The stop signal cannot deadlock a thread. A signal may arrive between any two
  instructions of any thread, and runs the handler on top of what the thread was doing unless
  the mask in force blocks it; the handler takes the lock that the operations take. Still, in
  every reachable state in which a thread holds \<open>signal_lock\<close>, it is the code it is just running
  that took it - no frame that a handler has interrupted - and this code blocks the three
  signals; so the thread does not wait for its own lock, no other frame of any thread holds it,
  and the thread gives it back by its own next steps. This rests on the masks of the
  constructor and of \<open>sigprocmask\<close>: a signal that \<open>sa_mask\<close> leaves out breaks it.
\<close>

theorem signal_lock_no_self_deadlock:
  assumes "signal_reachable d masks sh s" and "signal_lock s = Some t"
  shows "\<exists>f rest. frames s t = f # rest \<and> owns f \<and> snd f = UNIV \<and> (\<forall>code. fst f \<noteq> LockMutex # code) \<and>
    (\<forall>g \<in> set rest. \<not> owns g) \<and> (\<forall>u g. g \<in> set (frames s u) \<and> owns g \<longrightarrow> u = t) \<and>
    (\<exists>s'. (signal_step t)\<^sup>*\<^sup>* s s' \<and> signal_lock s' = None)"
proof -
  have inv: "signal_inv s" by (rule signal_reachable_inv [OF assms(1)])
  note th = signal_inv_thread [OF inv, of t]
  from th(2) assms(2) obtain g where g: "g \<in> set (frames s t)" "owns g" by blast
  from th(1) obtain f rest where f: "frames s t = f # rest" "owns f" "base_ok f \<or> handler_ok f"
    "\<forall>g \<in> set rest. \<not> owns g" "handler_ok f \<or> snd f = UNIV"
  proof (cases rule: frames_ok_cases)
    case (own b)
    with g unmasked_not_owner [OF own(2)] show ?thesis by (intro that [of b "[]"]) auto
  next
    case (interrupted h b)
    with g unmasked_not_owner [OF interrupted(3)] show ?thesis by (intro that [of h "[b]"]) auto
  qed
  have "\<exists>s'. (signal_step t)\<^sup>*\<^sup>* s s' \<and> signal_lock s' = None"
    by (rule owner_releases [OF f(1-3) assms(2)])
  moreover have "u = t" if "g \<in> set (frames s u) \<and> owns g" for u g
    using that signal_inv_thread(2) [OF inv, of u] assms(2) by auto
  moreover have "snd f = UNIV" using f(5) by (auto simp: handler_ok_def)
  moreover have "fst f \<noteq> LockMutex # code" for code using f(2) by (auto simp: owns_def)
  ultimately show ?thesis using f(1,2,4) by blast
qed

text \<open>SIGTERM arrives on thread 3 as it is about to call \<open>disable_wakeup_fd\<close>; the handler has the lock.\<close>

theorem signal_lock_no_self_deadlock_witness:
  "\<exists>s. signal_reachable (\<lambda>_. \<lparr>sa_handler = DefaultAction, sa_mask = {}\<rparr>) (\<lambda>_. {})
      \<lparr>signal_flag = False, wakeup_fd = 5\<rparr> s \<and>
    frames s 3 = [([HandlerBody, UnlockMutex], UNIV), (operation_code OpDisable, {})] \<and>
    (\<exists>s'. (signal_step 3)\<^sup>*\<^sup>* s s' \<and> signal_lock s' = None)"
proof -
  let ?d = "\<lambda>_. \<lparr>sa_handler = DefaultAction, sa_mask = {}\<rparr>"
  let ?s0 = "init_signal_system ?d (\<lambda>_. {}) \<lparr>signal_flag = False, wakeup_fd = 5\<rparr>"
  let ?s1 = "set_frames 3 [(operation_code OpDisable, {})] ?s0"
  let ?m = "{} \<union> sa_mask (actions ?s1 SIGTERM) \<union> {SIGTERM}"
  let ?s2 = "set_frames 3 [(handler_code, ?m), (operation_code OpDisable, {})] ?s1"
  let ?s3 = "set_frames 3 [([HandlerBody, UnlockMutex], ?m), (operation_code OpDisable, {})]
      (?s2\<lparr>signal_lock := Some 3\<rparr>)"
  have "signal_step 3 ?s0 ?s1" by (rule signal_step.call) (simp add: init_signal_system_def)
  moreover have "signal_step 3 ?s1 ?s2"
    by (rule signal_step.deliver)
      (simp_all add: init_signal_system_def install_handlers_all handler_action_def)
  moreover have "signal_step 3 ?s2 ?s3"
    by (rule signal_step.run [where rs = "[]" and i = LockMutex])
      (simp_all add: init_signal_system_def handler_code_def)
  ultimately have r: "signal_reachable ?d (\<lambda>_. {}) \<lparr>signal_flag = False, wakeup_fd = 5\<rparr> ?s3"
    by (blast intro: signal_reachable.intros)
  have l: "signal_lock ?s3 = Some 3" by simp
  have "frames ?s3 3 = [([HandlerBody, UnlockMutex], UNIV), (operation_code OpDisable, {})]"
    by (simp add: init_signal_system_def install_handlers_all handler_mask)
  with r signal_lock_no_self_deadlock [OF r l] show ?thesis by blast
qed

end
