(* ===== verification/Server_Connector.thy ===== *)
theory Server_Connector
  imports Net_Client Gen_Alloc Signal_Handler
begin

text \<open>
  The server's network side: the class \<open>ServerConnector\<close> (ServerConnector.h,
  ServerConnector.cpp) without its constructor and socket set-up. The pool's clients are a
  store indexed by their position; \<open>com_queue\<close> (clients doing I/O) and \<open>action_queue\<close>
  (requests for the workers) are two queues over it. System calls take their results from
  the environment.
\<close>

section \<open>The object\<close>

definition MAX_CONNECTIONS :: nat where [bounds_simps]: "MAX_CONNECTIONS = 24"
definition INT_MAX :: int where [bounds_simps]: "INT_MAX = 2147483647"

record 'b connector =
  clients :: "nat \<Rightarrow> 'b net_client"
  client_pool :: gen_alloc
  com_queue :: node_queue
  action_queue :: node_queue
  server_fd :: int
  server_domain :: domain
  trigger_read_fd :: int
  trigger_write_fd :: int
  trigger_pipe :: bytes
  stop_signal :: signal_handler
  notifications :: nat
  closed_fds :: "int list"

text \<open>
  The members after the constructor: a pool of \<open>MAX_CONNECTIONS\<close> clients whose address
  buffers fit the server's domain, empty queues, no descriptors. \<open>garbage\<close> stands for the
  uninitialised memory of the arrays.
\<close>

definition new_connector ::
  "'b char_buffer_ops \<Rightarrow> bytes \<Rightarrow> domain \<Rightarrow> signal_handler \<Rightarrow> 'b connector" where
  "new_connector cb garbage d sh =
     \<lparr>clients = (\<lambda>idx. init_client_address d garbage (new_net_client cb (take IO_BUFFER_SIZE garbage))),
      client_pool = new_alloc MAX_CONNECTIONS, com_queue = new_queue, action_queue = new_queue,
      server_fd = FD_NONE, server_domain = d, trigger_read_fd = FD_NONE, trigger_write_fd = FD_NONE,
      trigger_pipe = [], stop_signal = sh, notifications = 0, closed_fds = []\<rparr>"

abbreviation set_client :: "nat \<Rightarrow> 'b net_client \<Rightarrow> 'b connector \<Rightarrow> 'b connector" where
  "set_client c cl cn \<equiv> cn\<lparr>clients := (clients cn)(c := cl)\<rparr>"

section \<open>Closing and accepting\<close>

definition close_connection :: "'b char_buffer_ops \<Rightarrow> 'b connector \<Rightarrow> nat \<Rightarrow> 'b connector" where
  "close_connection cb cn c =
     (let (fd, closed) = close_fd (socket_fd (clients cn c)) (closed_fds cn);
          h = (clients cn)(c := (clients cn c)\<lparr>socket_fd := fd\<rparr>);
          (h, q) = remove_node h (com_queue cn) c;
          h = h(c := clear_client cb (h c))
      in cn\<lparr>clients := h, com_queue := q, closed_fds := closed,
            client_pool := deallocate (client_pool cn) c\<rparr>)"

text \<open>
  \<open>accept\<close> stores the peer's address and its length; a failed call returns -1, which the code
  stores as the client's descriptor.
\<close>

datatype accept_result = Accepted int bytes nat | AcceptFailed

definition accept_into :: "accept_result \<Rightarrow> 'b net_client \<Rightarrow> 'b net_client" where
  "accept_into r cl =
     (case r of
        Accepted fd addr len \<Rightarrow>
          cl\<lparr>socket_fd := fd, address := blit (address cl) 0 (take (address_length cl) addr),
             address_length := len\<rparr>
      | AcceptFailed \<Rightarrow> cl\<lparr>socket_fd := -1\<rparr>)"

definition accept_connection ::
  "'b char_buffer_ops \<Rightarrow> accept_result \<Rightarrow> 'b connector \<Rightarrow> 'b connector" where
  "accept_connection cb r cn =
     (case allocate_scope (client_pool cn) of
        (Inl e, pool) \<Rightarrow> cn\<lparr>client_pool := pool\<rparr>
      | (Inr None, pool) \<Rightarrow> cn\<lparr>client_pool := pool\<rparr>
      | (Inr (Some c), pool) \<Rightarrow>
          (let cl = clear_client cb (clients cn c);
               cl = accept_into r cl;
               cl = cl\<lparr>socket_domain := server_domain cn, io_state := READ,
                        current_phase := RECV, next_phase := PENDING\<rparr>;
               (h, q) = add_last ((clients cn)(c := cl)) (com_queue cn) c;
               scope = snd (release_scope_ptr (Some c))
           in cn\<lparr>clients := h, com_queue := q, client_pool := end_scope pool scope\<rparr>))"

section \<open>Receiving\<close>

definition req_read_size :: "'b net_client \<Rightarrow> nat" where
  "req_read_size cl =
     (if io_offset cl < HEADER_SIZE then HEADER_SIZE - io_offset cl
      else size_sub (unat (data_length (header cl))) (io_offset cl))"

definition cap_data_length :: "msg_header \<Rightarrow> msg_header" where
  "cap_data_length h =
     (if unat (data_length h) > IO_BUFFER_SIZE then h\<lparr>data_length := of_nat IO_BUFFER_SIZE\<rparr> else h)"

text \<open>The branch of \<open>receive_message\<close> for a positive count: the flag and the client.\<close>

definition receive_bytes :: "'b net_client \<Rightarrow> bytes \<Rightarrow> bool \<times> 'b net_client" where
  "receive_bytes cl data =
     (let cl = cl\<lparr>io_buffer := blit (io_buffer cl) (io_offset cl) data,
                  io_offset := io_offset cl + length data\<rparr>
      in if have_header cl then (io_offset cl \<ge> unat (data_length (header cl)), cl)
         else if io_offset cl \<ge> HEADER_SIZE then
           (let h = cap_data_length (deserialize (header cl) (io_buffer cl));
                cl = cl\<lparr>header := h, have_header := True\<rparr>
            in (unat (data_length h) \<le> HEADER_SIZE, cl))
         else (False, cl))"

definition receive_message ::
  "'b char_buffer_ops \<Rightarrow> (int \<Rightarrow> nat \<Rightarrow> recv_result) \<Rightarrow> 'b connector \<Rightarrow> nat \<Rightarrow> bool \<times> 'b connector" where
  "receive_message cb recv cn c =
     (let cl = clients cn c in
      case recv (socket_fd cl) (req_read_size cl) of
        Received data \<Rightarrow>
          (if data \<noteq> [] then
             (case receive_bytes cl data of (complete, cl) \<Rightarrow> (complete, set_client c cl cn))
           else (False, close_connection cb cn c))
      | _ \<Rightarrow> (False, close_connection cb cn c))"

section \<open>Sending\<close>

definition prepare_send :: "'b net_client \<Rightarrow> 'b net_client" where
  "prepare_send cl =
     (if \<not> have_header cl then
        (let h = (if unat (data_length (header cl)) < HEADER_SIZE
                  then (header cl)\<lparr>data_length := of_nat HEADER_SIZE\<rparr>
                  else if unat (data_length (header cl)) > IO_BUFFER_SIZE
                  then (header cl)\<lparr>data_length := of_nat IO_BUFFER_SIZE\<rparr>
                  else header cl)
         in cl\<lparr>header := h, io_buffer := serialize h (io_buffer cl), have_header := True\<rparr>)
      else cl)"

text \<open>The smaller of the buffer size and the rest, both cut to 16 bits.\<close>

definition req_write_size :: "'b net_client \<Rightarrow> nat" where
  "req_write_size cl =
     unat (min (of_nat IO_BUFFER_SIZE :: uint16)
               (of_nat (size_sub (unat (data_length (header cl))) (io_offset cl)) :: uint16))"

definition send_buffer :: "'b net_client \<Rightarrow> bytes" where
  "send_buffer cl = segment (io_offset cl) (io_offset cl + req_write_size cl) (io_buffer cl)"

text \<open>The count \<open>n\<close> of bytes sent, and whether the message is out.\<close>

definition sent_bytes :: "'b net_client \<Rightarrow> nat \<Rightarrow> bool \<times> 'b net_client" where
  "sent_bytes cl n =
     (let cl = (if n > 0 then cl\<lparr>io_offset := io_offset cl + n\<rparr> else cl)
      in (io_offset cl \<ge> unat (data_length (header cl)), cl))"

definition send_message ::
  "'b char_buffer_ops \<Rightarrow> (int \<Rightarrow> bytes \<Rightarrow> send_result) \<Rightarrow> 'b connector \<Rightarrow> nat \<Rightarrow> bool \<times> 'b connector" where
  "send_message cb send cn c =
     (let cl = prepare_send (clients cn c) in
      case send (socket_fd cl) (send_buffer cl) of
        SendFailed \<Rightarrow> (False, close_connection cb (set_client c cl cn) c)
      | SendWouldBlock \<Rightarrow>
          (case sent_bytes cl 0 of (complete, cl) \<Rightarrow> (complete, set_client c cl cn))
      | Sent n \<Rightarrow>
          (case sent_bytes cl n of (complete, cl) \<Rightarrow> (complete, set_client c cl cn)))"

section \<open>One pass of the selector over its clients\<close>

record os_env =
  os_recv :: "int \<Rightarrow> nat \<Rightarrow> recv_result"
  os_send :: "int \<Rightarrow> bytes \<Rightarrow> send_result"

text \<open>A complete message: the request goes to the workers.\<close>

definition finish_receive :: "'b char_buffer_ops \<Rightarrow> 'b connector \<Rightarrow> nat \<Rightarrow> 'b connector" where
  "finish_receive cb cn c =
     (let cn = set_client c ((clients cn c)\<lparr>current_phase := next_phase (clients cn c)\<rparr>) cn in
      if current_phase (clients cn c) = CANCELED then close_connection cb cn c
      else if current_phase (clients cn c) = PENDING then
        (let (h, q) = remove_node (clients cn) (com_queue cn) c;
             h = h(c := (h c)\<lparr>io_state := NOOP\<rparr>);
             (h, aq) = add_last h (action_queue cn) c
         in cn\<lparr>clients := h, com_queue := q, action_queue := aq,
               notifications := notifications cn + 1\<rparr>)
      else cn)"

text \<open>A reply that is out: the client is closed or reads its next request.\<close>

definition finish_send :: "'b char_buffer_ops \<Rightarrow> 'b connector \<Rightarrow> nat \<Rightarrow> 'b connector" where
  "finish_send cb cn c =
     (let cn = set_client c ((clients cn c)\<lparr>current_phase := next_phase (clients cn c)\<rparr>) cn in
      if current_phase (clients cn c) = CANCELED then close_connection cb cn c
      else if current_phase (clients cn c) = RECV then
        set_client c ((clear_io_buffer (clients cn c))\<lparr>next_phase := PENDING, io_state := READ\<rparr>) cn
      else cn)"

definition client_io ::
  "'b char_buffer_ops \<Rightarrow> os_env \<Rightarrow> fd_set \<Rightarrow> fd_set \<Rightarrow> 'b connector \<Rightarrow> nat \<Rightarrow> 'b connector option" where
  "client_io cb env rd wr cn c =
     (let cl = clients cn c in
      if current_phase cl = CANCELED then Some (close_connection cb cn c)
      else
        (case FD_ISSET (socket_fd cl) rd of
           None \<Rightarrow> None
         | Some True \<Rightarrow>
             (case receive_message cb (os_recv env) cn c of
                (complete, cn) \<Rightarrow> Some (if complete then finish_receive cb cn c else cn))
         | Some False \<Rightarrow>
             (case FD_ISSET (socket_fd cl) wr of
                None \<Rightarrow> None
              | Some True \<Rightarrow>
                  (case send_message cb (os_send env) cn c of
                     (complete, cn) \<Rightarrow> Some (if complete then finish_send cb cn c else cn))
              | Some False \<Rightarrow> Some cn)))"

text \<open>
  The loop over \<open>com_queue\<close>: the next client is read before the I/O, which may take the
  current one off the queue. The value is \<open>None\<close> if a descriptor is invalid or the links do
  not end.
\<close>

partial_function (option) io_walk ::
  "'b char_buffer_ops \<Rightarrow> os_env \<Rightarrow> fd_set \<Rightarrow> fd_set \<Rightarrow> 'b connector \<Rightarrow> nat option \<Rightarrow> 'b connector option" where
  "io_walk cb env rd wr cn client =
     (case client of
        None \<Rightarrow> Some cn
      | Some c \<Rightarrow>
          (let next_client = get_next_node (clients cn) c in
           case client_io cb env rd wr cn c of
             None \<Rightarrow> None
           | Some cn \<Rightarrow> io_walk cb env rd wr cn next_client))"

definition io_pass ::
  "'b char_buffer_ops \<Rightarrow> os_env \<Rightarrow> fd_set \<Rightarrow> fd_set \<Rightarrow> 'b connector \<Rightarrow> 'b connector option" where
  "io_pass cb env rd wr cn = io_walk cb env rd wr cn (get_first (com_queue cn))"

section \<open>The selector loop\<close>

partial_function (option) collect_fds ::
  "(nat \<Rightarrow> 'b net_client) \<Rightarrow> nat option \<Rightarrow> fd_set \<times> fd_set \<times> int \<Rightarrow> (fd_set \<times> fd_set \<times> int) option" where
  "collect_fds h client sets =
     (case client of
        None \<Rightarrow> Some sets
      | Some c \<Rightarrow>
          (case sets of (rd, wr, max_fd) \<Rightarrow>
             (if io_state (h c) = READ then
                (case FD_SET (socket_fd (h c)) rd of
                   None \<Rightarrow> None
                 | Some rd \<Rightarrow> collect_fds h (get_next_node h c) (rd, wr, max max_fd (socket_fd (h c))))
              else if io_state (h c) = WRITE then
                (case FD_SET (socket_fd (h c)) wr of
                   None \<Rightarrow> None
                 | Some wr \<Rightarrow> collect_fds h (get_next_node h c) (rd, wr, max max_fd (socket_fd (h c))))
              else collect_fds h (get_next_node h c) sets)))"

definition build_fd_sets :: "'b connector \<Rightarrow> (fd_set \<times> fd_set \<times> int) option" where
  "build_fd_sets cn =
     (case FD_SET (trigger_read_fd cn) {} of
        None \<Rightarrow> None
      | Some rd \<Rightarrow>
          (let max_fd = max 0 (trigger_read_fd cn) in
           if get_free_count (client_pool cn) \<ge> 1 then
             (case FD_SET (server_fd cn) rd of
                None \<Rightarrow> None
              | Some rd \<Rightarrow> collect_fds (clients cn) (get_first (com_queue cn))
                             (rd, {}, max max_fd (server_fd cn)))
           else collect_fds (clients cn) (get_first (com_queue cn)) (rd, {}, max_fd)))"

datatype select_result = Ready fd_set fd_set | SelectEINTR | SelectFailed

text \<open>
  One iteration: the sets, \<open>select\<close>, the pending connection, the trigger pipe (read until it
  is empty), the clients. The results of the system calls come with it.
\<close>

record iteration = os_env +
  os_select :: "fd_set \<Rightarrow> fd_set \<Rightarrow> select_result"
  os_accept :: accept_result
  os_signal :: bool

definition drain_trigger :: "'b connector \<Rightarrow> 'b connector" where
  "drain_trigger cn = cn\<lparr>trigger_pipe := []\<rparr>"

definition after_select ::
  "'b char_buffer_ops \<Rightarrow> iteration \<Rightarrow> fd_set \<Rightarrow> fd_set \<Rightarrow> 'b connector \<Rightarrow> 'b connector option" where
  "after_select cb it rd wr cn =
     (case FD_ISSET (server_fd cn) rd of
        None \<Rightarrow> None
      | Some ready \<Rightarrow>
          (let cn = (if ready then accept_connection cb (os_accept it) cn else cn) in
           case FD_ISSET (trigger_read_fd cn) rd of
             None \<Rightarrow> None
           | Some triggered \<Rightarrow>
               io_pass cb (os_env.truncate it) rd wr (if triggered then drain_trigger cn else cn)))"

definition selector_iteration ::
  "'b char_buffer_ops \<Rightarrow> iteration \<Rightarrow> 'b connector \<Rightarrow> (cpp_exception, 'b connector) outcome" where
  "selector_iteration cb it cn =
     (case build_fd_sets cn of
        None \<Rightarrow> Undefined_Behaviour
      | Some (rd, wr, max_fd) \<Rightarrow>
          if max_fd \<ge> INT_MAX then Raised (OsException INVALID_SELECT_FD) cn
          else
            (case os_select it rd wr of
               SelectFailed \<Rightarrow> Raised (OsException IO_ERROR) cn
             | SelectEINTR \<Rightarrow> Normal cn
             | Ready rd wr \<Rightarrow>
                 (case after_select cb it rd wr cn of
                    None \<Rightarrow> Undefined_Behaviour
                  | Some cn \<Rightarrow> Normal cn)))"

text \<open>
  The loop over a finite number of iterations; a signal that arrives before one of them ends
  it. The flag tells whether the loop has ended.
\<close>

fun selector_iterations ::
  "'b char_buffer_ops \<Rightarrow> iteration list \<Rightarrow> 'b connector \<Rightarrow> (cpp_exception, bool \<times> 'b connector) outcome" where
  "selector_iterations cb [] cn = Normal (is_signaled (stop_signal cn), cn)"
| "selector_iterations cb (it # its) cn =
     (let cn = (if os_signal it then cn\<lparr>stop_signal := signal (stop_signal cn)\<rparr> else cn) in
      if is_signaled (stop_signal cn) then Normal (True, cn)
      else
        (case selector_iteration cb it cn of
           Normal cn \<Rightarrow> selector_iterations cb its cn
         | Raised e cn \<Rightarrow> Raised e (False, cn)
         | Undefined_Behaviour \<Rightarrow> Undefined_Behaviour))"

definition selector_loop ::
  "'b char_buffer_ops \<Rightarrow> iteration list \<Rightarrow> 'b connector \<Rightarrow> (cpp_exception, bool \<times> 'b connector) outcome" where
  "selector_loop cb its cn =
     selector_iterations cb its
       (cn\<lparr>stop_signal := enable_wakeup_fd (stop_signal cn) (trigger_write_fd cn)\<rparr>)"

section \<open>The worker side\<close>

definition wakeup_selector :: "write_result list \<Rightarrow> 'b connector \<Rightarrow> 'b connector option" where
  "wakeup_selector rs cn =
     (if trigger_write_fd cn \<noteq> FD_NONE
      then map_option (\<lambda>pipe. cn\<lparr>trigger_pipe := pipe\<rparr>) (write_trigger rs (trigger_pipe cn))
      else Some cn)"

text \<open>
  \<open>process_action_queue\<close> in the sections its locks cut it into: take a request (holding
  \<open>action_queue_lock\<close>), execute it (no lock), put the client back or close it.
\<close>

definition worker_take :: "'b connector \<Rightarrow> nat option \<times> 'b connector" where
  "worker_take cn =
     (case remove_first (clients cn) (action_queue cn) of
        (r, h, q) \<Rightarrow> (r, cn\<lparr>clients := h, action_queue := q\<rparr>))"

definition worker_execute ::
  "'b char_buffer_ops \<Rightarrow> 'p plugin_env \<Rightarrow> fence_server \<Rightarrow> 'b connector \<Rightarrow> nat \<Rightarrow> 'p \<Rightarrow>
   (cpp_exception, 'b connector \<times> 'p) outcome" where
  "worker_execute cb penv srv cn c p =
     (case process_client_message cb penv srv ((clients cn c)\<lparr>current_phase := EXECUTING\<rparr>) p of
        Normal (cl, p) \<Rightarrow> Normal (set_client c cl cn, p)
      | Raised e (cl, p) \<Rightarrow> Raised e (set_client c cl cn, p)
      | Undefined_Behaviour \<Rightarrow> Undefined_Behaviour)"

definition worker_finish ::
  "'b char_buffer_ops \<Rightarrow> write_result list \<Rightarrow> 'b connector \<Rightarrow> nat \<Rightarrow> 'b connector option" where
  "worker_finish cb rs cn c =
     (if current_phase (clients cn c) = RECV \<or> current_phase (clients cn c) = SEND then
        (if \<not> is_signaled (stop_signal cn) then
           (let (h, q) = add_last (clients cn) (com_queue cn) c
            in wakeup_selector rs (cn\<lparr>clients := h, com_queue := q\<rparr>))
         else Some (close_connection cb cn c))
      else Some (close_connection cb cn c))"

text \<open>
  The whole function, run by one worker alone. The first component of the result tells
  whether \<open>action_queue_lock\<close> is held on return, as the caller expects: it is not when an
  exception ended the loop.
\<close>

partial_function (option) process_action_queue ::
  "'b char_buffer_ops \<Rightarrow> 'p plugin_env \<Rightarrow> fence_server \<Rightarrow> (nat \<Rightarrow> write_result list) \<Rightarrow> 'b connector \<Rightarrow> 'p \<Rightarrow>
   (bool \<times> 'b connector \<times> 'p) option" where
  "process_action_queue cb penv srv wake cn p =
     (case worker_take cn of
        (None, cn) \<Rightarrow> Some (True, cn, p)
      | (Some c, cn) \<Rightarrow>
          (case worker_execute cb penv srv cn c p of
             Undefined_Behaviour \<Rightarrow> None
           | Raised e (cn, p) \<Rightarrow> Some (False, cn, p)
           | Normal (cn, p) \<Rightarrow>
               (case worker_finish cb (wake c) cn c of
                  None \<Rightarrow> None
                | Some cn \<Rightarrow> process_action_queue cb penv srv wake cn p)))"

section \<open>Shutdown\<close>

partial_function (option) close_action_queue ::
  "'b char_buffer_ops \<Rightarrow> 'b connector \<Rightarrow> 'b connector option" where
  "close_action_queue cb cn =
     (case remove_first (clients cn) (action_queue cn) of
        (None, h, q) \<Rightarrow> Some (cn\<lparr>clients := h, action_queue := q\<rparr>)
      | (Some c, h, q) \<Rightarrow>
          close_action_queue cb (close_connection cb (cn\<lparr>clients := h, action_queue := q\<rparr>) c))"

partial_function (option) close_com_queue ::
  "'b char_buffer_ops \<Rightarrow> 'b connector \<Rightarrow> 'b connector option" where
  "close_com_queue cb cn =
     (case remove_first (clients cn) (com_queue cn) of
        (None, h, q) \<Rightarrow> Some (cn\<lparr>clients := h, com_queue := q\<rparr>)
      | (Some c, h, q) \<Rightarrow>
          close_com_queue cb (close_connection cb (cn\<lparr>clients := h, com_queue := q\<rparr>) c))"

definition cleanup :: "'b char_buffer_ops \<Rightarrow> 'b connector \<Rightarrow> 'b connector option" where
  "cleanup cb cn =
     (let (fd, closed) = close_fd (server_fd cn) (closed_fds cn);
          cn = cn\<lparr>server_fd := fd, closed_fds := closed\<rparr>
      in case close_action_queue cb cn of
           None \<Rightarrow> None
         | Some cn \<Rightarrow>
             (let cn = cn\<lparr>stop_signal := signal (disable_wakeup_fd (stop_signal cn))\<rparr>
              in case close_com_queue cb cn of
                   None \<Rightarrow> None
                 | Some cn \<Rightarrow>
                     (let (rfd, closed) = close_fd (trigger_read_fd cn) (closed_fds cn);
                          (wfd, closed) = close_fd (trigger_write_fd cn) closed
                      in Some (cn\<lparr>trigger_read_fd := rfd, trigger_write_fd := wfd,
                                  closed_fds := closed\<rparr>))))"

end
