(* ===== verification/Message_Framing.thy ===== *)
theory Message_Framing
  imports Server_Connector
begin

text \<open>
  What \<open>receive_message\<close> and \<open>send_message\<close> do over several calls: the buffer is never
  overrun, one message is assembled from any splitting of the stream, and one reply goes out
  whatever \<open>send\<close> takes at a time.
\<close>

section \<open>Receiving: the invariant\<close>

abbreviation length_field :: "'b net_client \<Rightarrow> nat" where
  "length_field cl \<equiv> unat (data_length (header cl))"

definition recv_inv :: "'b net_client \<Rightarrow> bool" where
  "recv_inv cl \<longleftrightarrow> length (io_buffer cl) = IO_BUFFER_SIZE \<and>
     (if have_header cl
      then HEADER_SIZE \<le> io_offset cl \<and> io_offset cl < length_field cl \<and> length_field cl \<le> IO_BUFFER_SIZE
      else io_offset cl < HEADER_SIZE)"

definition message_complete :: "'b net_client \<Rightarrow> bool" where
  "message_complete cl \<longleftrightarrow> length (io_buffer cl) = IO_BUFFER_SIZE \<and> have_header cl \<and>
     io_offset cl = max HEADER_SIZE (length_field cl) \<and> length_field cl \<le> IO_BUFFER_SIZE"

lemma cap_data_length_sel:
  "msg_type (cap_data_length h) = msg_type h"
  "unat (data_length (cap_data_length h)) = min (unat (data_length h)) IO_BUFFER_SIZE"
  by (simp_all add: cap_data_length_def bounds_simps)

lemma req_read_size_eq:
  assumes "recv_inv cl"
  shows "req_read_size cl =
    (if have_header cl then length_field cl - io_offset cl else HEADER_SIZE - io_offset cl)"
  using assms by (auto simp: recv_inv_def req_read_size_def split: if_splits)

lemma req_read_size_bounds:
  assumes "recv_inv cl"
  shows "0 < req_read_size cl" "io_offset cl + req_read_size cl \<le> IO_BUFFER_SIZE"
  using assms req_read_size_eq [OF assms]
  by (auto simp: recv_inv_def bounds_simps split: if_splits)

text \<open>What a chunk of data makes of the client, in terms of the bytes received so far.\<close>

lemma receive_bytes_sel:
  assumes "receive_bytes cl data = (complete, cl')"
  shows "io_offset cl' = io_offset cl + length data"
    "io_buffer cl' = blit (io_buffer cl) (io_offset cl) data"
    "socket_fd cl' = socket_fd cl" "current_phase cl' = current_phase cl"
    "next_phase cl' = next_phase cl" "io_state cl' = io_state cl"
    "next_node cl' = next_node cl" "prev_node cl' = prev_node cl"
    "nodename cl' = nodename cl" "secret cl' = secret cl"
    "key_buffer cl' = key_buffer cl" "value_buffer cl' = value_buffer cl"
    "address cl' = address cl" "address_length cl' = address_length cl"
  using assms by (auto simp: receive_bytes_def Let_def split: if_splits)

lemma receive_bytes_inv:
  assumes inv: "recv_inv cl" and len: "length data \<le> req_read_size cl"
    and eq: "receive_bytes cl data = (complete, cl')"
  shows "if complete then message_complete cl' else recv_inv cl'"
proof -
  note sel = receive_bytes_sel [OF eq]
  have buf: "length (io_buffer cl') = IO_BUFFER_SIZE"
    using inv len req_read_size_bounds(2) [OF inv] by (simp add: sel recv_inv_def)
  show ?thesis
  proof (cases "have_header cl")
    case True
    then have "complete = (io_offset cl' \<ge> length_field cl)" "have_header cl'" "header cl' = header cl"
      using eq by (auto simp: receive_bytes_def Let_def)
    with True inv len sel buf show ?thesis
      by (auto simp: recv_inv_def message_complete_def req_read_size_eq [OF inv])
  next
    case False
    with inv len have off: "io_offset cl' \<le> HEADER_SIZE"
      by (auto simp: sel req_read_size_eq [OF inv] recv_inv_def)
    show ?thesis
    proof (cases "io_offset cl' \<ge> HEADER_SIZE")
      case True
      with False eq sel have "have_header cl'" "complete = (length_field cl' \<le> HEADER_SIZE)"
        "length_field cl' \<le> IO_BUFFER_SIZE"
        by (auto simp: receive_bytes_def Let_def cap_data_length_sel split: if_splits)
      with True off buf show ?thesis
        by (auto simp: recv_inv_def message_complete_def)
    next
      case incomplete: False
      with False eq sel have "\<not> have_header cl'" "\<not> complete"
        by (auto simp: receive_bytes_def Let_def split: if_splits)
      with incomplete buf show ?thesis by (simp add: recv_inv_def)
    qed
  qed
qed

section \<open>Receiving: one message from any splitting\<close>

text \<open>
  The length of the message a stream starts with, as the server reads it: the length field,
  at most the buffer and at least the header.
\<close>

definition frame_length :: "bytes \<Rightarrow> nat" where
  "frame_length stream =
     max HEADER_SIZE (min (unat (bytes_to_field_value stream DATA_LENGTH_OFFSET)) IO_BUFFER_SIZE)"

text \<open>
  Successive calls: each delivers at most \<open>Suc k\<close> bytes of what is left of the stream and at
  most what was asked for.
\<close>

fun receive_all ::
  "'b net_client \<Rightarrow> nat list \<Rightarrow> bytes \<Rightarrow> bool \<times> 'b net_client \<times> bytes" where
  "receive_all cl [] stream = (False, cl, stream)"
| "receive_all cl (k # ks) stream =
     (let n = min (Suc k) (req_read_size cl); data = take n stream in
      if data = [] then (False, cl, stream)
      else (case receive_bytes cl data of
              (True, cl) \<Rightarrow> (True, cl, drop n stream)
            | (False, cl) \<Rightarrow> receive_all cl ks (drop n stream)))"

text \<open>The client has taken the first \<open>io_offset\<close> bytes of the stream.\<close>

definition has_read :: "'b net_client \<Rightarrow> bytes \<Rightarrow> bool" where
  "has_read cl stream \<longleftrightarrow> take (io_offset cl) (io_buffer cl) = take (io_offset cl) stream \<and>
     (have_header cl \<longrightarrow> (\<exists>h. header cl = cap_data_length (deserialize h stream)))"

lemma frame_length_header:
  "frame_length stream =
   max HEADER_SIZE (unat (data_length (cap_data_length (deserialize h stream))))"
  by (simp add: frame_length_def cap_data_length_sel deserialize_def)

lemma receive_bytes_has_read:
  assumes inv: "recv_inv cl" and read: "has_read cl stream"
    and n: "n \<le> req_read_size cl" "io_offset cl + n \<le> length stream"
    and eq: "receive_bytes cl (take n (drop (io_offset cl) stream)) = (complete, cl')"
  shows "has_read cl' stream \<and> io_offset cl' = io_offset cl + n"
proof -
  note sel = receive_bytes_sel [OF eq]
  have len: "length (take n (drop (io_offset cl) stream)) = n" using n by simp
  have off: "io_offset cl \<le> length (io_buffer cl)"
    using inv by (auto simp: recv_inv_def bounds_simps split: if_splits)
  have tk: "take (io_offset cl') (io_buffer cl') = take (io_offset cl') stream"
    using take_blit [OF off, of "take n (drop (io_offset cl) stream)"] read len sel
    by (simp add: has_read_def take_add)
  have "\<exists>h. header cl' = cap_data_length (deserialize h stream)" if h: "have_header cl'"
  proof (cases "have_header cl")
    case True
    with eq read show ?thesis by (auto simp: receive_bytes_def Let_def has_read_def)
  next
    case False
    with h eq sel have le: "HEADER_SIZE \<le> io_offset cl'"
      and hd: "header cl' = cap_data_length (deserialize (header cl) (io_buffer cl'))"
      by (auto simp: receive_bytes_def Let_def split: if_splits)
    from tk le have "take HEADER_SIZE (io_buffer cl') = take HEADER_SIZE stream"
      by (metis min.absorb1 take_take)
    from deserialize_take [OF this] hd show ?thesis by metis
  qed
  with tk len sel show ?thesis by (simp add: has_read_def)
qed

lemma read_within_frame:
  assumes inv: "recv_inv cl" and read: "has_read cl stream"
  shows "io_offset cl + req_read_size cl \<le> frame_length stream"
proof (cases "have_header cl")
  case True
  with read obtain h where "header cl = cap_data_length (deserialize h stream)"
    by (auto simp: has_read_def)
  then have "frame_length stream = max HEADER_SIZE (length_field cl)"
    using frame_length_header [of stream h] by simp
  with True inv show ?thesis by (simp add: req_read_size_eq [OF inv] recv_inv_def)
next
  case False
  with inv show ?thesis by (simp add: req_read_size_eq [OF inv] recv_inv_def frame_length_def)
qed

lemma receive_all_frame:
  assumes "recv_inv cl" and "has_read cl stream" and "rest = drop (io_offset cl) stream"
    and "frame_length stream \<le> length stream"
    and "frame_length stream \<le> io_offset cl + length ks"
  shows "\<exists>cl'. receive_all cl ks rest = (True, cl', drop (frame_length stream) stream) \<and>
    message_complete cl' \<and> has_read cl' stream \<and> io_offset cl' = frame_length stream"
  using assms
proof (induction ks arbitrary: cl rest)
  case Nil
  have "io_offset cl < frame_length stream"
    using read_within_frame [OF Nil.prems(1,2)] req_read_size_bounds(1) [OF Nil.prems(1)] by simp
  with Nil.prems show ?case by simp
next
  case (Cons k ks)
  let ?n = "min (Suc k) (req_read_size cl)"
  note bounds = req_read_size_bounds [OF Cons.prems(1)]
  have req: "io_offset cl + req_read_size cl \<le> frame_length stream"
    by (rule read_within_frame [OF Cons.prems(1,2)])
  then have fits: "io_offset cl + ?n \<le> length stream" using Cons.prems(4) by linarith
  have data: "take ?n rest = take ?n (drop (io_offset cl) stream)" "take ?n rest \<noteq> []"
    using Cons.prems(3) fits bounds by (auto simp: min_def split: if_splits)
  have nonempty: "rest \<noteq> []" using data(2) by auto
  obtain complete cl1 where rb: "receive_bytes cl (take ?n rest) = (complete, cl1)" by fastforce
  have hr: "has_read cl1 stream" "io_offset cl1 = io_offset cl + ?n"
    using receive_bytes_has_read [OF Cons.prems(1,2) _ fits, of complete cl1] rb data by simp_all
  have inv: "if complete then message_complete cl1 else recv_inv cl1"
    by (rule receive_bytes_inv [OF Cons.prems(1) _ rb]) simp
  have rest: "drop ?n rest = drop (io_offset cl1) stream"
    using Cons.prems(3) hr by (simp add: add.commute)
  show ?case
  proof (cases complete)
    case True
    with inv have mc: "message_complete cl1" by simp
    then obtain h where "header cl1 = cap_data_length (deserialize h stream)"
      using hr(1) by (auto simp: message_complete_def has_read_def)
    with mc have "io_offset cl1 = frame_length stream"
      using frame_length_header [of stream h] by (simp add: message_complete_def)
    with True mc hr rb rest data nonempty bounds(1) show ?thesis by (simp add: Let_def)
  next
    case False
    with inv have inv1: "recv_inv cl1" by simp
    have "frame_length stream \<le> io_offset cl1 + length ks"
      using Cons.prems(5) hr(2) bounds(1) by (simp add: min_def)
    from Cons.IH [OF inv1 hr(1) rest Cons.prems(4) this] False rb data nonempty bounds(1) show ?thesis
      by (simp add: Let_def)
  qed
qed

section \<open>Sending\<close>

definition send_inv :: "'b net_client \<Rightarrow> bool" where
  "send_inv cl \<longleftrightarrow> length (io_buffer cl) = IO_BUFFER_SIZE \<and>
     (if have_header cl
      then HEADER_SIZE \<le> length_field cl \<and> length_field cl \<le> IO_BUFFER_SIZE \<and>
        io_offset cl < length_field cl
      else io_offset cl = 0)"

lemma prepare_send_inv:
  assumes "send_inv cl"
  shows "send_inv (prepare_send cl)" "have_header (prepare_send cl)"
  using assms by (auto simp: send_inv_def prepare_send_def Let_def bounds_simps)

lemma prepare_send_have_header: "have_header cl \<Longrightarrow> prepare_send cl = cl"
  by (simp add: prepare_send_def)

lemma unat_uint16: "n \<le> 1024 \<Longrightarrow> unat (of_nat n :: uint16) = n"
  by (simp add: unsigned_of_nat take_bit_nat_eq_self)

lemma unat_min: "unat (min a b) = min (unat a) (unat b)" for a b :: "'a::len word"
  by (simp add: min_def word_le_nat_alt)

lemma req_write_size_eq:
  assumes "send_inv cl" and "have_header cl"
  shows "req_write_size cl = length_field cl - io_offset cl"
proof -
  let ?r = "length_field cl - io_offset cl"
  have r: "?r \<le> 1024" "io_offset cl \<le> length_field cl"
    using assms by (auto simp: send_inv_def bounds_simps)
  show ?thesis
    unfolding req_write_size_def unat_min size_sub_le [OF r(2)] unat_uint16 [OF r(1)]
    using r(1) by (simp add: unat_uint16 bounds_simps)
qed

lemma send_buffer_eq:
  assumes "send_inv cl" and "have_header cl"
  shows "send_buffer cl = segment (io_offset cl) (length_field cl) (io_buffer cl)"
    "length (send_buffer cl) = length_field cl - io_offset cl" "0 < length (send_buffer cl)"
proof -
  have le: "io_offset cl + req_write_size cl = length_field cl" "io_offset cl < length_field cl"
    "length_field cl \<le> length (io_buffer cl)"
    using assms req_write_size_eq [OF assms] by (simp_all add: send_inv_def)
  then show "send_buffer cl = segment (io_offset cl) (length_field cl) (io_buffer cl)"
    by (simp add: send_buffer_def)
  with le show "length (send_buffer cl) = length_field cl - io_offset cl"
    "0 < length (send_buffer cl)" by simp_all
qed

lemma sent_bytes_inv:
  assumes "send_inv cl" and "have_header cl" and "n \<le> length (send_buffer cl)"
    and "sent_bytes cl n = (complete, cl')"
  shows "io_offset cl' = io_offset cl + n \<and> io_buffer cl' = io_buffer cl \<and> header cl' = header cl \<and>
    have_header cl' \<and> complete = (io_offset cl' = length_field cl) \<and> (\<not> complete \<longrightarrow> send_inv cl')"
  using assms send_buffer_eq(2) [OF assms(1,2)]
  by (auto simp: sent_bytes_def send_inv_def Let_def split: if_splits)

text \<open>
  Successive calls, each of which takes at most \<open>Suc k\<close> bytes: whether the reply is out, the
  client, and the bytes the peer has got.
\<close>

fun send_all :: "'b net_client \<Rightarrow> nat list \<Rightarrow> bool \<times> 'b net_client \<times> bytes" where
  "send_all cl [] = (False, cl, [])"
| "send_all cl (k # ks) =
     (let cl = prepare_send cl; n = min (Suc k) (length (send_buffer cl)); out = take n (send_buffer cl)
      in case sent_bytes cl n of
           (True, cl) \<Rightarrow> (True, cl, out)
         | (False, cl) \<Rightarrow> (case send_all cl ks of (complete, cl, later) \<Rightarrow> (complete, cl, out @ later)))"

lemma send_all_rest:
  assumes "send_inv cl" and "have_header cl" and "length_field cl \<le> io_offset cl + length ks"
  shows "\<exists>cl'. send_all cl ks = (True, cl', segment (io_offset cl) (length_field cl) (io_buffer cl))"
  using assms
proof (induction ks arbitrary: cl)
  case Nil
  then show ?case by (simp add: send_inv_def)
next
  case (Cons k ks)
  let ?n = "min (Suc k) (length (send_buffer cl))"
  obtain complete cl1 where sb: "sent_bytes cl ?n = (complete, cl1)" by fastforce
  note s1 = sent_bytes_inv [OF Cons.prems(1,2) _ sb]
  note buf = send_buffer_eq [OF Cons.prems(1,2)]
  have n: "0 < ?n" "?n \<le> length_field cl - io_offset cl" using buf by auto
  have split: "segment (io_offset cl) (length_field cl) (io_buffer cl) =
      take ?n (send_buffer cl) @ segment (io_offset cl + ?n) (length_field cl) (io_buffer cl)"
    unfolding buf(1) by (rule segment_split)
  show ?case
  proof (cases complete)
    case True
    with s1 sb split show ?thesis
      by (simp add: prepare_send_have_header [OF Cons.prems(2)] segment_def)
  next
    case False
    have o1: "io_offset cl1 = io_offset cl + ?n" and h1: "header cl1 = header cl"
      and p3: "length_field cl \<le> io_offset cl + Suc (length ks)"
      using s1 Cons.prems(3) by simp_all
    have "length_field cl1 \<le> io_offset cl1 + length ks"
      unfolding o1 h1 using p3 n(1) by linarith
    with s1 False
    have "\<exists>cl'. send_all cl1 ks = (True, cl', segment (io_offset cl1) (length_field cl1) (io_buffer cl1))"
      by (intro Cons.IH) auto
    with False s1 sb split show ?thesis
      by (auto simp: prepare_send_have_header [OF Cons.prems(2)])
  qed
qed

text \<open>A whole reply, from a client that has not started to send it.\<close>

lemma send_all_reply:
  assumes "length (io_buffer cl) = IO_BUFFER_SIZE" and "io_offset cl = 0" and "\<not> have_header cl"
    and "n = max HEADER_SIZE (min (unat (data_length (header cl))) IO_BUFFER_SIZE)"
    and "n \<le> length ks"
  shows "\<exists>cl'. send_all cl ks = (True, cl',
    take n (serialize \<lparr>msg_type = msg_type (header cl), data_length = of_nat n\<rparr> (io_buffer cl)))"
proof -
  let ?h = "\<lparr>msg_type = msg_type (header cl), data_length = of_nat n\<rparr>"
  let ?p = "prepare_send cl"
  have inv: "send_inv cl" using assms(1-3) by (simp add: send_inv_def)
  have n: "HEADER_SIZE \<le> n" "n \<le> 1024" using assms(4) by (auto simp: bounds_simps)
  have hd: "header ?p = ?h" "io_offset ?p = 0"
    using assms(2-4) by (cases "header cl"; auto simp: prepare_send_def Let_def bounds_simps)+
  have buf: "io_buffer ?p = serialize ?h (io_buffer cl)"
    unfolding hd(1) [symmetric] using assms(3) by (simp add: prepare_send_def Let_def)
  have lf: "length_field ?p = n" unfolding hd(1) using unat_uint16 [OF n(2)] by simp
  obtain k ks' where ks: "ks = k # ks'" using assms(5) n by (cases ks) (auto simp: bounds_simps)
  have "send_all cl ks = send_all ?p ks"
    by (simp add: ks prepare_send_have_header [OF prepare_send_inv(2) [OF inv]])
  moreover from send_all_rest [OF prepare_send_inv [OF inv], of ks] lf hd(2) assms(5)
  obtain cl' where "send_all ?p ks = (True, cl', segment 0 n (io_buffer ?p))" by auto
  ultimately show ?thesis using buf by (simp add: segment_0)
qed

section \<open>Properties\<close>

text \<open>
  Property C13. However the stream is cut into pieces, a client that starts on an empty buffer
  gets exactly its first message: the completed buffer holds the first \<open>frame_length\<close> bytes,
  the header is the one on the wire with the length capped at the buffer size, and the bytes
  of the next message are left in the stream.
\<close>

theorem receive_any_chunking:
  assumes "length (io_buffer cl) = IO_BUFFER_SIZE" and "io_offset cl = 0" and "\<not> have_header cl"
    and "frame_length stream \<le> length stream" and "frame_length stream \<le> length ks"
  shows "\<exists>cl'. receive_all cl ks stream = (True, cl', drop (frame_length stream) stream) \<and>
    io_offset cl' = frame_length stream \<and> have_header cl' \<and>
    take (frame_length stream) (io_buffer cl') = take (frame_length stream) stream \<and>
    msg_type (header cl') = bytes_to_field_value stream MSG_TYPE_OFFSET \<and>
    unat (data_length (header cl')) =
      min (unat (bytes_to_field_value stream DATA_LENGTH_OFFSET)) IO_BUFFER_SIZE"
proof -
  have "recv_inv cl" "has_read cl stream"
    using assms(1-3) by (simp_all add: recv_inv_def has_read_def bounds_simps)
  from receive_all_frame [OF this _ assms(4), of stream ks] assms(2,5) obtain cl' where
    r: "receive_all cl ks stream = (True, cl', drop (frame_length stream) stream)"
      "message_complete cl'" "has_read cl' stream" "io_offset cl' = frame_length stream"
    by auto
  then show ?thesis
    by (auto simp: message_complete_def has_read_def cap_data_length_sel deserialize_def)
qed

theorem receive_any_chunking_witness:
  "\<exists>cl'. receive_all ((new_net_client bounded_ops (replicate 1024 0))) [0, 4, 0, 0, 1, 9]
      [0, 0x81, 0, 6, 7, 8, 99] = (True, cl', [99]) \<and> take 6 (io_buffer cl') = [0, 0x81, 0, 6, 7, 8]"
proof -
  let ?cl = "new_net_client bounded_ops (replicate 1024 0)"
  let ?s = "[0, 0x81, 0, 6, 7, 8, 99] :: bytes"
  have f: "frame_length ?s = 6"
    by (simp add: frame_length_def bytes_to_field_value_def bounds_simps Let_def)
  have c: "length (io_buffer ?cl) = IO_BUFFER_SIZE" "io_offset ?cl = 0" "\<not> have_header ?cl"
    by (simp_all add: new_net_client_def bounds_simps)
  have l: "frame_length ?s \<le> length ?s" "frame_length ?s \<le> length [0, 4, 0, 0, 1, 9 :: nat]"
    by (simp_all add: f)
  show ?thesis using receive_any_chunking [OF c l] by (auto simp: f)
qed

text \<open>
  Property C21. \<open>receive_message\<close> never writes outside the I/O buffer: it asks for at least one
  byte and at most what fits behind the offset, and with any result the system call may give
  the client is afterwards between two messages' bytes again, complete, or closed.
\<close>

theorem receive_message_in_bounds:
  assumes inv: "recv_inv (clients cn c)" and os: "\<And>fd n. recv_allowed n (recv fd n)"
    and eq: "receive_message cb recv cn c = (complete, cn')"
  shows "0 < req_read_size (clients cn c) \<and>
    io_offset (clients cn c) + req_read_size (clients cn c) \<le> length (io_buffer (clients cn c)) \<and>
    (if complete then message_complete (clients cn' c)
     else recv_inv (clients cn' c) \<or> cn' = close_connection cb cn c)"
proof -
  let ?cl = "clients cn c"
  let ?r = "recv (socket_fd ?cl) (req_read_size ?cl)"
  have len: "length data \<le> req_read_size ?cl" if "?r = Received data" for data
    using os [where fd = "socket_fd ?cl" and n = "req_read_size ?cl"] that by (simp add: recv_allowed_def)
  have "if complete then message_complete (clients cn' c)
     else recv_inv (clients cn' c) \<or> cn' = close_connection cb cn c"
  proof (cases ?r)
    case (Received data)
    show ?thesis
    proof (cases "data = []")
      case True
      with eq Received show ?thesis by (auto simp: receive_message_def Let_def)
    next
      case False
      obtain f cl' where rb: "receive_bytes ?cl data = (f, cl')" by fastforce
      with eq Received False have "complete = f" "clients cn' c = cl'"
        by (auto simp: receive_message_def Let_def)
      with receive_bytes_inv [OF inv len [OF Received] rb] show ?thesis by simp
    qed
  qed (use eq in \<open>auto simp: receive_message_def Let_def\<close>)
  with req_read_size_bounds [OF inv] inv show ?thesis by (simp add: recv_inv_def)
qed

theorem receive_message_in_bounds_witness:
  "\<exists>complete cn'. receive_message bounded_ops (\<lambda>fd n. Received [7])
      (new_connector bounded_ops (replicate 1024 0) AF_INET6 \<lparr>signal_flag = False, wakeup_fd = -1\<rparr>) 3 =
        (complete, cn') \<and> recv_inv (clients cn' 3)"
proof -
  let ?cn = "new_connector bounded_ops (replicate 1024 0) AF_INET6 \<lparr>signal_flag = False, wakeup_fd = -1\<rparr>"
  have inv: "recv_inv (clients ?cn 3)"
    by (simp add: recv_inv_def new_connector_def init_client_address_def new_net_client_def bounds_simps)
  have os: "recv_allowed n (if n = 0 then EndOfStream else Received [7])" for n
    by (simp add: recv_allowed_def)
  obtain complete cn' where r: "receive_message bounded_ops
      (\<lambda>fd n. if n = 0 then EndOfStream else Received [7]) ?cn 3 = (complete, cn')" by fastforce
  have q: "req_read_size (clients ?cn 3) = 4"
    by (simp add: req_read_size_def new_connector_def init_client_address_def new_net_client_def bounds_simps)
  have r': "receive_message bounded_ops (\<lambda>fd n. Received [7]) ?cn 3 = (complete, cn')"
    using r by (simp add: receive_message_def Let_def q)
  have nc: "receive_message bounded_ops (\<lambda>fd n. Received [7]) ?cn 3 = (False, cn') \<and> recv_inv (clients cn' 3)
      \<or> complete \<or> cn' = close_connection bounded_ops ?cn 3"
    using receive_message_in_bounds [OF inv os r] r' by auto
  moreover have "\<not> complete \<and> io_offset (clients cn' 3) = 1"
    using r' by (auto simp: receive_message_def Let_def receive_bytes_def new_connector_def
        init_client_address_def new_net_client_def bounds_simps)
  ultimately show ?thesis
    by (auto simp: close_connection_def clear_client_def split: prod.splits)
qed

text \<open>
  Property C22. A reply goes out whole and exactly once, however few bytes each \<open>send\<close> takes:
  the peer gets the serialised header and the buffer behind it, as many bytes as the header's
  length field says, which is raised to the header size and cut to the buffer size.
\<close>

theorem reply_sent_exactly:
  assumes "length (io_buffer cl) = IO_BUFFER_SIZE" and "io_offset cl = 0" and "\<not> have_header cl"
    and "n = max HEADER_SIZE (min (unat (data_length (header cl))) IO_BUFFER_SIZE)"
    and "n \<le> length ks"
  shows "\<exists>cl'. send_all cl ks = (True, cl',
    take n (serialize \<lparr>msg_type = msg_type (header cl), data_length = of_nat n\<rparr> (io_buffer cl)))"
  using assms by (rule send_all_reply)

theorem reply_sent_exactly_witness:
  "\<exists>cl'. send_all (echo_reply (new_net_client bounded_ops (replicate 1024 5))) [0, 7, 0, 0] =
    (True, cl', [0, 1, 0, 4])"
proof -
  let ?cl = "echo_reply (new_net_client bounded_ops (replicate 1024 5))"
  have c: "length (io_buffer ?cl) = IO_BUFFER_SIZE" "io_offset ?cl = 0" "\<not> have_header ?cl"
    "4 = max HEADER_SIZE (min (unat (data_length (header ?cl))) IO_BUFFER_SIZE)"
    "4 \<le> length [0, 7, 0, 0 :: nat]"
    by (simp_all add: echo_reply_def new_net_client_def bounds_simps)
  have "take 4 (serialize \<lparr>msg_type = msg_type (header ?cl), data_length = of_nat 4\<rparr> (io_buffer ?cl)) =
      [0, 1, 0, 4]"
  proof -
    have four: "replicate 4 (0 :: byte) = [0, 0, 0, 0]" by (simp add: eval_nat_numeral)
    have "io_buffer ?cl = replicate 1024 0"
      by (simp add: echo_reply_def new_net_client_def bounds_simps)
    then show ?thesis
      by (simp add: echo_reply_def serialize_def field_value_to_bytes_def take_update_swap four
          bounds_simps)
  qed
  with reply_sent_exactly [OF c] show ?thesis by simp
qed

end
