(* ===== verification/Fence_Requests.thy ===== *)
theory Fence_Requests
  imports Net_Client
begin

text \<open>
  What a fencing request does: the field loop against a specification over the fields'
  contents, and \<open>fence_action\<close> and \<open>process_client_message\<close> on every branch.
\<close>

section \<open>What the loop leaves alone\<close>

text \<open>The loop writes the four character buffers of the client and nothing else.\<close>

definition same_but_buffers :: "'b net_client \<Rightarrow> 'b net_client \<Rightarrow> bool" where
  "same_but_buffers cl cl' \<longleftrightarrow>
     cl' = cl\<lparr>key_buffer := key_buffer cl', value_buffer := value_buffer cl',
              nodename := nodename cl', secret := secret cl'\<rparr>"

lemma same_but_buffers_refl [simp]: "same_but_buffers cl cl"
  by (simp add: same_but_buffers_def)

lemma same_but_buffers_trans:
  "same_but_buffers a b \<Longrightarrow> same_but_buffers b c \<Longrightarrow> same_but_buffers a c"
  unfolding same_but_buffers_def by (cases a; cases b; cases c) simp

lemma same_but_buffersD:
  assumes "same_but_buffers cl cl'"
  shows "io_offset cl' = io_offset cl" "io_buffer cl' = io_buffer cl" "header cl' = header cl"
    "current_phase cl' = current_phase cl" "next_phase cl' = next_phase cl"
    "io_state cl' = io_state cl" "socket_fd cl' = socket_fd cl" "have_header cl' = have_header cl"
    "next_node cl' = next_node cl" "prev_node cl' = prev_node cl"
    "address cl' = address cl" "address_length cl' = address_length cl"
  using assms unfolding same_but_buffers_def by (cases cl; cases cl'; simp)+

definition client_caps :: "('b \<Rightarrow> nat) \<Rightarrow> 'b net_client \<Rightarrow> bool" where
  "client_caps cap cl \<longleftrightarrow> cap (key_buffer cl) = FIELD_SIZE \<and> cap (value_buffer cl) = FIELD_SIZE \<and>
     cap (nodename cl) = NODENAME_SIZE \<and> cap (secret cl) = MAX_SECRET_LENGTH"

fun outcome_state :: "('e, 'a) outcome \<Rightarrow> 'a option" where
  "outcome_state (Normal a) = Some a"
| "outcome_state (Raised e a) = Some a"
| "outcome_state Undefined_Behaviour = None"

fun outcome_error :: "('e, 'a) outcome \<Rightarrow> 'e option" where
  "outcome_error (Raised e a) = Some e"
| "outcome_error _ = None"

context char_buffer begin

lemma fence_field_safe:
  assumes "client_caps cap cl"
  shows "\<exists>cl' off'. outcome_state (fence_field cb cl off) = Some (cl', off') \<and>
    same_but_buffers cl cl' \<and> client_caps cap cl' \<and>
    outcome_error (fence_field cb cl off) \<in> {None, Some ProtocolException, Some RangeException}"
proof -
  obtain r off1 key where rd: "read_field cb (io_buffer cl) (io_offset cl) off (key_buffer cl) = (r, off1, key)"
    by (metis prod_cases3)
  obtain u key1 val where sp: "split_key_value_pair cb key (value_buffer cl) = (u, key1, val)"
    by (metis prod_cases3)
  have caps: "cap key = FIELD_SIZE" "cap key1 = FIELD_SIZE" "cap val = FIELD_SIZE"
    using read_field_cap [OF rd] split_key_value_pair_cap [OF sp] assms
    by (simp_all add: client_caps_def)
  have errs: "r = Inl e \<Longrightarrow> e = ProtocolException" "u = Inl e \<Longrightarrow> e = ProtocolException" for e
    using rd sp by (auto dest: read_field_error split_key_value_pair_error)
  show ?thesis
    using assms caps errs
    by (cases r; cases u)
      (auto simp: fence_field_def rd sp Let_def client_caps_def same_but_buffers_def
        split: option.splits dest: assign_cap)
qed

text \<open>
  The loop always ends; it leaves the client with its capacities and everything but the
  character buffers, and throws only the two exceptions of its callees.
\<close>

lemma fence_fields_safe:
  assumes "client_caps cap cl"
  shows "\<exists>cl'. outcome_state (fence_fields cb cl off) = Some cl' \<and>
    same_but_buffers cl cl' \<and> client_caps cap cl' \<and>
    outcome_error (fence_fields cb cl off) \<in> {None, Some ProtocolException, Some RangeException}"
  using assms
proof (induction "io_offset cl - off" arbitrary: cl off rule: less_induct)
  case less
  show ?case
  proof (cases "off < io_offset cl")
    case False
    with less.prems show ?thesis by (simp add: fence_fields_done)
  next
    case True
    from fence_field_safe [OF less.prems, of off] obtain cl1 off1 where
      f: "outcome_state (fence_field cb cl off) = Some (cl1, off1)" "same_but_buffers cl cl1"
        "client_caps cap cl1"
      and e: "outcome_error (fence_field cb cl off) \<in> {None, Some ProtocolException, Some RangeException}"
      by blast
    show ?thesis
    proof (cases "fence_field cb cl off")
      case (Normal c)
      with f(1) have n: "fence_field cb cl off = Normal (cl1, off1)" by simp
      from fence_field_advance [OF n] True have "io_offset cl1 - off1 < io_offset cl - off"
        by (auto intro: diff_less_mono2)
      from less.hyps [OF this f(3)] fence_fields_step [OF True n] f(2) show ?thesis
        by (auto intro: same_but_buffers_trans)
    next
      case (Raised x c)
      with f(1) have n: "fence_field cb cl off = Raised x (cl1, off1)" by simp
      with fence_fields_raise [OF True n] f e show ?thesis by simp
    next
      case Undefined_Behaviour
      with f(1) show ?thesis by simp
    qed
  qed
qed

end

section \<open>The loop against its specification\<close>

text \<open>
  The fields of a request as key and value, the wire form of the request body, and what the
  loop makes of them: the last \<open>NODENAME\<close> and \<open>SECRET\<close> count, other keys are skipped, and a
  value longer than its buffer is \<open>None\<close>.
\<close>

type_synonym request_field = "bytes \<times> bytes"

definition field_text :: "request_field \<Rightarrow> bytes" where
  "field_text kv = fst kv @ ascii ''='' @ snd kv"

definition encode_request :: "request_field list \<Rightarrow> bytes" where
  "encode_request kvs = concat (map (\<lambda>kv. encode_field (field_text kv)) kvs)"

definition request_field_ok :: "request_field \<Rightarrow> bool" where
  "request_field_ok kv \<longleftrightarrow> of_char CHR ''='' \<notin> set (fst kv) \<and> length (field_text kv) \<le> FIELD_SIZE"

fun apply_fields :: "request_field list \<Rightarrow> bytes \<times> bytes \<Rightarrow> (bytes \<times> bytes) option" where
  "apply_fields [] (n, s) = Some (n, s)"
| "apply_fields ((k, v) # kvs) (n, s) =
     (if k = NODENAME then (if length v \<le> NODENAME_SIZE then apply_fields kvs (v, s) else None)
      else if k = SECRET then (if length v \<le> MAX_SECRET_LENGTH then apply_fields kvs (n, v) else None)
      else apply_fields kvs (n, s))"

lemma encode_request_Cons [simp]:
  "encode_request (kv # kvs) = encode_field (field_text kv) @ encode_request kvs"
  by (simp add: encode_request_def)

lemma encode_request_Nil [simp]: "encode_request [] = []"
  by (simp add: encode_request_def)

lemma c_string_keys [simp]: "c_string NODENAME = NODENAME" "c_string SECRET = SECRET"
  by (simp_all add: c_string_def NODENAME_def SECRET_def ascii_def)

lemma NODENAME_neq_SECRET [simp]: "NODENAME \<noteq> SECRET" "SECRET \<noteq> NODENAME"
  by (simp_all add: NODENAME_def SECRET_def ascii_def)

text \<open>A field that starts a segment of the buffer: its length prefix and its text.\<close>

lemma segment_prefix:
  assumes "segment off n buf = encode_field t @ rest" and "off \<le> n" and "n \<le> length buf"
    and "length t \<le> 0xFFFF"
  shows "off + 2 + length t \<le> n" "unat (field_length_at buf off) = length t"
    "segment (off + 2) (off + 2 + length t) buf = t"
    "segment (off + (length t + 2)) n buf = rest"
proof -
  let ?s = "segment off n buf"
  have len: "length ?s = n - off" using assms(2,3) by simp
  with assms(1) have l: "length t + 2 + length rest = n - off" by simp
  then show le: "off + 2 + length t \<le> n" using assms(2) by simp
  have nth: "buf ! (off + i) = ?s ! i" if "i < n - off" for i
    using that assms(2,3) by (simp add: segment_def)
  have "buf ! off = of_nat (length t div 256)" "buf ! (off + 1) = of_nat (length t mod 256)"
    using nth [of 0] nth [of 1] le assms(1) by (simp_all add: encode_field_def)
  then show "unat (field_length_at buf off) = length t"
    using assms(4) by (rule field_length_at_encoded)
  have d: "drop off (take n buf) = encode_field t @ rest"
    using assms(1) by (simp add: segment_def drop_take)
  have "segment (off + 2) (off + 2 + length t) buf = take (length t) (drop 2 (drop off (take n buf)))"
    using le by (simp add: segment_def drop_take min_def add.commute)
  then show "segment (off + 2) (off + 2 + length t) buf = t"
    by (simp add: d encode_field_def)
  have "segment (off + (length t + 2)) n buf = drop (length t + 2) (drop off (take n buf))"
    by (simp add: segment_def drop_take add.commute)
  then show "segment (off + (length t + 2)) n buf = rest"
    by (simp add: d encode_field_def)
qed

definition value_fits :: "request_field \<Rightarrow> bool" where
  "value_fits kv \<longleftrightarrow> (fst kv = NODENAME \<longrightarrow> length (snd kv) \<le> NODENAME_SIZE) \<and>
     (fst kv = SECRET \<longrightarrow> length (snd kv) \<le> MAX_SECRET_LENGTH)"

context char_buffer begin

lemma fence_field_read:
  assumes caps: "client_caps cap cl"
    and seg: "segment off (io_offset cl) (io_buffer cl) = encode_field (field_text kv) @ rest"
    and bounds: "off \<le> io_offset cl" "io_offset cl \<le> length (io_buffer cl)"
    and ok: "request_field_ok kv"
  obtains key val key1 val1 where
    "read_field cb (io_buffer cl) (io_offset cl) off (key_buffer cl) =
       (Inr True, off + (length (field_text kv) + 2), key)"
    "split_key_value_pair cb key (value_buffer cl) = (Inr (), key1, val1)"
    "cb_c_str cb key1 = fst kv" "cb_c_str cb val1 = snd kv"
    "cap key1 = FIELD_SIZE" "cap val1 = FIELD_SIZE"
proof -
  let ?n = "length (field_text kv)"
  have n: "?n \<le> FIELD_SIZE" "?n \<le> 0xFFFF"
    using ok by (simp_all add: request_field_ok_def bounds_simps)
  note pre = segment_prefix [OF seg bounds n(2)]
  have "?n \<le> cap (key_buffer cl)" using n(1) caps by (simp add: client_caps_def)
  from read_field_ok [OF pre(1) this pre(2) [symmetric]] pre(3) caps
  obtain key where rd: "read_field cb (io_buffer cl) (io_offset cl) off (key_buffer cl) =
      (Inr True, off + (?n + 2), key)" "cb_c_str cb key = field_text kv" "cap key = FIELD_SIZE"
    unfolding client_caps_def by metis
  have "length (snd kv) \<le> cap (value_buffer cl)"
    using n caps by (simp add: client_caps_def field_text_def)
  from split_key_value_pair_ok [OF _ _ this, of key "fst kv"] rd(2,3) ok caps
  obtain key1 val1 where "split_key_value_pair cb key (value_buffer cl) = (Inr (), key1, val1)"
    "cb_c_str cb key1 = fst kv" "cb_c_str cb val1 = snd kv"
    "cap key1 = FIELD_SIZE" "cap val1 = FIELD_SIZE"
    by (auto simp: field_text_def request_field_ok_def client_caps_def)
  with rd(1) that show thesis by blast
qed

lemma fence_field_request:
  assumes caps: "client_caps cap cl"
    and seg: "segment off (io_offset cl) (io_buffer cl) = encode_field (field_text kv) @ rest"
    and bounds: "off \<le> io_offset cl" "io_offset cl \<le> length (io_buffer cl)"
    and ok: "request_field_ok kv"
  shows "if value_fits kv
    then \<exists>cl'. fence_field cb cl off = Normal (cl', off + (length (field_text kv) + 2)) \<and>
      cb_c_str cb (nodename cl') = (if fst kv = NODENAME then snd kv else cb_c_str cb (nodename cl)) \<and>
      cb_c_str cb (secret cl') = (if fst kv = SECRET then snd kv else cb_c_str cb (secret cl))
    else \<exists>cl' off'. fence_field cb cl off = Raised RangeException (cl', off')"
proof -
  obtain key val1 key1 where f:
    "read_field cb (io_buffer cl) (io_offset cl) off (key_buffer cl) =
       (Inr True, off + (length (field_text kv) + 2), key)"
    "split_key_value_pair cb key (value_buffer cl) = (Inr (), key1, val1)"
    "cb_c_str cb key1 = fst kv" "cb_c_str cb val1 = snd kv"
    by (rule fence_field_read [OF assms])
  have node: "cap (nodename cl) = NODENAME_SIZE" "cap (secret cl) = MAX_SECRET_LENGTH"
    using caps by (simp_all add: client_caps_def)
  show ?thesis
    using assign_fail [of "nodename cl" val1] assign_fail [of "secret cl" val1] node f
    by (auto simp: fence_field_def Let_def equals_c_str value_fits_def assign_str split: option.splits)
qed

lemma fence_fields_request:
  assumes "client_caps cap cl"
    and "segment off (io_offset cl) (io_buffer cl) = encode_request kvs"
    and "off \<le> io_offset cl" "io_offset cl \<le> length (io_buffer cl)"
    and "\<forall>kv \<in> set kvs. request_field_ok kv"
  shows "case apply_fields kvs (cb_c_str cb (nodename cl), cb_c_str cb (secret cl)) of
      Some (n, s) \<Rightarrow> \<exists>cl'. fence_fields cb cl off = Normal cl' \<and>
        cb_c_str cb (nodename cl') = n \<and> cb_c_str cb (secret cl') = s
    | None \<Rightarrow> \<exists>cl'. fence_fields cb cl off = Raised RangeException cl'"
  using assms
proof (induction kvs arbitrary: cl off)
  case Nil
  then have "io_offset cl - off = 0" using length_segment [of "io_offset cl" "io_buffer cl" off]
    by (metis encode_request_Nil length_0_conv)
  with Nil.prems show ?case by (simp add: fence_fields_done)
next
  case (Cons kv kvs)
  let ?n = "length (field_text kv)"
  have ok: "request_field_ok kv" using Cons.prems(5) by simp
  have seg: "segment off (io_offset cl) (io_buffer cl) =
      encode_field (field_text kv) @ encode_request kvs" using Cons.prems(2) by simp
  have n: "?n \<le> 0xFFFF" using ok by (simp add: request_field_ok_def bounds_simps)
  note pre = segment_prefix [OF seg Cons.prems(3,4) n]
  have off: "off < io_offset cl" using pre(1) by simp
  note step = fence_field_request [OF Cons.prems(1) seg Cons.prems(3,4) ok]
  show ?case
  proof (cases "value_fits kv")
    case False
    with step obtain cl' off' where r: "fence_field cb cl off = Raised RangeException (cl', off')"
      by auto
    from False have "apply_fields (kv # kvs) x = None" for x
      by (cases kv; cases x) (auto simp: value_fits_def)
    with fence_fields_raise [OF off r] show ?thesis by simp
  next
    case True
    with step obtain cl1 where f: "fence_field cb cl off = Normal (cl1, off + (?n + 2))"
      "cb_c_str cb (nodename cl1) = (if fst kv = NODENAME then snd kv else cb_c_str cb (nodename cl))"
      "cb_c_str cb (secret cl1) = (if fst kv = SECRET then snd kv else cb_c_str cb (secret cl))"
      by auto
    with fence_field_safe [OF Cons.prems(1), of off]
    have same: "same_but_buffers cl cl1" "client_caps cap cl1" by auto
    note sameD = same_but_buffersD [OF same(1)]
    have ap: "apply_fields (kv # kvs) (cb_c_str cb (nodename cl), cb_c_str cb (secret cl)) =
        apply_fields kvs (cb_c_str cb (nodename cl1), cb_c_str cb (secret cl1))"
      using True f by (cases kv) (auto simp: value_fits_def)
    have "segment (off + (?n + 2)) (io_offset cl1) (io_buffer cl1) = encode_request kvs"
      using pre(4) sameD by simp
    from Cons.IH [OF same(2) this] pre(1) Cons.prems(4,5) sameD
    show ?thesis unfolding ap fence_fields_step [OF off f(1)] by simp
  qed
qed

end

section \<open>A whole request\<close>

text \<open>A request as it stands in the buffer when the message is complete.\<close>

definition request_in_buffer :: "'b net_client \<Rightarrow> request_field list \<Rightarrow> bool" where
  "request_in_buffer cl kvs \<longleftrightarrow> HEADER_SIZE \<le> io_offset cl \<and> io_offset cl \<le> length (io_buffer cl) \<and>
     segment HEADER_SIZE (io_offset cl) (io_buffer cl) = encode_request kvs \<and>
     (\<forall>kv \<in> set kvs. request_field_ok kv)"

context char_buffer begin

lemma fence_action_ok:
  assumes caps: "client_caps cap cl" and req: "request_in_buffer cl kvs"
    and ap: "apply_fields kvs (cb_c_str cb (nodename cl), cb_c_str cb (secret cl)) = Some (n, s)"
    and n: "n \<noteq> []"
  shows "\<exists>cl'. cb_c_str cb (nodename cl') = n \<and> cb_c_str cb (secret cl') = s \<and>
    fence_action cb fence cl p =
      (case fence (nodename cl') (secret cl') p of
         None \<Rightarrow> Undefined_Behaviour
       | Some (ok, p') \<Rightarrow> Normal (fence_reply ok cl', p')) \<and>
    io_offset cl' = 0 \<and> \<not> have_header cl' \<and> client_caps cap cl' \<and>
    length (io_buffer cl') = length (io_buffer cl)"
proof -
  from fence_fields_request [OF caps, of HEADER_SIZE kvs] req ap
  obtain cl1 where f: "fence_fields cb cl HEADER_SIZE = Normal cl1"
    "cb_c_str cb (nodename cl1) = n" "cb_c_str cb (secret cl1) = s"
    by (auto simp: request_in_buffer_def)
  with fence_fields_safe [OF caps, of HEADER_SIZE]
  have c1: "client_caps cap cl1" "length (io_buffer cl1) = length (io_buffer cl)"
    by (auto dest: same_but_buffersD)
  let ?cl = "(clear_io_buffer cl1)\<lparr>header := clear_header (header cl1)\<rparr>"
  have "fence_action cb fence cl p =
      (case fence (nodename ?cl) (secret ?cl) p of
         None \<Rightarrow> Undefined_Behaviour
       | Some (ok, p') \<Rightarrow> Normal (fence_reply ok ?cl, p'))"
    using f n by (simp add: fence_action_def length_str)
  moreover have "client_caps cap ?cl"
    using c1 by (simp add: client_caps_def)
  ultimately show ?thesis
    using f c1(2) by (intro exI [of _ ?cl]) simp
qed

lemma fence_action_no_node:
  assumes caps: "client_caps cap cl" and req: "request_in_buffer cl kvs"
    and ap: "apply_fields kvs (cb_c_str cb (nodename cl), cb_c_str cb (secret cl)) = Some ([], s)"
  shows "\<exists>cl'. fence_action cb fence cl p = Normal (cl', p) \<and> current_phase cl' = current_phase cl"
proof -
  from fence_fields_request [OF caps, of HEADER_SIZE kvs] req ap
  obtain cl1 where f: "fence_fields cb cl HEADER_SIZE = Normal cl1" "cb_c_str cb (nodename cl1) = []"
    by (auto simp: request_in_buffer_def)
  with fence_fields_safe [OF caps, of HEADER_SIZE] have "same_but_buffers cl cl1" by simp
  with f show ?thesis
    by (auto simp: fence_action_def length_str dest: same_but_buffersD)
qed

lemma fence_action_too_long:
  assumes caps: "client_caps cap cl" and req: "request_in_buffer cl kvs"
    and ap: "apply_fields kvs (cb_c_str cb (nodename cl), cb_c_str cb (secret cl)) = None"
  shows "\<exists>cl'. fence_action cb fence cl p = Raised RangeException (cl', p)"
proof -
  from fence_fields_request [OF caps, of HEADER_SIZE kvs] req ap
  obtain cl1 where "fence_fields cb cl HEADER_SIZE = Raised RangeException cl1"
    by (auto simp: request_in_buffer_def)
  then show ?thesis by (simp add: fence_action_def)
qed

text \<open>A request that does not parse: the client is to be disconnected, nothing was fenced.\<close>

lemma fence_action_malformed:
  assumes "outcome_error (fence_fields cb cl HEADER_SIZE) = Some ProtocolException"
  shows "\<exists>cl'. fence_action cb fence cl p = Normal (cl', p) \<and> current_phase cl' = CANCELED \<and>
    io_state cl' = NOOP"
  using assms by (cases "fence_fields cb cl HEADER_SIZE") (auto simp: fence_action_def)

end

section \<open>Every request\<close>

text \<open>The plugin function that a message type stands for.\<close>

fun fence_function :: "MsgType \<Rightarrow> function_table \<Rightarrow> fn_address option" where
  "fence_function FENCE_OFF t = ufh_fence_off t"
| "fence_function FENCE_ON t = ufh_fence_on t"
| "fence_function FENCE_REBOOT t = ufh_fence_reboot t"
| "fence_function _ t = None"

lemma process_fence_message:
  assumes "fence_function m (plugin_functions srv) = Some f"
    and "msg_type (header cl) = msg_type_code m"
  shows "process_client_message cb env srv cl p =
    fence_action cb (\<lambda>n s p. Some (call_fence env f (plugin_context srv) (cb_c_str cb n) (cb_length cb n) p)) cl p"
proof -
  let ?fence = "\<lambda>n s p. Some (call_fence env f (plugin_context srv) (cb_c_str cb n) (cb_length cb n) p)"
  have "ufh_fence_off (plugin_functions srv) = Some f \<Longrightarrow> fence_action_off cb env srv = ?fence"
    "ufh_fence_on (plugin_functions srv) = Some f \<Longrightarrow> fence_action_on cb env srv = ?fence"
    "ufh_fence_reboot (plugin_functions srv) = Some f \<Longrightarrow> fence_action_reboot cb env srv = ?fence"
    by (auto simp: fun_eq_iff fence_action_off_def fence_action_on_def fence_action_reboot_def)
  moreover have "switch_msg_type (msg_type (header cl)) = Some m" using assms(2) by simp
  ultimately show ?thesis
    using assms(1) by (cases m) (simp_all add: process_client_message_def)
qed

text \<open>What executing a request keeps of the client, and what a reply needs.\<close>

definition same_connection :: "'b net_client \<Rightarrow> 'b net_client \<Rightarrow> bool" where
  "same_connection cl cl' \<longleftrightarrow> socket_fd cl' = socket_fd cl \<and> next_node cl' = next_node cl \<and>
     prev_node cl' = prev_node cl \<and> length (io_buffer cl') = length (io_buffer cl) \<and>
     address cl' = address cl \<and> address_length cl' = address_length cl"

definition reply_ready :: "'b net_client \<Rightarrow> bool" where
  "reply_ready cl \<longleftrightarrow> current_phase cl = SEND \<and> io_state cl = WRITE \<and> io_offset cl = 0 \<and>
     \<not> have_header cl \<and> next_phase cl \<in> {RECV, CANCELED}"

text \<open>
  A defined outcome on the same connection, at most a \<open>RangeException\<close>, after which the client
  has a reply to send, is cancelled, or still has the phase it was executed in.
\<close>

definition request_handled ::
  "('b \<Rightarrow> nat) \<Rightarrow> 'b net_client \<Rightarrow> (cpp_exception, 'b net_client \<times> 'p) outcome \<Rightarrow> bool" where
  "request_handled cap cl r \<longleftrightarrow> outcome_error r \<in> {None, Some RangeException} \<and>
     (case outcome_state r of
        None \<Rightarrow> False
      | Some (cl', p') \<Rightarrow> client_caps cap cl' \<and> same_connection cl cl' \<and>
          (reply_ready cl' \<or> current_phase cl' \<in> {CANCELED, EXECUTING}))"

lemma request_handled_simps [simp]:
  "request_handled cap cl (Normal (cl', p)) \<longleftrightarrow> client_caps cap cl' \<and> same_connection cl cl' \<and>
     (reply_ready cl' \<or> current_phase cl' \<in> {CANCELED, EXECUTING})"
  "request_handled cap cl (Raised e (cl', p)) \<longleftrightarrow> e = RangeException \<and> client_caps cap cl' \<and>
     same_connection cl cl' \<and> (reply_ready cl' \<or> current_phase cl' \<in> {CANCELED, EXECUTING})"
  "\<not> request_handled cap cl Undefined_Behaviour"
  by (auto simp: request_handled_def)

lemma same_but_buffers_connection: "same_but_buffers cl cl' \<Longrightarrow> same_connection cl cl'"
  by (simp add: same_connection_def same_but_buffersD)

lemma fence_reply_ready:
  "io_offset cl = 0 \<Longrightarrow> \<not> have_header cl \<Longrightarrow> reply_ready (fence_reply ok cl)"
  by (simp add: reply_ready_def fence_reply_def)

context char_buffer begin

lemma fence_action_safe:
  assumes caps: "client_caps cap cl" and phase: "current_phase cl = EXECUTING"
    and fence: "\<And>n s p. fence n s p \<noteq> None"
  shows "request_handled cap cl (fence_action cb fence cl p)"
proof -
  from fence_fields_safe [OF caps, of HEADER_SIZE] obtain cl1 where
    f: "outcome_state (fence_fields cb cl HEADER_SIZE) = Some cl1" "same_but_buffers cl cl1"
      "client_caps cap cl1"
      "outcome_error (fence_fields cb cl HEADER_SIZE) \<in> {None, Some ProtocolException, Some RangeException}"
    by blast
  note same = same_but_buffersD [OF f(2)]
  show ?thesis
  proof (cases "fence_fields cb cl HEADER_SIZE")
    case (Raised e c)
    with f same phase show ?thesis
      by (auto simp: fence_action_def client_caps_def same_connection_def)
  next
    case (Normal c)
    then have n: "fence_fields cb cl HEADER_SIZE = Normal cl1" using f(1) by simp
    let ?cl = "(clear_io_buffer cl1)\<lparr>header := clear_header (header cl1)\<rparr>"
    have c: "client_caps cap ?cl" "same_connection cl ?cl" "current_phase ?cl = EXECUTING"
      using f(3) same phase by (simp_all add: client_caps_def same_connection_def)
    show ?thesis
    proof (cases "cb_length cb (nodename cl1) > 0")
      case True
      obtain ok p' where "fence (nodename ?cl) (secret ?cl) p = Some (ok, p')"
        using fence [of "nodename ?cl" "secret ?cl" p] by auto
      with n True have "fence_action cb fence cl p = Normal (fence_reply ok ?cl, p')"
        by (simp add: fence_action_def)
      with c fence_reply_ready [of ?cl ok] show ?thesis
        by (auto simp: fence_reply_def client_caps_def same_connection_def)
    next
      case False
      with n have "fence_action cb fence cl p = Normal (?cl, p)"
        by (simp add: fence_action_def)
      with c show ?thesis by auto
    qed
  qed (use f(1) in simp)
qed

lemma process_client_message_safe:
  assumes caps: "client_caps cap cl" and phase: "current_phase cl = EXECUTING"
    and table: "table_complete (plugin_functions srv)"
  shows "request_handled cap cl (process_client_message cb env srv cl p)"
proof -
  note fence = fence_actions_defined [OF table, of cb env, THEN fence_action_safe [OF caps phase]]
  have echo: "client_caps cap (echo_reply cl) \<and> same_connection cl (echo_reply cl) \<and>
      reply_ready (echo_reply cl)"
    using caps by (simp add: echo_reply_def Let_def client_caps_def same_connection_def reply_ready_def)
  have cancel: "client_caps cap (cl\<lparr>current_phase := CANCELED\<rparr>)"
    "same_connection cl (cl\<lparr>current_phase := CANCELED\<rparr>)" "same_connection cl cl"
    using caps by (simp_all add: client_caps_def same_connection_def)
  show ?thesis
  proof (cases "switch_msg_type (msg_type (header cl))")
    case None
    with cancel show ?thesis by (simp add: process_client_message_def)
  next
    case (Some m)
    with fence echo cancel caps phase show ?thesis
      by (cases m) (simp_all add: process_client_message_def)
  qed
qed

end

section \<open>Properties\<close>

text \<open>
  Property C6. A well-formed fencing request that names a node is executed: the plugin function
  of the request's type is called once, with the plugin's context and the node name of the last
  \<open>NODENAME\<close> field, and its answer goes back as \<open>FENCE_SUCCESS\<close> or \<open>FENCE_FAIL\<close> in a reply
  of header size, after which the connection is closed.
\<close>

theorem fence_request_executed:
  assumes cb: "char_buffer cb cap" and caps: "client_caps cap cl"
    and req: "request_in_buffer cl kvs"
    and ap: "apply_fields kvs (cb_c_str cb (nodename cl), cb_c_str cb (secret cl)) = Some (n, s)"
    and n: "n \<noteq> []"
    and m: "msg_type (header cl) = msg_type_code m"
      "fence_function m (plugin_functions srv) = Some f"
    and call: "call_fence env f (plugin_context srv) n (length n) p = (ok, p')"
  shows "\<exists>cl'. process_client_message cb env srv cl p = Normal (cl', p') \<and>
    msg_type (header cl') = msg_type_code (if ok then FENCE_SUCCESS else FENCE_FAIL) \<and>
    data_length (header cl') = of_nat HEADER_SIZE \<and>
    current_phase cl' = SEND \<and> next_phase cl' = CANCELED \<and> io_state cl' = WRITE \<and>
    io_offset cl' = 0 \<and> \<not> have_header cl'"
proof -
  let ?fence = "\<lambda>n s p. Some (call_fence env f (plugin_context srv) (cb_c_str cb n) (cb_length cb n) p)"
  from char_buffer.fence_action_ok [OF cb caps req ap n, of ?fence p] call
  obtain cl1 where "fence_action cb ?fence cl p = Normal (fence_reply ok cl1, p')"
    "io_offset cl1 = 0" "\<not> have_header cl1"
    by (auto simp: char_buffer.length_str [OF cb])
  with process_fence_message [OF m(2,1), of cb env p] show ?thesis
    by (simp add: fence_reply_def)
qed

text \<open>A client of the reference buffers whose I/O buffer holds a request.\<close>

definition sample_fields :: "request_field list" where
  "sample_fields = [(NODENAME, ascii ''n1''), (SECRET, ascii ''s'')]"

definition sample_client :: "MsgType \<Rightarrow> request_field list \<Rightarrow> bounded_buffer net_client" where
  "sample_client m kvs =
     (new_net_client bounded_ops (replicate HEADER_SIZE 0 @ encode_request kvs))
       \<lparr>header := \<lparr>msg_type = msg_type_code m, data_length = of_nat (HEADER_SIZE + length (encode_request kvs))\<rparr>,
        io_offset := HEADER_SIZE + length (encode_request kvs), current_phase := EXECUTING\<rparr>"

definition sample_env :: "(nat \<times> nat option \<times> bytes) list plugin_env" where
  "sample_env =
     \<lparr>dlopen = (\<lambda>_ p. (Some 1, p)), dlsym = (\<lambda>_ s. Some (length s)), dlclose = (\<lambda>_ p. p),
      call_init = (\<lambda>_ p. ((True, Some 9), p)), call_destroy = (\<lambda>_ _ p. p),
      call_fence = (\<lambda>f c n l p. (f = 13, p @ [(f, c, take l n)]))\<rparr>"

definition sample_server :: fence_server where
  "sample_server =
     \<lparr>plugin_functions = \<lparr>ufh_plugin_init = Some 15, ufh_plugin_destroy = Some 18,
        ufh_fence_off = Some 13, ufh_fence_on = Some 12, ufh_fence_reboot = Some 16\<rparr>,
      plugin_context = Some 9\<rparr>"

lemma sample_client_ok:
  assumes "\<forall>kv \<in> set kvs. request_field_ok kv"
  shows "client_caps fst (sample_client m kvs)" "request_in_buffer (sample_client m kvs) kvs"
    "msg_type (header (sample_client m kvs)) = msg_type_code m"
    "nodename (sample_client m kvs) = (NODENAME_SIZE, [])"
    "secret (sample_client m kvs) = (MAX_SECRET_LENGTH, [])"
    "current_phase (sample_client m kvs) = EXECUTING"
  using assms
  by (simp_all add: sample_client_def client_caps_def new_net_client_def bounded_ops_def
      request_in_buffer_def segment_def)

lemma sample_fields_ok: "\<forall>kv \<in> set sample_fields. request_field_ok kv"
  by (simp add: sample_fields_def request_field_ok_def field_text_def NODENAME_def SECRET_def
      ascii_def FIELD_SIZE_def)

lemma sample_fields_apply:
  "apply_fields sample_fields ([], []) = Some (ascii ''n1'', ascii ''s'')"
  by (simp add: sample_fields_def bounds_simps)

lemma bounded_c_str [simp]: "cb_c_str bounded_ops = snd"
  by (simp add: bounded_ops_def)

theorem fence_request_executed_witness:
  "\<exists>cl'. process_client_message bounded_ops sample_env sample_server
      (sample_client FENCE_OFF sample_fields) [] = Normal (cl', [(13, Some 9, ascii ''n1'')]) \<and>
    msg_type (header cl') = msg_type_code FENCE_SUCCESS \<and> current_phase cl' = SEND"
proof -
  note cl = sample_client_ok [OF sample_fields_ok, of FENCE_OFF]
  have f: "fence_function FENCE_OFF (plugin_functions sample_server) = Some 13"
    by (simp add: sample_server_def)
  have a: "apply_fields sample_fields (cb_c_str bounded_ops (nodename (sample_client FENCE_OFF sample_fields)),
      cb_c_str bounded_ops (secret (sample_client FENCE_OFF sample_fields))) =
      Some (ascii ''n1'', ascii ''s'')"
    by (simp add: cl sample_fields_apply)
  have n: "ascii ''n1'' \<noteq> []" by (simp add: ascii_def)
  have c: "call_fence sample_env 13 (plugin_context sample_server) (ascii ''n1'')
      (length (ascii ''n1'')) [] = (True, [(13, Some 9, ascii ''n1'')])"
    by (simp add: sample_env_def sample_server_def)
  show ?thesis
    using fence_request_executed [OF bounded.char_buffer_axioms cl(1,2) a n cl(3) f c] by auto
qed

text \<open>
  A fencing request that cannot be executed never reaches the plugin: one that does not
  parse cancels the connection; one whose node name or secret exceeds the server's buffers
  ends in a \<open>RangeException\<close> that no handler of the request catches; one without a node name
  leaves the phase as it was, which makes the worker close the connection.
\<close>

lemma fence_request_refused:
  assumes cb: "char_buffer cb cap" and caps: "client_caps cap cl"
    and m: "msg_type (header cl) = msg_type_code m"
      "fence_function m (plugin_functions srv) = Some f"
  shows "(outcome_error (fence_fields cb cl HEADER_SIZE) = Some ProtocolException \<longrightarrow>
      (\<exists>cl'. process_client_message cb env srv cl p = Normal (cl', p) \<and> current_phase cl' = CANCELED)) \<and>
    (request_in_buffer cl kvs \<and>
       apply_fields kvs (cb_c_str cb (nodename cl), cb_c_str cb (secret cl)) = None \<longrightarrow>
      (\<exists>cl'. process_client_message cb env srv cl p = Raised RangeException (cl', p))) \<and>
    (request_in_buffer cl kvs \<and>
       apply_fields kvs (cb_c_str cb (nodename cl), cb_c_str cb (secret cl)) = Some ([], s) \<longrightarrow>
      (\<exists>cl'. process_client_message cb env srv cl p = Normal (cl', p) \<and>
        current_phase cl' = current_phase cl))"
  unfolding process_fence_message [OF m(2,1)]
  using char_buffer.fence_action_malformed [OF cb] char_buffer.fence_action_too_long [OF cb caps]
    char_buffer.fence_action_no_node [OF cb caps]
  by meson

text \<open>
  Property C23. Only the three fencing types reach the plugin. An echo request is answered with an
  empty echo reply and the connection goes back to reading; a version request, which is not
  implemented, leaves the client as it was; every other of the 65536 codes cancels the
  connection.
\<close>

theorem other_requests_never_fence:
  assumes "msg_type (header cl) \<notin> msg_type_code ` {FENCE_OFF, FENCE_ON, FENCE_REBOOT}"
  shows "\<exists>cl'. process_client_message cb env srv cl p = Normal (cl', p) \<and>
    (if is_msg_type (header cl) ECHO_REQUEST
     then is_msg_type (header cl') ECHO_REPLY \<and> data_length (header cl') = of_nat HEADER_SIZE \<and>
       reply_ready cl' \<and> next_phase cl' = RECV
     else if is_msg_type (header cl) VERSION_REQUEST then cl' = cl
     else cl' = cl\<lparr>current_phase := CANCELED\<rparr>)"
proof (cases "switch_msg_type (msg_type (header cl))")
  case None
  then have "msg_type (header cl) \<noteq> msg_type_code m" for m
    by (metis option.distinct(1) switch_msg_type_code)
  with None show ?thesis
    by (simp add: process_client_message_def is_msg_type_def del: msg_type_code.simps)
next
  case (Some m)
  then have "msg_type (header cl) = msg_type_code m" by (simp add: switch_msg_type_Some)
  with assms Some show ?thesis
    by (cases m) (simp_all add: process_client_message_def is_msg_type_def echo_reply_def Let_def
        reply_ready_def del: msg_type_code.simps)
qed

theorem other_requests_never_fence_witness:
  "\<exists>cl'. process_client_message bounded_ops sample_env sample_server
      ((sample_client ECHO_REQUEST [])\<lparr>header := \<lparr>msg_type = 0x1234, data_length = 4\<rparr>\<rparr>) [] =
    Normal (cl', []) \<and> current_phase cl' = CANCELED"
proof -
  have h: "msg_type (header ((sample_client ECHO_REQUEST [])\<lparr>header := \<lparr>msg_type = 0x1234, data_length = 4\<rparr>\<rparr>))
      \<notin> msg_type_code ` {FENCE_OFF, FENCE_ON, FENCE_REBOOT}"
    by simp
  show ?thesis
    using other_requests_never_fence [OF h, of bounded_ops sample_env sample_server "[]"]
    by (simp add: is_msg_type_def)
qed

end
