(* ===== verification/Connector_Inv.thy ===== *)
theory Connector_Inv
  imports Message_Framing Fence_Requests
begin

text \<open>
  The invariant of the connector: which clients are on which queue, in which state each of them
  is, and how queues and pool fit together. The steps of the selector and of the workers keep
  it, with one exception: a connection that a worker closes.
\<close>

section \<open>The states of a client\<close>

definition client_ok :: "('b \<Rightarrow> nat) \<Rightarrow> 'b net_client \<Rightarrow> bool" where
  "client_ok cap cl \<longleftrightarrow> client_caps cap cl \<and> length (io_buffer cl) = IO_BUFFER_SIZE \<and>
     address_length cl \<le> length (address cl)"

definition reading :: "'b net_client \<Rightarrow> bool" where
  "reading cl \<longleftrightarrow> io_state cl = READ \<and> current_phase cl = RECV \<and> next_phase cl = PENDING \<and> recv_inv cl"

definition writing :: "'b net_client \<Rightarrow> bool" where
  "writing cl \<longleftrightarrow> io_state cl = WRITE \<and> current_phase cl = SEND \<and> next_phase cl \<in> {RECV, CANCELED} \<and>
     send_inv cl"

definition com_client :: "'b net_client \<Rightarrow> bool" where
  "com_client cl \<longleftrightarrow> valid_select_fd (socket_fd cl) \<and> (reading cl \<or> writing cl)"

definition pending_client :: "'b net_client \<Rightarrow> bool" where
  "pending_client cl \<longleftrightarrow> valid_select_fd (socket_fd cl) \<and> io_state cl = NOOP \<and>
     current_phase cl = PENDING \<and> message_complete cl"

definition detached :: "'b net_client \<Rightarrow> bool" where
  "detached cl \<longleftrightarrow> next_node cl = None \<and> prev_node cl = None"

definition busy_client :: "'b net_client \<Rightarrow> bool" where
  "busy_client cl \<longleftrightarrow> valid_select_fd (socket_fd cl) \<and> detached cl"

text \<open>The predicates but the last do not look at the links.\<close>

lemma state_more_cong:
  assumes "link.more cl' = link.more cl"
  shows "client_ok cap cl' = client_ok cap cl" "com_client cl' = com_client cl"
    "pending_client cl' = pending_client cl" "socket_fd cl' = socket_fd cl"
    "io_state cl' = io_state cl" "current_phase cl' = current_phase cl"
  using assms
  by (cases cl; cases cl';
      simp add: client_ok_def client_caps_def com_client_def reading_def writing_def recv_inv_def
        send_inv_def pending_client_def message_complete_def)+

lemma more_io_state:
  "link.more a = link.more b \<Longrightarrow> link.more (a\<lparr>io_state := s\<rparr>) = link.more (b\<lparr>io_state := s\<rparr>)"
  for a b :: "'b net_client"
  by (cases a; cases b) simp

definition only_client :: "nat \<Rightarrow> 'b connector \<Rightarrow> 'b connector \<Rightarrow> bool" where
  "only_client c cn cn' \<longleftrightarrow> (\<forall>x. x \<noteq> c \<longrightarrow> link.more (clients cn' x) = link.more (clients cn x))"

lemma only_client_trans: "only_client c cn cn1 \<Longrightarrow> only_client c cn1 cn2 \<Longrightarrow> only_client c cn cn2"
  by (simp add: only_client_def)

lemma only_client_set [simp]: "only_client c cn (set_client c cl cn)"
  by (simp add: only_client_def)

lemma same_payload_more: "same_payload h h' \<Longrightarrow> link.more (h' x) = link.more (h x)"
  by (simp add: same_payload_def)

section \<open>Queues and pool\<close>

text \<open>
  \<open>xs\<close> are the clients of \<open>com_queue\<close>, \<open>ys\<close> those of \<open>action_queue\<close>, \<open>W\<close> those on neither.
  Together they are the allocated ones. In \<open>conn_inv\<close> the clients in \<open>W - L\<close> are being executed
  by a worker; those in \<open>L\<close> are lost: allocated, but known to no queue and no worker.
\<close>

definition conn_core ::
  "('b \<Rightarrow> nat) \<Rightarrow> 'b connector \<Rightarrow> nat list \<Rightarrow> nat list \<Rightarrow> nat set \<Rightarrow> bool" where
  "conn_core cap cn xs ys W \<longleftrightarrow>
     (\<forall>c. client_ok cap (clients cn c)) \<and>
     queue_links (clients cn) (com_queue cn) xs \<and>
     queue_links (clients cn) (action_queue cn) ys \<and> size_ok (action_queue cn) ys \<and>
     alloc_inv (client_pool cn) \<and> pool_size (client_pool cn) = MAX_CONNECTIONS \<and>
     set xs \<inter> set ys = {} \<and> (set xs \<union> set ys) \<inter> W = {} \<and>
     used_objects (client_pool cn) = set xs \<union> set ys \<union> W"

definition conn_inv ::
  "('b \<Rightarrow> nat) \<Rightarrow> nat set \<Rightarrow> 'b connector \<Rightarrow> nat list \<Rightarrow> nat list \<Rightarrow> nat set \<Rightarrow> bool" where
  "conn_inv cap L cn xs ys W \<longleftrightarrow> conn_core cap cn xs ys W \<and>
     (\<forall>x \<in> set xs. com_client (clients cn x)) \<and>
     (\<forall>y \<in> set ys. pending_client (clients cn y)) \<and>
     (\<forall>w \<in> W - L. busy_client (clients cn w))"

lemma queue_links_upd:
  assumes "next_node v = next_node (h c)" and "prev_node v = prev_node (h c)"
  shows "queue_links (h(c := v)) q xs = queue_links h q xs"
proof -
  have "chain (h(c := v)) p xs n = chain h p xs n" for p n
    by (rule chain_cong) (use assms in auto)
  then show ?thesis by (simp add: queue_links_def)
qed

lemma clear_client_links [simp]:
  "next_node (clear_client cb cl) = next_node cl" "prev_node (clear_client cb cl) = prev_node cl"
  by (simp_all add: clear_client_def)

lemma conn_core_set_client:
  assumes "conn_core cap cn xs ys W" and "client_ok cap cl"
    and "next_node cl = next_node (clients cn c)" and "prev_node cl = prev_node (clients cn c)"
  shows "conn_core cap (set_client c cl cn) xs ys W"
  using assms by (auto simp: conn_core_def queue_links_upd)

lemma conn_inv_set_com:
  assumes inv: "conn_inv cap L cn xs ys W" and c: "c \<in> set xs"
    and cl: "client_ok cap cl" "com_client cl"
      "next_node cl = next_node (clients cn c)" "prev_node cl = prev_node (clients cn c)"
  shows "conn_inv cap L (set_client c cl cn) xs ys W"
proof -
  have core: "conn_core cap cn xs ys W" using inv by (simp add: conn_inv_def)
  from core c have "c \<notin> set ys" "c \<notin> W" by (auto simp: conn_core_def)
  with conn_core_set_client [OF core cl(1,3,4)] inv cl(2) show ?thesis
    by (auto simp: conn_inv_def)
qed

text \<open>What is known of clients an operation did not touch.\<close>

lemma only_client_preds:
  assumes "only_client c cn cn'" and "x \<noteq> c"
  shows "com_client (clients cn' x) = com_client (clients cn x)"
    "pending_client (clients cn' x) = pending_client (clients cn x)"
    "client_ok cap (clients cn' x) = client_ok cap (clients cn x)"
    "socket_fd (clients cn' x) = socket_fd (clients cn x)"
proof -
  have "link.more (clients cn' x) = link.more (clients cn x)"
    using assms by (simp add: only_client_def)
  from state_more_cong [OF this] show
    "com_client (clients cn' x) = com_client (clients cn x)"
    "pending_client (clients cn' x) = pending_client (clients cn x)"
    "client_ok cap (clients cn' x) = client_ok cap (clients cn x)"
    "socket_fd (clients cn' x) = socket_fd (clients cn x)" by simp_all
qed

lemma only_client_all:
  assumes "only_client c cn cn'" and "c \<notin> S"
  shows "\<forall>x \<in> S. com_client (clients cn x) \<Longrightarrow> \<forall>x \<in> S. com_client (clients cn' x)"
    "\<forall>x \<in> S. pending_client (clients cn x) \<Longrightarrow> \<forall>x \<in> S. pending_client (clients cn' x)"
  using assms only_client_preds(1,2) [OF assms(1)] by metis+

lemma conn_core_used: "conn_core cap cn xs ys W \<Longrightarrow> set xs \<union> set ys \<union> W \<subseteq> {..<MAX_CONNECTIONS}"
  using ga.used_bound [of "client_pool cn"] by (auto simp: conn_core_def)

lemma conn_core_length:
  assumes "conn_core cap cn xs ys W"
  shows "length xs + length ys \<le> MAX_CONNECTIONS"
proof -
  have d: "distinct (xs @ ys)" using assms by (auto simp: conn_core_def dest: queue_links_distinct)
  have "set (xs @ ys) \<subseteq> {..<MAX_CONNECTIONS}" using conn_core_used [OF assms] by auto
  from card_mono [OF _ this] distinct_card [OF d] show ?thesis by simp
qed

section \<open>Closing a connection of the com queue\<close>

lemma closed_fd: "socket_fd (clients (close_connection cb cn c) c) = FD_NONE"
  by (simp add: close_connection_def clear_client_def split: prod.splits)

lemma remove_com:
  assumes core: "conn_core cap cn xs ys W" and c: "c \<in> set xs"
    and r: "remove_node (clients cn) (com_queue cn) c = (h, q)"
  shows "queue_links h q (remove1 c xs)" "queue_links h (action_queue cn) ys" "detached (h c)"
    "link.more (h x) = link.more (clients cn x)" "x \<notin> set xs \<Longrightarrow> h x = clients cn x"
proof -
  have q: "queue_links (clients cn) (com_queue cn) xs" "queue_links (clients cn) (action_queue cn) ys" "set xs \<inter> set ys = {}"
    using core by (simp_all add: conn_core_def)
  show "queue_links h q (remove1 c xs)" by (rule nq.unlink_links [OF q(1) c r])
  show "queue_links h (action_queue cn) ys" by (rule nq.unlink_other [OF q(1,2) c r q(3)])
  show "detached (h c)" using remove_node_detached [OF r] by (simp add: detached_def)
  show "link.more (h x) = link.more (clients cn x)"
    using same_payload_remove_node [of "clients cn" "com_queue cn" c] r by (simp add: same_payload_def)
  show "x \<notin> set xs \<Longrightarrow> h x = clients cn x" by (rule nq.unlink_frame [OF q(1) c r])
qed

lemma set_remove1_distinct: "distinct xs \<Longrightarrow> set (remove1 c xs) = set xs - {c}"
  by (rule set_remove1_eq)

lemma conn_core_distinct: "conn_core cap cn xs ys W \<Longrightarrow> distinct xs \<and> distinct ys"
  by (auto simp: conn_core_def dest: queue_links_distinct)

context char_buffer begin

lemma client_ok_clear: "client_ok cap cl \<Longrightarrow> client_ok cap (clear_client cb cl)"
proof -
  have "length (zero_memory buf n) = length buf" for buf n by simp
  then show "client_ok cap cl \<Longrightarrow> client_ok cap (clear_client cb cl)"
    by (simp add: client_ok_def client_caps_def clear_client_def wipe_cap)
qed

lemma close_connection_core:
  assumes core: "conn_core cap cn xs ys W" and c: "c \<in> set xs"
  shows "conn_core cap (close_connection cb cn c) (remove1 c xs) ys W"
    "only_client c cn (close_connection cb cn c)"
    "w \<in> W \<Longrightarrow> clients (close_connection cb cn c) w = clients cn w"
proof -
  obtain fd closed where fd: "close_fd (socket_fd (clients cn c)) (closed_fds cn) = (fd, closed)"
    by fastforce
  let ?cl = "(clients cn c)\<lparr>socket_fd := fd\<rparr>"
  let ?cn = "set_client c ?cl cn"
  have ok: "client_ok cap (clients cn x)" for x using core by (simp add: conn_core_def)
  have okc: "client_ok cap ?cl" using ok [of c] by (simp add: client_ok_def client_caps_def)
  have core1: "conn_core cap ?cn xs ys W"
    by (rule conn_core_set_client [OF core okc]) simp_all
  obtain h q where r: "remove_node (clients ?cn) (com_queue ?cn) c = (h, q)" by fastforce
  note rm = remove_com [OF core1 c r]
  have close: "close_connection cb cn c =
      cn\<lparr>clients := h(c := clear_client cb (h c)), com_queue := q, closed_fds := closed,
         client_pool := deallocate (client_pool cn) c\<rparr>"
    using r by (simp add: close_connection_def fd Let_def)
  have more: "link.more (h x) = link.more (clients ?cn x)" for x by (rule rm(4))
  have ok1: "client_ok cap (h x)" for x
    using state_more_cong(1) [OF more] okc ok by simp
  have used: "c \<in> used_objects (client_pool cn)" and pool: "alloc_inv (client_pool cn)"
    and disj: "c \<notin> set ys" "c \<notin> W"
    using core c by (auto simp: conn_core_def)
  have d: "set (remove1 c xs) = set xs - {c}"
    using conn_core_distinct [OF core] by (simp add: set_remove1_eq)
  show "conn_core cap (close_connection cb cn c) (remove1 c xs) ys W"
    unfolding conn_core_def close
    using rm(1,2) core ok1 client_ok_clear [OF ok1] ga.give_ok [OF pool used] disj
    by (auto simp: conn_core_def queue_links_upd d)
  show "only_client c cn (close_connection cb cn c)"
    using more by (simp add: only_client_def close)
  show "clients (close_connection cb cn c) w = clients cn w" if "w \<in> W"
  proof -
    have "w \<notin> set xs" "w \<noteq> c" using core that disj by (auto simp: conn_core_def)
    then show ?thesis using rm(5) [of w] by (simp add: close)
  qed
qed

lemma close_connection_inv:
  assumes "conn_core cap cn xs ys W" and "c \<in> set xs"
    and "\<forall>x \<in> set xs - {c}. com_client (clients cn x)"
    and "\<forall>y \<in> set ys. pending_client (clients cn y)" and "\<forall>w \<in> W - L. busy_client (clients cn w)"
  shows "conn_inv cap L (close_connection cb cn c) (remove1 c xs) ys W"
proof -
  note close = close_connection_core [OF assms(1,2)]
  have "c \<notin> set ys" using assms(1,2) by (auto simp: conn_core_def)
  moreover have "set (remove1 c xs) = set xs - {c}"
    using conn_core_distinct [OF assms(1)] by (simp add: set_remove1_eq)
  ultimately show ?thesis
    unfolding conn_inv_def
    using close(1,3) assms(5) only_client_all(1) [OF close(2) _ assms(3)]
      only_client_all(2) [OF close(2) _ assms(4)]
    by simp
qed

end

section \<open>Handing a request to the workers\<close>

lemma finish_receive_pending:
  assumes "next_phase (clients cn c) = PENDING"
  shows "finish_receive cb cn c =
    (let cn = set_client c ((clients cn c)\<lparr>current_phase := PENDING\<rparr>) cn;
         (h, q) = remove_node (clients cn) (com_queue cn) c;
         h = h(c := (h c)\<lparr>io_state := NOOP\<rparr>);
         (h, aq) = add_last h (action_queue cn) c
     in cn\<lparr>clients := h, com_queue := q, action_queue := aq, notifications := notifications cn + 1\<rparr>)"
  using assms by (simp add: finish_receive_def Let_def)

lemma move_to_action:
  assumes core: "conn_core cap cn xs ys W" and c: "c \<in> set xs"
    and r: "remove_node (clients cn) (com_queue cn) c = (h, q)"
    and a: "add_last (h(c := (h c)\<lparr>io_state := NOOP\<rparr>)) (action_queue cn) c = (h2, aq)"
  shows "queue_links h2 q (remove1 c xs)" "queue_links h2 aq (ys @ [c])" "size_ok aq (ys @ [c])"
    "\<forall>x. link.more (h2 x) = link.more (((clients cn)(c := (clients cn c)\<lparr>io_state := NOOP\<rparr>)) x)"
    "\<forall>w \<in> W. h2 w = clients cn w"
proof -
  let ?h = "h(c := (h c)\<lparr>io_state := NOOP\<rparr>)"
  note rm = remove_com [OF core c r]
  have d: "distinct xs" "set (remove1 c xs) = set xs - {c}"
    using conn_core_distinct [OF core] by (simp_all add: set_remove1_eq)
  have disj: "c \<notin> set ys" "c \<notin> W" "set xs \<inter> set ys = {}" "(set xs \<union> set ys) \<inter> W = {}"
    using core c by (auto simp: conn_core_def)
  have q1: "queue_links ?h q (remove1 c xs)" "queue_links ?h (action_queue cn) ys"
    using rm(1,2) by (simp_all add: queue_links_upd)
  show "queue_links h2 aq (ys @ [c])" by (rule nq.enq_links [OF q1(2) disj(1) a])
  show "queue_links h2 q (remove1 c xs)"
    by (rule nq.enq_other [OF q1(2,1) a]) (use d disj in auto)
  have "size_ok (action_queue cn) ys" using core by (simp add: conn_core_def)
  then show "size_ok aq (ys @ [c])"
    using add_last_size [OF _ _ a] conn_core_length [OF core] by (simp add: bounds_simps SIZE_MODULUS_def)
  have "link.more (h2 x) = link.more (?h x)" for x
    using same_payload_add_last [of ?h "action_queue cn" c] a by (simp add: same_payload_def)
  then show "\<forall>x. link.more (h2 x) = link.more (((clients cn)(c := (clients cn c)\<lparr>io_state := NOOP\<rparr>)) x)"
    using rm(4) more_io_state [OF rm(4) [of c]] by simp
  show "\<forall>w \<in> W. h2 w = clients cn w"
  proof
    fix w assume "w \<in> W"
    then have "w \<noteq> c" "w \<notin> set ys" "w \<notin> set xs" using disj by auto
    with nq.enq_frame [OF q1(2) a, of w] rm(5) [of w] show "h2 w = clients cn w" by simp
  qed
qed

lemma finish_receive_inv:
  assumes core: "conn_core cap cn xs ys W" and c: "c \<in> set xs"
    and preds: "\<forall>x \<in> set xs - {c}. com_client (clients cn x)"
      "\<forall>y \<in> set ys. pending_client (clients cn y)" "\<forall>w \<in> W - L. busy_client (clients cn w)"
    and msg: "message_complete (clients cn c)" "next_phase (clients cn c) = PENDING"
      "valid_select_fd (socket_fd (clients cn c))"
  shows "conn_inv cap L (finish_receive cb cn c) (remove1 c xs) (ys @ [c]) W"
    "only_client c cn (finish_receive cb cn c)"
proof -
  let ?cl = "(clients cn c)\<lparr>current_phase := PENDING\<rparr>"
  let ?cn = "set_client c ?cl cn"
  have ok: "client_ok cap (clients cn x)" for x using core by (simp add: conn_core_def)
  have okc: "client_ok cap ?cl" using ok [of c] by (simp add: client_ok_def client_caps_def)
  have core1: "conn_core cap ?cn xs ys W"
    by (rule conn_core_set_client [OF core okc]) simp_all
  obtain h q where r: "remove_node (clients ?cn) (com_queue ?cn) c = (h, q)" by fastforce
  let ?h = "h(c := (h c)\<lparr>io_state := NOOP\<rparr>)"
  obtain h2 aq where a: "add_last ?h (action_queue cn) c = (h2, aq)" by fastforce
  have fin: "finish_receive cb cn c =
      ?cn\<lparr>clients := h2, com_queue := q, action_queue := aq, notifications := notifications cn + 1\<rparr>"
    using r a by (simp add: finish_receive_pending [OF msg(2)] Let_def)
  have "add_last ?h (action_queue ?cn) c = (h2, aq)" using a by simp
  note mv = move_to_action [OF core1 c r this]
  have oc: "only_client c cn (finish_receive cb cn c)"
    using mv(4) by (simp add: only_client_def fin)
  then show "only_client c cn (finish_receive cb cn c)" .
  have d: "distinct xs" "set (remove1 c xs) = set xs - {c}"
    using conn_core_distinct [OF core] by (simp_all add: set_remove1_eq)
  have disj: "c \<notin> set ys" "c \<notin> W" "set xs \<inter> set ys = {}" "(set xs \<union> set ys) \<inter> W = {}"
    using core c by (auto simp: conn_core_def)
  have hc: "link.more (h2 c) = link.more (?cl\<lparr>io_state := NOOP\<rparr>)"
    using mv(4) by simp
  have pend: "pending_client (h2 c)"
    unfolding state_more_cong(3) [OF hc]
    using msg by (simp add: pending_client_def message_complete_def)
  have ok2: "client_ok cap (h2 x)" for x
  proof (cases "x = c")
    case True
    have "client_ok cap (?cl\<lparr>io_state := NOOP\<rparr>)" using okc by (simp add: client_ok_def client_caps_def)
    with True state_more_cong(1) [OF hc] show ?thesis by simp
  next
    case False
    with only_client_preds(3) [OF oc False] ok show ?thesis by (simp add: fin)
  qed
  have frame: "h2 w = clients cn w" if "w \<in> W" for w
    using mv(5) disj(2) that by auto
  have core2: "conn_core cap (finish_receive cb cn c) (remove1 c xs) (ys @ [c]) W"
    using core c mv(1-3) ok2 d disj by (auto simp: conn_core_def fin)
  show "conn_inv cap L (finish_receive cb cn c) (remove1 c xs) (ys @ [c]) W"
    unfolding conn_inv_def
  proof (intro conjI)
    show "\<forall>x \<in> set (remove1 c xs). com_client (clients (finish_receive cb cn c) x)"
      using only_client_all(1) [OF oc _ preds(1)] d by simp
    show "\<forall>y \<in> set (ys @ [c]). pending_client (clients (finish_receive cb cn c) y)"
      using only_client_all(2) [OF oc disj(1) preds(2)] pend by (simp add: fin)
    show "\<forall>w \<in> W - L. busy_client (clients (finish_receive cb cn c) w)"
      using preds(3) frame by (simp add: fin)
  qed (fact core2)
qed

section \<open>One client's turn\<close>

text \<open>What POSIX promises of the transfers, for every call.\<close>

definition env_ok :: "os_env \<Rightarrow> bool" where
  "env_ok env \<longleftrightarrow> (\<forall>fd n. recv_allowed n (os_recv env fd n)) \<and>
     (\<forall>fd buf. send_allowed (length buf) (os_send env fd buf))"

text \<open>
  The three ways a turn can end: the client stays, it is closed, or its request goes to the
  workers.
\<close>

definition turn_result ::
  "nat \<Rightarrow> nat list \<Rightarrow> nat list \<Rightarrow> nat list \<Rightarrow> nat list \<Rightarrow> bool" where
  "turn_result c xs ys xs' ys' \<longleftrightarrow> xs' = xs \<and> ys' = ys \<or> xs' = remove1 c xs \<and> ys' = ys \<or>
     xs' = remove1 c xs \<and> ys' = ys @ [c]"

lemma client_ok_receive:
  assumes "client_ok cap cl" and "receive_bytes cl data = (complete, cl')"
    and "length (io_buffer cl') = IO_BUFFER_SIZE"
  shows "client_ok cap cl'"
  using assms receive_bytes_sel [OF assms(2)] by (simp add: client_ok_def client_caps_def)

context char_buffer begin

lemma receive_turn:
  assumes inv: "conn_inv cap L cn xs ys W" and c: "c \<in> set xs" and rd: "reading (clients cn c)"
    and env: "env_ok env" and eq: "receive_message cb (os_recv env) cn c = (complete, cn1)"
  shows "\<exists>xs' ys'. conn_inv cap L (if complete then finish_receive cb cn1 c else cn1) xs' ys' W \<and>
    turn_result c xs ys xs' ys' \<and>
    only_client c cn (if complete then finish_receive cb cn1 c else cn1) \<and>
    (complete \<longrightarrow> ys' = ys @ [c]) \<and>
    (\<not> complete \<and> valid_select_fd (socket_fd (clients cn1 c)) \<longrightarrow> xs' = xs \<and> ys' = ys)"
proof -
  let ?cl = "clients cn c"
  let ?r = "os_recv env (socket_fd ?cl) (req_read_size ?cl)"
  have core: "conn_core cap cn xs ys W" and ok: "client_ok cap ?cl" and fd: "valid_select_fd (socket_fd ?cl)"
    and preds: "\<forall>x \<in> set xs - {c}. com_client (clients cn x)"
      "\<forall>y \<in> set ys. pending_client (clients cn y)" "\<forall>w \<in> W - L. busy_client (clients cn w)"
    using inv c by (auto simp: conn_inv_def conn_core_def com_client_def)
  have closed: ?thesis if "complete = False" "cn1 = close_connection cb cn c"
    using that close_connection_inv [OF core c preds] close_connection_core(2) [OF core c]
    by (auto simp: turn_result_def closed_fd valid_select_fd_def FD_NONE_def)
  show ?thesis
  proof (cases ?r)
    case (Received data)
    have len: "data \<noteq> []" "length data \<le> req_read_size ?cl"
      using env Received [symmetric] by (auto simp: env_ok_def recv_allowed_def split: recv_result.splits)
    obtain f cl' where rb: "receive_bytes ?cl data = (f, cl')" by fastforce
    with eq Received len have cn1: "complete = f" "cn1 = set_client c cl' cn"
      by (auto simp: receive_message_def Let_def)
    note sel = receive_bytes_sel [OF rb]
    have res: "if f then message_complete cl' else recv_inv cl'"
      using rd receive_bytes_inv [OF _ len(2) rb] by (simp add: reading_def)
    then have buf: "length (io_buffer cl') = IO_BUFFER_SIZE"
      by (auto simp: message_complete_def recv_inv_def split: if_splits)
    note ok' = client_ok_receive [OF ok rb buf]
    show ?thesis
    proof (cases f)
      case False
      with res rd fd have "com_client cl'" by (simp add: com_client_def reading_def sel)
      from conn_inv_set_com [OF inv c ok' this] sel False cn1 show ?thesis
        by (auto simp: turn_result_def)
    next
      case True
      have core1: "conn_core cap cn1 xs ys W"
        unfolding cn1 by (rule conn_core_set_client [OF core ok']) (simp_all add: sel)
      have c1: "clients cn1 c = cl'" "only_client c cn cn1" by (simp_all add: cn1)
      have disj: "c \<notin> set ys" "c \<notin> W" using core c by (auto simp: conn_core_def)
      have "\<forall>w \<in> W - L. busy_client (clients cn1 w)" using preds(3) disj by (auto simp: cn1)
      from finish_receive_inv [OF core1 c only_client_all(1) [OF c1(2) _ preds(1)]
          only_client_all(2) [OF c1(2) disj(1) preds(2)] this, of cb]
        res True rd fd sel c1(1) cn1(1)
      have "conn_inv cap L (finish_receive cb cn1 c) (remove1 c xs) (ys @ [c]) W"
        "only_client c cn1 (finish_receive cb cn1 c)"
        by (simp_all add: reading_def)
      with True cn1(1) only_client_trans [OF c1(2)] show ?thesis by (auto simp: turn_result_def)
    qed
  qed (use eq closed in \<open>auto simp: receive_message_def Let_def\<close>)
qed

end

lemma prepare_send_sel:
  "socket_fd (prepare_send cl) = socket_fd cl" "current_phase (prepare_send cl) = current_phase cl"
  "next_phase (prepare_send cl) = next_phase cl" "io_state (prepare_send cl) = io_state cl"
  "next_node (prepare_send cl) = next_node cl" "prev_node (prepare_send cl) = prev_node cl"
  "length (io_buffer (prepare_send cl)) = length (io_buffer cl)"
  "client_ok cap (prepare_send cl) = client_ok cap cl"
  by (simp_all add: prepare_send_def Let_def client_ok_def client_caps_def)

lemma sent_bytes_sel:
  assumes "sent_bytes cl n = (complete, cl')"
  shows "socket_fd cl' = socket_fd cl" "current_phase cl' = current_phase cl"
    "next_phase cl' = next_phase cl" "io_state cl' = io_state cl"
    "next_node cl' = next_node cl" "prev_node cl' = prev_node cl"
    "io_buffer cl' = io_buffer cl" "client_ok cap cl' = client_ok cap cl"
  using assms by (auto simp: sent_bytes_def Let_def client_ok_def client_caps_def split: if_splits)

context char_buffer begin

text \<open>The reply is out: the client reads its next request or is closed.\<close>

lemma finish_send_turn:
  assumes core: "conn_core cap cn xs ys W" and c: "c \<in> set xs"
    and preds: "\<forall>x \<in> set xs - {c}. com_client (clients cn x)"
      "\<forall>y \<in> set ys. pending_client (clients cn y)" "\<forall>w \<in> W - L. busy_client (clients cn w)"
    and cl: "next_phase (clients cn c) \<in> {RECV, CANCELED}" "valid_select_fd (socket_fd (clients cn c))"
  shows "\<exists>xs'. conn_inv cap L (finish_send cb cn c) xs' ys W \<and> turn_result c xs ys xs' ys \<and>
    only_client c cn (finish_send cb cn c)"
proof -
  let ?cl = "(clients cn c)\<lparr>current_phase := next_phase (clients cn c)\<rparr>"
  let ?cn = "set_client c ?cl cn"
  have ok: "client_ok cap (clients cn c)" using core by (simp add: conn_core_def)
  have core1: "conn_core cap ?cn xs ys W"
    by (rule conn_core_set_client [OF core])
      (use ok in \<open>simp_all add: client_ok_def client_caps_def\<close>)
  have disj: "c \<notin> set ys" "c \<notin> W" using core c by (auto simp: conn_core_def)
  have preds1: "\<forall>x \<in> set xs - {c}. com_client (clients ?cn x)"
    "\<forall>y \<in> set ys. pending_client (clients ?cn y)" "\<forall>w \<in> W - L. busy_client (clients ?cn w)"
    using preds disj by auto
  show ?thesis
  proof (cases "next_phase (clients cn c) = CANCELED")
    case True
    then have f: "finish_send cb cn c = close_connection cb ?cn c"
      by (simp add: finish_send_def Let_def)
    have "only_client c cn (close_connection cb ?cn c)"
      by (rule only_client_trans [OF only_client_set close_connection_core(2) [OF core1 c]])
    with close_connection_inv [OF core1 c preds1] f show ?thesis
      by (auto simp: turn_result_def)
  next
    case False
    then have n: "next_phase (clients cn c) = RECV" using cl by simp
    let ?new = "(clear_io_buffer ?cl)\<lparr>next_phase := PENDING, io_state := READ\<rparr>"
    from n have f: "finish_send cb cn c = set_client c ?new ?cn"
      by (simp add: finish_send_def Let_def)
    have "length (io_buffer (clients cn c)) = IO_BUFFER_SIZE" using ok by (simp add: client_ok_def)
    then have "client_ok cap ?new" "com_client ?new"
      using ok cl n
      by (simp_all add: client_ok_def client_caps_def com_client_def reading_def recv_inv_def bounds_simps)
    moreover have "conn_core cap (set_client c ?new cn) xs ys W"
      by (rule conn_core_set_client [OF core \<open>client_ok cap ?new\<close>]) simp_all
    moreover have "set_client c ?new ?cn = set_client c ?new cn" by simp
    ultimately have "conn_inv cap L (finish_send cb cn c) xs ys W"
      unfolding f conn_inv_def using preds disj by auto
    then show ?thesis
      unfolding f by (auto simp: turn_result_def only_client_def)
  qed
qed

lemma sent_turn:
  assumes inv: "conn_inv cap L cn xs ys W" and c: "c \<in> set xs" and wr: "writing (clients cn c)"
    and n: "n \<le> length (send_buffer (prepare_send (clients cn c)))"
    and sb: "sent_bytes (prepare_send (clients cn c)) n = (complete, cl')" and cn1: "cn1 = set_client c cl' cn"
  shows "\<exists>xs'. conn_inv cap L (if complete then finish_send cb cn1 c else cn1) xs' ys W \<and>
    turn_result c xs ys xs' ys \<and>
    only_client c cn (if complete then finish_send cb cn1 c else cn1)"
proof -
  have core: "conn_core cap cn xs ys W" and ok: "client_ok cap (prepare_send (clients cn c))"
    and fd: "valid_select_fd (socket_fd (clients cn c))"
    and preds: "\<forall>x \<in> set xs - {c}. com_client (clients cn x)"
      "\<forall>y \<in> set ys. pending_client (clients cn y)" "\<forall>w \<in> W - L. busy_client (clients cn w)"
    using inv c by (auto simp: conn_inv_def conn_core_def com_client_def prepare_send_sel)
  have snd: "send_inv (prepare_send (clients cn c))" "have_header (prepare_send (clients cn c))"
    using wr prepare_send_inv by (auto simp: writing_def)
  have disj: "c \<notin> set ys" "c \<notin> W" using core c by (auto simp: conn_core_def)
  note sel = sent_bytes_sel [OF sb] prepare_send_sel
  have ok': "client_ok cap cl'" using ok by (simp add: sel)
  have core1: "conn_core cap cn1 xs ys W"
    unfolding cn1 by (rule conn_core_set_client [OF core ok']) (simp_all add: sel)
  have c1: "clients cn1 c = cl'" "only_client c cn cn1" by (simp_all add: cn1)
  have preds1: "\<forall>w \<in> W - L. busy_client (clients cn1 w)" using preds(3) disj by (auto simp: cn1)
  show ?thesis
  proof (cases complete)
    case False
    with sent_bytes_inv [OF snd n sb] wr fd have "com_client cl'"
      by (simp add: com_client_def writing_def sel)
    from conn_inv_set_com [OF inv c ok' this] have "conn_inv cap L cn1 xs ys W"
      by (simp add: cn1 sel)
    with False cn1 show ?thesis by (auto simp: turn_result_def)
  next
    case True
    from finish_send_turn [OF core1 c only_client_all(1) [OF c1(2) _ preds(1)]
        only_client_all(2) [OF c1(2) disj(1) preds(2)] preds1] wr fd
    obtain xs' where "conn_inv cap L (finish_send cb cn1 c) xs' ys W" "turn_result c xs ys xs' ys"
      "only_client c cn1 (finish_send cb cn1 c)"
      by (auto simp: c1(1) sel writing_def)
    with True only_client_trans [OF c1(2)] show ?thesis by auto
  qed
qed

lemma send_turn:
  assumes inv: "conn_inv cap L cn xs ys W" and c: "c \<in> set xs" and wr: "writing (clients cn c)"
    and env: "env_ok env" and eq: "send_message cb (os_send env) cn c = (complete, cn1)"
  shows "\<exists>xs'. conn_inv cap L (if complete then finish_send cb cn1 c else cn1) xs' ys W \<and>
    turn_result c xs ys xs' ys \<and>
    only_client c cn (if complete then finish_send cb cn1 c else cn1)"
proof -
  let ?cl = "prepare_send (clients cn c)"
  let ?cn = "set_client c ?cl cn"
  let ?r = "os_send env (socket_fd ?cl) (send_buffer ?cl)"
  have core: "conn_core cap cn xs ys W" and ok: "client_ok cap ?cl"
    and fd: "valid_select_fd (socket_fd (clients cn c))"
    and preds: "\<forall>x \<in> set xs - {c}. com_client (clients cn x)"
      "\<forall>y \<in> set ys. pending_client (clients cn y)" "\<forall>w \<in> W - L. busy_client (clients cn w)"
    using inv c by (auto simp: conn_inv_def conn_core_def com_client_def prepare_send_sel)
  have disj: "c \<notin> set ys" "c \<notin> W" using core c by (auto simp: conn_core_def)
  note sent = sent_turn [OF inv c wr]
  show ?thesis
  proof (cases ?r)
    case (Sent n)
    then have n: "n \<le> length (send_buffer ?cl)"
      using env [unfolded env_ok_def, THEN conjunct2, rule_format, of "send_buffer ?cl" "socket_fd ?cl"]
      by (simp add: send_allowed_def)
    obtain f cl' where "sent_bytes ?cl n = (f, cl')" by fastforce
    with eq Sent sent [OF n, of complete cl'] show ?thesis by (simp add: send_message_def Let_def)
  next
    case SendWouldBlock
    obtain f cl' where "sent_bytes ?cl 0 = (f, cl')" by fastforce
    with eq SendWouldBlock sent [of 0 complete cl'] show ?thesis by (simp add: send_message_def Let_def)
  next
    case SendFailed
    with eq have cn1: "complete = False" "cn1 = close_connection cb ?cn c"
      by (simp_all add: send_message_def Let_def)
    have core1: "conn_core cap ?cn xs ys W"
      by (rule conn_core_set_client [OF core ok]) (simp_all add: prepare_send_sel)
    have preds1: "\<forall>x \<in> set xs - {c}. com_client (clients ?cn x)"
      "\<forall>y \<in> set ys. pending_client (clients ?cn y)" "\<forall>w \<in> W - L. busy_client (clients ?cn w)"
      using preds disj by auto
    have "only_client c cn (close_connection cb ?cn c)"
      by (rule only_client_trans [OF only_client_set close_connection_core(2) [OF core1 c]])
    with close_connection_inv [OF core1 c preds1] cn1 show ?thesis by (auto simp: turn_result_def)
  qed
qed

end

section \<open>A pass over the com queue\<close>

text \<open>The client's descriptor only changes when the connection is closed.\<close>

definition keeps_fd :: "nat \<Rightarrow> 'b connector \<Rightarrow> 'b connector \<Rightarrow> bool" where
  "keeps_fd c cn cn' \<longleftrightarrow>
     socket_fd (clients cn' c) \<in> {socket_fd (clients cn c), FD_NONE} \<and>
     server_fd cn' = server_fd cn \<and> trigger_read_fd cn' = trigger_read_fd cn \<and>
     trigger_write_fd cn' = trigger_write_fd cn \<and> stop_signal cn' = stop_signal cn \<and>
     trigger_pipe cn' = trigger_pipe cn \<and> server_domain cn' = server_domain cn"

lemma keeps_fd_trans: "keeps_fd c cn cn1 \<Longrightarrow> keeps_fd c cn1 cn2 \<Longrightarrow> keeps_fd c cn cn2"
  by (auto simp: keeps_fd_def)

lemma keeps_fd_set [simp]:
  "keeps_fd c cn (set_client c cl cn) \<longleftrightarrow> socket_fd cl \<in> {socket_fd (clients cn c), FD_NONE}"
  by (simp add: keeps_fd_def)

lemma remove_node_fd: "remove_node h q c = (h', q') \<Longrightarrow> socket_fd (h' x) = socket_fd (h x)"
  for h :: "nat \<Rightarrow> 'b net_client"
  using state_more_cong(4) [OF same_payload_more [OF same_payload_remove_node]] by (metis fst_conv)

lemma add_last_fd: "add_last h q c = (h', q') \<Longrightarrow> socket_fd (h' x) = socket_fd (h x)"
  for h :: "nat \<Rightarrow> 'b net_client"
  using state_more_cong(4) [OF same_payload_more [OF same_payload_add_last]] by (metis fst_conv)

lemma keeps_fd_close: "keeps_fd c cn (close_connection cb cn c)"
  by (simp add: keeps_fd_def close_connection_def clear_client_def split: prod.splits)

lemma keeps_fd_set_close:
  "socket_fd cl = socket_fd (clients cn c) \<Longrightarrow> keeps_fd c cn (close_connection cb (set_client c cl cn) c)"
  by (rule keeps_fd_trans [OF _ keeps_fd_close]) simp

lemma keeps_fd_finish_receive: "keeps_fd c cn (finish_receive cb cn c)"
  using keeps_fd_set_close [of _ cn c cb]
  by (auto simp: finish_receive_def Let_def keeps_fd_def dest!: remove_node_fd [of _ _ _ _ _ c]
      add_last_fd [of _ _ _ _ _ c] split: prod.splits)

lemma keeps_fd_finish_send: "keeps_fd c cn (finish_send cb cn c)"
  by (simp add: finish_send_def Let_def keeps_fd_set_close)

lemma keeps_fd_receive: "receive_message cb recv cn c = (f, cn') \<Longrightarrow> keeps_fd c cn cn'"
  by (auto simp: receive_message_def Let_def keeps_fd_close dest: receive_bytes_sel(3)
      split: recv_result.splits if_splits prod.splits)

lemma keeps_fd_send: "send_message cb send cn c = (f, cn') \<Longrightarrow> keeps_fd c cn cn'"
  by (auto simp: send_message_def Let_def prepare_send_sel keeps_fd_set_close
      dest: sent_bytes_sel(1) split: send_result.splits prod.splits)

text \<open>
  The ready sets that \<open>select\<close> returns are within those it was given, so a client that is
  ready for reading reads and one that is ready for writing writes.
\<close>

definition sets_match :: "'b connector \<Rightarrow> nat list \<Rightarrow> fd_set \<Rightarrow> fd_set \<Rightarrow> bool" where
  "sets_match cn xs rd wr \<longleftrightarrow>
     (\<forall>x \<in> set xs. (socket_fd (clients cn x) \<in> rd \<longrightarrow> io_state (clients cn x) = READ) \<and>
                   (socket_fd (clients cn x) \<in> wr \<longrightarrow> io_state (clients cn x) = WRITE))"

text \<open>Serving a list of clients one after the other.\<close>

fun serve_all ::
  "'b char_buffer_ops \<Rightarrow> os_env \<Rightarrow> fd_set \<Rightarrow> fd_set \<Rightarrow> nat list \<Rightarrow> 'b connector \<Rightarrow> 'b connector option" where
  "serve_all cb env rd wr [] cn = Some cn"
| "serve_all cb env rd wr (c # cs) cn =
     (case client_io cb env rd wr cn c of
        None \<Rightarrow> None
      | Some cn \<Rightarrow> serve_all cb env rd wr cs cn)"

definition same_descriptors :: "'b connector \<Rightarrow> 'b connector \<Rightarrow> bool" where
  "same_descriptors cn cn' \<longleftrightarrow> server_fd cn' = server_fd cn \<and>
     trigger_read_fd cn' = trigger_read_fd cn \<and> trigger_write_fd cn' = trigger_write_fd cn \<and>
     stop_signal cn' = stop_signal cn"

context char_buffer begin

lemma client_io_turn:
  assumes inv: "conn_inv cap L cn xs ys W" and c: "c \<in> set xs" and env: "env_ok env"
    and sets: "sets_match cn (c # rest) rd wr"
  shows "\<exists>cn' xs' ys'. client_io cb env rd wr cn c = Some cn' \<and> conn_inv cap L cn' xs' ys' W \<and>
    turn_result c xs ys xs' ys' \<and> only_client c cn cn' \<and> keeps_fd c cn cn'"
proof -
  let ?cl = "clients cn c"
  have com: "valid_select_fd (socket_fd ?cl)" "reading ?cl \<or> writing ?cl"
    using inv c by (auto simp: conn_inv_def com_client_def)
  then have phase: "current_phase ?cl \<noteq> CANCELED" by (auto simp: reading_def writing_def)
  consider (rd) "socket_fd ?cl \<in> rd" | (wr) "socket_fd ?cl \<notin> rd" "socket_fd ?cl \<in> wr"
    | (idle) "socket_fd ?cl \<notin> rd" "socket_fd ?cl \<notin> wr" by blast
  then show ?thesis
  proof cases
    case rd
    with sets com have r: "reading ?cl" by (auto simp: sets_match_def writing_def)
    obtain f cn1 where m: "receive_message cb (os_recv env) cn c = (f, cn1)" by fastforce
    have "keeps_fd c cn (if f then finish_receive cb cn1 c else cn1)"
      using keeps_fd_trans [OF keeps_fd_receive [OF m] keeps_fd_finish_receive] keeps_fd_receive [OF m]
      by simp
    moreover have "client_io cb env rd wr cn c = Some (if f then finish_receive cb cn1 c else cn1)"
      using rd phase com m by (simp add: client_io_def Let_def FD_ISSET_def)
    ultimately show ?thesis using receive_turn [OF inv c r env m] by blast
  next
    case wr
    with sets com have w: "writing ?cl" by (auto simp: sets_match_def reading_def)
    obtain f cn1 where m: "send_message cb (os_send env) cn c = (f, cn1)" by fastforce
    have "keeps_fd c cn (if f then finish_send cb cn1 c else cn1)"
      using keeps_fd_trans [OF keeps_fd_send [OF m] keeps_fd_finish_send] keeps_fd_send [OF m]
      by simp
    moreover have "client_io cb env rd wr cn c = Some (if f then finish_send cb cn1 c else cn1)"
      using wr phase com m by (simp add: client_io_def Let_def FD_ISSET_def)
    ultimately show ?thesis using send_turn [OF inv c w env m] by blast
  next
    case idle
    then have "client_io cb env rd wr cn c = Some cn"
      using phase com by (simp add: client_io_def Let_def FD_ISSET_def)
    with inv show ?thesis by (auto simp: turn_result_def only_client_def keeps_fd_def)
  qed
qed

lemma sets_match_turn:
  assumes "sets_match cn (c # rest) rd wr" and "only_client c cn cn'" and "c \<notin> set rest"
  shows "sets_match cn' rest rd wr"
proof -
  have "io_state (clients cn' x) = io_state (clients cn x) \<and>
      socket_fd (clients cn' x) = socket_fd (clients cn x)" if "x \<in> set rest" for x
  proof -
    have "x \<noteq> c" using assms(3) that by auto
    then have "link.more (clients cn' x) = link.more (clients cn x)"
      using assms(2) by (simp add: only_client_def)
    from state_more_cong(4,5) [OF this] show ?thesis by simp
  qed
  with assms(1) show ?thesis by (auto simp: sets_match_def)
qed

end

text \<open>What a pass, or a part of it, leaves.\<close>

definition pass_result ::
  "'b connector \<Rightarrow> 'b connector \<Rightarrow> nat list \<Rightarrow> nat list \<Rightarrow> nat list \<Rightarrow> nat list \<Rightarrow> bool" where
  "pass_result cn cn' xs ys xs' ys' \<longleftrightarrow> set xs' \<subseteq> set xs \<and> set ys \<subseteq> set ys' \<and>
     set ys' \<subseteq> set xs \<union> set ys \<and>
     (\<forall>x \<in> set xs' \<union> set ys'. socket_fd (clients cn' x) = socket_fd (clients cn x)) \<and>
     (\<forall>x. x \<notin> set xs \<longrightarrow> link.more (clients cn' x) = link.more (clients cn x)) \<and>
     same_descriptors cn cn'"

lemma pass_result_refl: "pass_result cn cn xs ys xs ys"
  by (simp add: pass_result_def same_descriptors_def)

lemma pass_result_trans:
  assumes "pass_result cn cn1 xs ys xs1 ys1" and "pass_result cn1 cn2 xs1 ys1 xs2 ys2"
  shows "pass_result cn cn2 xs ys xs2 ys2"
proof -
  have "socket_fd (clients cn2 x) = socket_fd (clients cn x)" if "x \<in> set xs2 \<union> set ys2" for x
  proof -
    have "x \<in> set xs1 \<union> set ys1" using assms(2) that by (auto simp: pass_result_def)
    then show ?thesis using assms that by (auto simp: pass_result_def)
  qed
  moreover have "link.more (clients cn2 x) = link.more (clients cn x)" if "x \<notin> set xs" for x
  proof -
    have "x \<notin> set xs1" using assms(1) that by (auto simp: pass_result_def)
    then show ?thesis using assms that by (simp add: pass_result_def)
  qed
  moreover have "set xs2 \<subseteq> set xs" "set ys \<subseteq> set ys2" "set ys2 \<subseteq> set xs \<union> set ys"
    using assms unfolding pass_result_def by blast+
  moreover have "same_descriptors cn cn2"
    using assms by (simp add: pass_result_def same_descriptors_def)
  ultimately show ?thesis by (simp add: pass_result_def)
qed

lemma turn_pass_result:
  assumes inv: "conn_inv cap L cn xs ys W" "conn_inv cap L cn' xs' ys' W" and c: "c \<in> set xs"
    and t: "turn_result c xs ys xs' ys'" "only_client c cn cn'" "keeps_fd c cn cn'"
  shows "pass_result cn cn' xs ys xs' ys'"
proof -
  have d: "set (remove1 c xs) = set xs - {c}"
    using inv(1) conn_core_distinct [of cap cn xs ys W] by (simp add: conn_inv_def set_remove1_eq)
  have fd: "socket_fd (clients cn' x) = socket_fd (clients cn x)" if x: "x \<in> set xs' \<union> set ys'" for x
  proof (cases "x = c")
    case True
    have "valid_select_fd (socket_fd (clients cn' x))"
      using inv(2) x by (auto simp: conn_inv_def com_client_def pending_client_def)
    with t(3) True show ?thesis by (auto simp: keeps_fd_def valid_select_fd_def FD_NONE_def)
  next
    case False
    with only_client_preds(4) [OF t(2)] show ?thesis by simp
  qed
  have "set xs' \<subseteq> set xs" "set ys \<subseteq> set ys'" "set ys' \<subseteq> set xs \<union> set ys"
    using t(1) c d unfolding turn_result_def by (elim disjE conjE; simp add: subset_insertI)+
  moreover have "link.more (clients cn' x) = link.more (clients cn x)" if "x \<notin> set xs" for x
    using t(2) c that by (auto simp: only_client_def)
  moreover have "same_descriptors cn cn'"
    using t(3) by (simp add: keeps_fd_def same_descriptors_def)
  ultimately show ?thesis using fd by (simp add: pass_result_def)
qed

context char_buffer begin

lemma io_walk_serves:
  assumes "conn_inv cap L cn xs ys W" and "env_ok env" and "xs = as @ rest"
    and "sets_match cn rest rd wr"
  shows "\<exists>cn' xs' ys'. io_walk cb env rd wr cn (first_or None rest) = Some cn' \<and>
    serve_all cb env rd wr rest cn = Some cn' \<and> conn_inv cap L cn' xs' ys' W \<and>
    pass_result cn cn' xs ys xs' ys'"
  using assms
proof (induction rest arbitrary: cn xs ys as)
  case Nil
  then show ?case using pass_result_refl [of cn xs ys] by (subst io_walk.simps) auto
next
  case (Cons c rest)
  note inv = Cons.prems(1)
  have links: "queue_links (clients cn) (com_queue cn) (as @ c # rest)"
    using inv Cons.prems(3) by (simp add: conn_inv_def conn_core_def)
  then have d: "c \<notin> set as" "c \<notin> set rest" by (auto dest: queue_links_distinct)
  have nxt: "get_next_node (clients cn) c = first_or None rest"
    using links by (simp add: queue_links_def get_next_node_def)
  have c: "c \<in> set xs" using Cons.prems(3) by simp
  from client_io_turn [OF inv c Cons.prems(2,4)] obtain cn1 xs1 ys1 where
    io: "client_io cb env rd wr cn c = Some cn1" and inv1: "conn_inv cap L cn1 xs1 ys1 W"
    and t: "turn_result c xs ys xs1 ys1" "only_client c cn cn1" "keeps_fd c cn cn1"
    by blast
  have "remove1 c xs = as @ rest" using Cons.prems(3) d by (simp add: remove1_append)
  with t(1) Cons.prems(3) have "\<exists>as1. xs1 = as1 @ rest"
    by (auto simp: turn_result_def)
  then obtain as1 where xs1: "xs1 = as1 @ rest" by blast
  from Cons.IH [OF inv1 Cons.prems(2) xs1 sets_match_turn [OF Cons.prems(4) t(2) d(2)]]
  obtain cn2 xs2 ys2 where r: "io_walk cb env rd wr cn1 (first_or None rest) = Some cn2"
    "serve_all cb env rd wr rest cn1 = Some cn2" "conn_inv cap L cn2 xs2 ys2 W"
    "pass_result cn1 cn2 xs1 ys1 xs2 ys2" by blast
  have "io_walk cb env rd wr cn (first_or None (c # rest)) = Some cn2"
    using io nxt r(1) by (subst io_walk.simps) simp
  moreover have "pass_result cn cn2 xs ys xs2 ys2"
    by (rule pass_result_trans [OF turn_pass_result [OF inv inv1 c t] r(4)])
  ultimately show ?case using io r(2,3) by auto
qed

lemma io_pass_serves:
  assumes "conn_inv cap L cn xs ys W" and "env_ok env" and "sets_match cn xs rd wr"
  shows "\<exists>cn' xs' ys'. io_pass cb env rd wr cn = Some cn' \<and>
    serve_all cb env rd wr xs cn = Some cn' \<and> conn_inv cap L cn' xs' ys' W \<and>
    pass_result cn cn' xs ys xs' ys'"
proof -
  have "get_first (com_queue cn) = first_or None xs"
    using assms(1) by (simp add: conn_inv_def conn_core_def queue_links_def get_first_def)
  with io_walk_serves [OF assms(1,2), of "[]" xs] assms(3) show ?thesis by (simp add: io_pass_def)
qed

end

end
