(* ===== verification/Selector_Inv.thy ===== *)
theory Selector_Inv
  imports Connector_Inv
begin

text \<open>
  One whole iteration of the selector loop: the descriptor sets it builds, the connection it
  accepts, and the pass over the clients, against the invariant of Connector_Inv.
\<close>

section \<open>Accepting a connection\<close>

text \<open>
  What \<open>accept\<close> promises when it succeeds: a descriptor that is not in use, small enough for
  \<open>select\<close>, and an address that fits the buffers it was given.
\<close>

definition accepted_ok :: "'b connector \<Rightarrow> nat set \<Rightarrow> accept_result \<Rightarrow> bool" where
  "accepted_ok cn S r \<longleftrightarrow>
     (case r of
        Accepted fd addr len \<Rightarrow> valid_select_fd fd \<and> fd \<notin> {server_fd cn, trigger_read_fd cn} \<and>
          fd \<notin> (\<lambda>x. socket_fd (clients cn x)) ` S \<and> (\<forall>c. len \<le> length (address (clients cn c)))
      | AcceptFailed \<Rightarrow> False)"

definition new_client :: "'b char_buffer_ops \<Rightarrow> accept_result \<Rightarrow> domain \<Rightarrow> 'b net_client \<Rightarrow> 'b net_client" where
  "new_client cb r d cl =
     (accept_into r (clear_client cb cl))
       \<lparr>socket_domain := d, io_state := READ, current_phase := RECV, next_phase := PENDING\<rparr>"

lemma accept_connection_eq:
  "accept_connection cb r cn =
    (case allocate (client_pool cn) of
       (Inl e, pool) \<Rightarrow> cn\<lparr>client_pool := pool\<rparr>
     | (Inr c, pool) \<Rightarrow>
         (case add_last ((clients cn)(c := new_client cb r (server_domain cn) (clients cn c))) (com_queue cn) c of
            (h, q) \<Rightarrow> cn\<lparr>clients := h, com_queue := q, client_pool := pool\<rparr>))"
  by (simp add: accept_connection_def allocate_scope_def release_scope_ptr_def end_scope_def
      new_client_def Let_def split: prod.splits sum.splits)

context char_buffer begin

lemma new_client_ok:
  assumes "client_ok cap cl" and "r = Accepted fd addr len" and "len \<le> length (address cl)"
    and "valid_select_fd fd"
  shows "client_ok cap (new_client cb r d cl)" "com_client (new_client cb r d cl)"
    "socket_fd (new_client cb r d cl) = fd"
proof -
  have ok: "client_ok cap (clear_client cb cl)" by (rule client_ok_clear [OF assms(1)])
  have l: "length (address (clear_client cb cl)) = length (address cl)"
    "address_length (clear_client cb cl) = address_length cl"
    "length (io_buffer (clear_client cb cl)) = length (io_buffer cl)"
    by (simp_all add: clear_client_def)
  have "address_length cl \<le> length (address cl)" using assms(1) by (simp add: client_ok_def)
  then show "client_ok cap (new_client cb r d cl)"
    using ok l assms(2,3) by (simp add: client_ok_def client_caps_def new_client_def accept_into_def)
  have c: "io_offset (clear_client cb cl) = 0" "\<not> have_header (clear_client cb cl)"
    by (simp_all add: clear_client_def)
  have "length (io_buffer cl) = IO_BUFFER_SIZE" using assms(1) by (simp add: client_ok_def)
  then show "com_client (new_client cb r d cl)"
    using assms(2,4) c l
    by (simp add: com_client_def reading_def recv_inv_def new_client_def accept_into_def bounds_simps)
  show "socket_fd (new_client cb r d cl) = fd"
    by (simp add: new_client_def accept_into_def assms(2))
qed

lemma accept_connection_core:
  assumes core: "conn_core cap cn xs ys W" and free: "alloc_index (client_pool cn) > 0"
    and new: "\<And>c. client_ok cap (new_client cb r (server_domain cn) (clients cn c))"
  shows "\<exists>c. c \<notin> set xs \<union> set ys \<union> W \<and> conn_core cap (accept_connection cb r cn) (xs @ [c]) ys W \<and>
    only_client c cn (accept_connection cb r cn) \<and>
    link.more (clients (accept_connection cb r cn) c) =
      link.more (new_client cb r (server_domain cn) (clients cn c)) \<and>
    (\<forall>w \<in> W. clients (accept_connection cb r cn) w = clients cn w) \<and>
    same_descriptors cn (accept_connection cb r cn)"
proof -
  from core have pool: "alloc_inv (client_pool cn)" and used: "used_objects (client_pool cn) = set xs \<union> set ys \<union> W"
    and ok: "client_ok cap (clients cn x)" for x by (simp_all add: conn_core_def)
  obtain c pool' where al: "allocate (client_pool cn) = (Inr c, pool')"
    using free by (auto simp: allocate_def Let_def)
  note get = ga.get_ok [OF pool, of c, unfolded al fst_conv snd_conv, OF refl]
  have c: "c \<notin> set xs \<union> set ys \<union> W" using get used by simp
  let ?new = "new_client cb r (server_domain cn) (clients cn c)"
  let ?h = "(clients cn)(c := ?new)"
  obtain h q where a: "add_last ?h (com_queue cn) c = (h, q)" by fastforce
  have cn': "accept_connection cb r cn = cn\<lparr>clients := h, com_queue := q, client_pool := pool'\<rparr>"
    by (simp add: accept_connection_eq al a)
  have pay: "link.more (h x) = link.more (?h x)" for x
    using same_payload_add_last [of ?h "com_queue cn" c] a by (simp add: same_payload_def)
  have oc: "only_client c cn (accept_connection cb r cn)"
    using pay by (simp add: only_client_def cn')
  have l: "queue_links ?h (com_queue cn) xs" "queue_links ?h (action_queue cn) ys"
    using core c
    by (auto simp: conn_core_def intro: queue_links_local [of _ _ "clients cn"])
  have l1: "queue_links h q (xs @ [c])" by (rule nq.enq_links [OF l(1) _ a]) (use c in simp)
  have l2: "queue_links h (action_queue cn) ys"
    by (rule nq.enq_other [OF l(1,2) a]) (use c core in \<open>auto simp: conn_core_def\<close>)
  have "client_ok cap (h x)" for x
    using state_more_cong(1) [OF pay [of x]] ok new by simp
  then have "conn_core cap (accept_connection cb r cn) (xs @ [c]) ys W"
    using core c l1 l2 get used by (auto simp: conn_core_def cn')
  moreover have "h w = clients cn w" if "w \<in> W" for w
  proof -
    have "w \<noteq> c" "w \<notin> set xs" using that c core by (auto simp: conn_core_def)
    then show ?thesis using nq.enq_frame [OF l(1) a, of w] by simp
  qed
  moreover have "link.more (h c) = link.more ?new" using pay [of c] by simp
  ultimately show ?thesis using c oc by (auto simp: cn' same_descriptors_def)
qed

lemma accept_connection_inv:
  assumes inv: "conn_inv cap L cn xs ys W" and r: "r = Accepted fd addr len"
    and len: "\<forall>c. len \<le> length (address (clients cn c))" and fd: "valid_select_fd fd"
    and free: "alloc_index (client_pool cn) > 0"
  shows "\<exists>c. c \<notin> set xs \<union> set ys \<union> W \<and> conn_inv cap L (accept_connection cb r cn) (xs @ [c]) ys W \<and>
    only_client c cn (accept_connection cb r cn) \<and>
    socket_fd (clients (accept_connection cb r cn) c) = fd \<and>
    link.more (clients (accept_connection cb r cn) c) =
      link.more (new_client cb r (server_domain cn) (clients cn c)) \<and>
    same_descriptors cn (accept_connection cb r cn)"
proof -
  let ?cn = "accept_connection cb r cn"
  have core: "conn_core cap cn xs ys W" using inv by (simp add: conn_inv_def)
  then have ok: "client_ok cap (clients cn c)" for c by (simp add: conn_core_def)
  note new = new_client_ok [OF ok r len [rule_format] fd, where d = "server_domain cn"]
  from accept_connection_core [OF core free new(1)] obtain c where
    c: "c \<notin> set xs \<union> set ys \<union> W" "conn_core cap ?cn (xs @ [c]) ys W" "only_client c cn ?cn"
      "link.more (clients ?cn c) = link.more (new_client cb r (server_domain cn) (clients cn c))"
      "\<forall>w \<in> W. clients ?cn w = clients cn w" "same_descriptors cn ?cn"
    by blast
  have "conn_inv cap L ?cn (xs @ [c]) ys W"
    unfolding conn_inv_def
  proof (intro conjI)
    show "\<forall>x \<in> set (xs @ [c]). com_client (clients ?cn x)"
      using inv only_client_all(1) [OF c(3), of "set xs"] c(1) state_more_cong(2) [OF c(4)] new(2)
      by (simp add: conn_inv_def)
    show "\<forall>y \<in> set ys. pending_client (clients ?cn y)"
      using inv only_client_all(2) [OF c(3), of "set ys"] c(1) by (simp add: conn_inv_def)
    show "\<forall>w \<in> W - L. busy_client (clients ?cn w)"
      using inv c(5) by (simp add: conn_inv_def)
  qed (fact c(2))
  moreover have "socket_fd (clients ?cn c) = fd"
    using state_more_cong(4) [OF c(4)] new(3) by simp
  ultimately show ?thesis using c(1,3,4,6) by blast
qed

end

section \<open>The descriptor sets\<close>

definition fds_of :: "IoOp \<Rightarrow> (nat \<Rightarrow> 'b net_client) \<Rightarrow> nat list \<Rightarrow> int set" where
  "fds_of op h xs = socket_fd ` h ` {x \<in> set xs. io_state (h x) = op}"

lemma fds_of_Nil [simp]: "fds_of op h [] = {}"
  by (simp add: fds_of_def)

lemma fds_of_Cons [simp]:
  "fds_of op h (x # xs) = (if io_state (h x) = op then {socket_fd (h x)} else {}) \<union> fds_of op h xs"
  by (auto simp: fds_of_def)

lemma collect_fds_sets:
  assumes "chain h p xs None" and "\<forall>x \<in> set xs. valid_select_fd (socket_fd (h x))" and "m < FD_SETSIZE"
  shows "\<exists>m'. collect_fds h (first_or None xs) (rd, wr, m) =
    Some (rd \<union> fds_of READ h xs, wr \<union> fds_of WRITE h xs, m') \<and> m' < FD_SETSIZE"
  using assms
proof (induction xs arbitrary: p rd wr m)
  case Nil
  then show ?case by (subst collect_fds.simps) simp
next
  case (Cons x xs)
  have n: "get_next_node h x = first_or None xs" using Cons.prems(1) by (simp add: get_next_node_def)
  have v: "valid_select_fd (socket_fd (h x))" using Cons.prems(2) by simp
  then have m: "max m (socket_fd (h x)) < FD_SETSIZE" using Cons.prems(3) by (simp add: valid_select_fd_def)
  have ch: "chain h (Some x) xs None" and vs: "\<forall>x \<in> set xs. valid_select_fd (socket_fd (h x))"
    using Cons.prems by simp_all
  note ih = Cons.IH [OF ch vs]
  show ?case
  proof (cases "io_state (h x)")
    case NOOP
    with ih [OF Cons.prems(3)] n show ?thesis by (subst collect_fds.simps) simp
  next
    case READ
    with ih [OF m, of "insert (socket_fd (h x)) rd" wr] n v show ?thesis
      by (subst collect_fds.simps) (simp add: FD_SET_def)
  next
    case WRITE
    with ih [OF m, of rd "insert (socket_fd (h x)) wr"] n v show ?thesis
      by (subst collect_fds.simps) (simp add: FD_SET_def)
  qed
qed

text \<open>
  Descriptors of the allocated clients are different from each other and from those of the
  server, which are in range.
\<close>

definition fds_ok :: "'b connector \<Rightarrow> nat set \<Rightarrow> bool" where
  "fds_ok cn S \<longleftrightarrow> inj_on (\<lambda>x. socket_fd (clients cn x)) S \<and>
     (\<forall>x \<in> S. socket_fd (clients cn x) \<notin> {server_fd cn, trigger_read_fd cn}) \<and>
     valid_select_fd (server_fd cn) \<and> valid_select_fd (trigger_read_fd cn) \<and>
     server_fd cn \<noteq> trigger_read_fd cn"

lemma build_fd_sets_eq:
  assumes inv: "conn_inv cap L cn xs ys W" and fds: "fds_ok cn S"
  shows "\<exists>m. build_fd_sets cn = Some
    (({trigger_read_fd cn} \<union> (if get_free_count (client_pool cn) \<ge> 1 then {server_fd cn} else {})) \<union>
       fds_of READ (clients cn) xs,
     fds_of WRITE (clients cn) xs, m) \<and> m < FD_SETSIZE"
proof -
  have ch: "chain (clients cn) None xs None" "get_first (com_queue cn) = first_or None xs"
    and v: "\<forall>x \<in> set xs. valid_select_fd (socket_fd (clients cn x))"
    using inv by (simp_all add: conn_inv_def conn_core_def queue_links_def get_first_def com_client_def)
  have t: "valid_select_fd (trigger_read_fd cn)" "valid_select_fd (server_fd cn)"
    using fds by (simp_all add: fds_ok_def)
  then have m: "max 0 (trigger_read_fd cn) < FD_SETSIZE"
    "max (max 0 (trigger_read_fd cn)) (server_fd cn) < FD_SETSIZE"
    by (auto simp: valid_select_fd_def FD_SETSIZE_def)
  show ?thesis
  proof (cases "get_free_count (client_pool cn) \<ge> 1")
    case True
    with collect_fds_sets [OF ch(1) v m(2), of "{server_fd cn, trigger_read_fd cn}" "{}"] ch(2) t
    show ?thesis by (auto simp: build_fd_sets_def FD_SET_def Let_def insert_commute)
  next
    case False
    with collect_fds_sets [OF ch(1) v m(1), of "{trigger_read_fd cn}" "{}"] ch(2) t
    show ?thesis by (auto simp: build_fd_sets_def FD_SET_def Let_def)
  qed
qed

section \<open>One iteration\<close>

text \<open>
  What the calls of an iteration may return: \<open>select\<close> clears bits of the sets it is given,
  \<open>accept\<close> succeeds with a new descriptor.
\<close>

definition iteration_ok :: "'b connector \<Rightarrow> nat set \<Rightarrow> iteration \<Rightarrow> bool" where
  "iteration_ok cn S it \<longleftrightarrow> env_ok (os_env.truncate it) \<and> accepted_ok cn S (os_accept it) \<and>
     (\<forall>rd wr. case os_select it rd wr of Ready rd' wr' \<Rightarrow> rd' \<subseteq> rd \<and> wr' \<subseteq> wr | _ \<Rightarrow> True)"

lemma sets_match_selected:
  assumes fds: "fds_ok cn S" and xs: "set xs \<subseteq> S"
    and rd: "rd \<subseteq> {trigger_read_fd cn, server_fd cn} \<union> fds_of READ (clients cn) xs"
    and wr: "wr \<subseteq> fds_of WRITE (clients cn) xs"
  shows "sets_match cn xs rd wr"
proof -
  have own: "io_state (clients cn x) = op"
    if "x \<in> set xs" "socket_fd (clients cn x) \<in> fds_of op (clients cn) xs" for x op
  proof -
    from that(2) obtain x' where x': "x' \<in> set xs" "io_state (clients cn x') = op"
      "socket_fd (clients cn x') = socket_fd (clients cn x)" by (auto simp: fds_of_def)
    with that(1) xs fds have "x' = x" by (auto simp: fds_ok_def inj_on_def)
    with x'(2) show ?thesis by simp
  qed
  have "socket_fd (clients cn x) \<notin> {trigger_read_fd cn, server_fd cn}" if "x \<in> set xs" for x
    using fds xs that by (auto simp: fds_ok_def)
  with own rd wr show ?thesis by (fastforce simp: sets_match_def)
qed

lemma fds_ok_pass:
  assumes "fds_ok cn (set xs \<union> set ys \<union> W)" and "pass_result cn cn' xs ys xs' ys'"
    and "(set xs \<union> set ys) \<inter> W = {}"
  shows "fds_ok cn' (set xs' \<union> set ys' \<union> W)"
proof -
  let ?S = "set xs \<union> set ys \<union> W" and ?S' = "set xs' \<union> set ys' \<union> W"
  have sub: "?S' \<subseteq> ?S" using assms(2) by (auto simp: pass_result_def)
  have fd: "socket_fd (clients cn' x) = socket_fd (clients cn x)" if "x \<in> ?S'" for x
  proof (cases "x \<in> W")
    case True
    then have "x \<notin> set xs" using assms(3) by auto
    with assms(2) have "link.more (clients cn' x) = link.more (clients cn x)"
      by (simp add: pass_result_def)
    from state_more_cong(4) [OF this] show ?thesis .
  next
    case False
    with that assms(2) show ?thesis by (auto simp: pass_result_def)
  qed
  have "inj_on (\<lambda>x. socket_fd (clients cn' x)) ?S' = inj_on (\<lambda>x. socket_fd (clients cn x)) ?S'"
    by (rule inj_on_cong) (rule fd)
  moreover have "inj_on (\<lambda>x. socket_fd (clients cn x)) ?S'"
    using assms(1) sub by (auto simp: fds_ok_def intro: inj_on_subset)
  moreover have "same_descriptors cn cn'" using assms(2) by (simp add: pass_result_def)
  ultimately show ?thesis
    using assms(1) sub fd by (auto simp: fds_ok_def same_descriptors_def)
qed

lemma fds_ok_accept:
  assumes fds: "fds_ok cn S" and c: "c \<notin> S"
    and oc: "only_client c cn cn'" "same_descriptors cn cn'"
    and fd: "socket_fd (clients cn' c) \<notin> {server_fd cn, trigger_read_fd cn}"
      "socket_fd (clients cn' c) \<notin> (\<lambda>x. socket_fd (clients cn x)) ` S"
  shows "fds_ok cn' (insert c S)"
proof -
  have same: "socket_fd (clients cn' x) = socket_fd (clients cn x)" if "x \<in> S" for x
    using only_client_preds(4) [OF oc(1), of x] that c by auto
  have "inj_on (\<lambda>x. socket_fd (clients cn' x)) S = inj_on (\<lambda>x. socket_fd (clients cn x)) S"
    by (rule inj_on_cong) (rule same)
  moreover have "(\<lambda>x. socket_fd (clients cn' x)) ` S = (\<lambda>x. socket_fd (clients cn x)) ` S"
    by (rule image_cong) (simp_all add: same)
  moreover have "S - {c} = S" using c by simp
  ultimately show ?thesis
    using fds fd same oc(2) by (simp add: fds_ok_def same_descriptors_def)
qed

lemma sets_match_accept:
  assumes m: "sets_match cn xs rd wr" and oc: "only_client c cn cn'" and c: "c \<notin> set xs"
    and fd: "socket_fd (clients cn' c) \<notin> rd" "socket_fd (clients cn' c) \<notin> wr"
  shows "sets_match cn' (xs @ [c]) rd wr"
proof -
  have "io_state (clients cn' x) = io_state (clients cn x) \<and>
      socket_fd (clients cn' x) = socket_fd (clients cn x)" if "x \<in> set xs" for x
  proof -
    have "link.more (clients cn' x) = link.more (clients cn x)"
      using oc c that by (auto simp: only_client_def)
    from state_more_cong(4,5) [OF this] show ?thesis by simp
  qed
  with m fd show ?thesis by (simp add: sets_match_def)
qed

lemma conn_inv_drain [simp]:
  "conn_inv cap L (drain_trigger cn) xs ys W = conn_inv cap L cn xs ys W"
  "fds_ok (drain_trigger cn) S = fds_ok cn S" "clients (drain_trigger cn) = clients cn"
  "sets_match (drain_trigger cn) xs rd wr = sets_match cn xs rd wr"
  by (simp_all add: drain_trigger_def conn_inv_def conn_core_def fds_ok_def sets_match_def)

text \<open>The two stages of an iteration before the pass over the clients.\<close>

abbreviation accepting :: "'b char_buffer_ops \<Rightarrow> iteration \<Rightarrow> fd_set \<Rightarrow> 'b connector \<Rightarrow> 'b connector" where
  "accepting cb it rd cn \<equiv> (if server_fd cn \<in> rd then accept_connection cb (os_accept it) cn else cn)"

definition draining :: "fd_set \<Rightarrow> 'b connector \<Rightarrow> 'b connector" where
  "draining rd cn = (if trigger_read_fd cn \<in> rd then drain_trigger cn else cn)"

lemma draining_simps [simp]:
  "conn_inv cap L (draining rd cn) xs ys W = conn_inv cap L cn xs ys W"
  "fds_ok (draining rd cn) S = fds_ok cn S" "clients (draining rd cn) = clients cn"
  "sets_match (draining rd cn) xs rd' wr = sets_match cn xs rd' wr"
  "same_descriptors cn (draining rd cn)"
  by (simp_all add: draining_def) (simp_all add: drain_trigger_def same_descriptors_def)

context char_buffer begin

text \<open>
  The pending connection: at most one client joins the com queue, the others stay as they are.
\<close>

lemma accept_stage:
  assumes inv: "conn_inv cap L cn xs ys W" and fds: "fds_ok cn (set xs \<union> set ys \<union> W)"
    and acc: "accepted_ok cn (set xs \<union> set ys \<union> W) (os_accept it)"
    and match: "sets_match cn xs rd wr"
    and sub: "rd \<union> wr \<subseteq> {trigger_read_fd cn, server_fd cn} \<union>
      (\<lambda>x. socket_fd (clients cn x)) ` (set xs \<union> set ys \<union> W)"
    and free: "server_fd cn \<in> rd \<Longrightarrow> alloc_index (client_pool cn) > 0"
  shows "\<exists>new. conn_inv cap L (accepting cb it rd cn) (xs @ new) ys W \<and>
    fds_ok (accepting cb it rd cn) (set (xs @ new) \<union> set ys \<union> W) \<and>
    sets_match (accepting cb it rd cn) (xs @ new) rd wr \<and>
    same_descriptors cn (accepting cb it rd cn) \<and> set new \<inter> (set xs \<union> set ys \<union> W) = {} \<and>
    (\<forall>x. x \<notin> set new \<longrightarrow> link.more (clients (accepting cb it rd cn) x) = link.more (clients cn x)) \<and>
    (\<forall>x \<in> set new. link.more (clients (accepting cb it rd cn) x) =
       link.more (new_client cb (os_accept it) (server_domain cn) (clients cn x)))"
proof (cases "server_fd cn \<in> rd")
  case False
  with inv fds match show ?thesis by (intro exI [of _ "[]"]) (simp add: same_descriptors_def)
next
  case True
  let ?S = "set xs \<union> set ys \<union> W"
  let ?cn1 = "accepting cb it rd cn"
  obtain fd addr len where r: "os_accept it = Accepted fd addr len" "valid_select_fd fd"
    "fd \<notin> {server_fd cn, trigger_read_fd cn}" "fd \<notin> (\<lambda>x. socket_fd (clients cn x)) ` ?S"
    "\<forall>c. len \<le> length (address (clients cn c))"
    using acc by (cases "os_accept it") (auto simp: accepted_ok_def)
  from accept_connection_inv [OF inv r(1,5,2) free [OF True]] obtain c where
    c: "c \<notin> ?S" "conn_inv cap L ?cn1 (xs @ [c]) ys W" "only_client c cn ?cn1"
      "socket_fd (clients ?cn1 c) = fd" "same_descriptors cn ?cn1"
    and fresh: "link.more (clients ?cn1 c) = link.more (new_client cb (os_accept it) (server_domain cn) (clients cn c))"
    using True by auto
  have f: "fds_ok ?cn1 (set (xs @ [c]) \<union> set ys \<union> W)"
  proof -
    have "fds_ok ?cn1 (insert c ?S)"
      using fds_ok_accept [OF fds c(1,3,5)] r(3,4) unfolding c(4) by blast
    moreover have "insert c ?S = set (xs @ [c]) \<union> set ys \<union> W" by auto
    ultimately show ?thesis by metis
  qed
  have m: "sets_match ?cn1 (xs @ [c]) rd wr"
  proof (rule sets_match_accept [OF match c(3)])
    show "c \<notin> set xs" using c(1) by simp
    show "socket_fd (clients ?cn1 c) \<notin> rd" "socket_fd (clients ?cn1 c) \<notin> wr"
      unfolding c(4) using r(3,4) set_mp [OF sub, of fd] by blast+
  qed
  have "\<forall>x. x \<notin> set [c] \<longrightarrow> link.more (clients ?cn1 x) = link.more (clients cn x)"
    using c(3) by (simp add: only_client_def)
  moreover have "\<forall>x \<in> set [c]. link.more (clients ?cn1 x) =
      link.more (new_client cb (os_accept it) (server_domain cn) (clients cn x))"
    using fresh by simp
  moreover have "set [c] \<inter> ?S = {}" using c(1) by simp
  ultimately show ?thesis using c(2,5) f m by blast
qed

text \<open>After the accept: the trigger pipe and the pass over the clients.\<close>

lemma after_select_pass:
  assumes "valid_select_fd (server_fd cn)" and "valid_select_fd (trigger_read_fd cn)"
    and "trigger_read_fd (accepting cb it rd cn) = trigger_read_fd cn"
  shows "after_select cb it rd wr cn =
    io_pass cb (os_env.truncate it) rd wr (draining rd (accepting cb it rd cn))"
  unfolding after_select_def Let_def using assms by (simp add: FD_ISSET_def draining_def)

lemma after_select_inv:
  assumes inv: "conn_inv cap L cn xs ys W" and fds: "fds_ok cn (set xs \<union> set ys \<union> W)"
    and env: "env_ok (os_env.truncate it)" and acc: "accepted_ok cn (set xs \<union> set ys \<union> W) (os_accept it)"
    and match: "sets_match cn xs rd wr"
    and sub: "rd \<union> wr \<subseteq> {trigger_read_fd cn, server_fd cn} \<union>
      (\<lambda>x. socket_fd (clients cn x)) ` (set xs \<union> set ys \<union> W)"
    and free: "server_fd cn \<in> rd \<Longrightarrow> alloc_index (client_pool cn) > 0"
  shows "\<exists>cn' xs' ys'. after_select cb it rd wr cn = Some cn' \<and> conn_inv cap L cn' xs' ys' W \<and>
    fds_ok cn' (set xs' \<union> set ys' \<union> W) \<and> same_descriptors cn cn' \<and>
    (\<forall>w \<in> W. link.more (clients cn' w) = link.more (clients cn w))"
proof -
  let ?cn1 = "accepting cb it rd cn"
  let ?cn2 = "draining rd ?cn1"
  from accept_stage [OF inv fds acc match sub free] obtain new where
    cn1: "conn_inv cap L ?cn1 (xs @ new) ys W" "fds_ok ?cn1 (set (xs @ new) \<union> set ys \<union> W)"
      "sets_match ?cn1 (xs @ new) rd wr" "same_descriptors cn ?cn1" "set new \<inter> (set xs \<union> set ys \<union> W) = {}"
    and old: "\<forall>x. x \<notin> set new \<longrightarrow> link.more (clients ?cn1 x) = link.more (clients cn x)" by blast
  have v: "valid_select_fd (server_fd cn)" "valid_select_fd (trigger_read_fd cn)"
    using fds by (simp_all add: fds_ok_def)
  have t: "trigger_read_fd ?cn1 = trigger_read_fd cn" using cn1(4) unfolding same_descriptors_def by (elim conjE)
  have cn2: "conn_inv cap L ?cn2 (xs @ new) ys W" "fds_ok ?cn2 (set (xs @ new) \<union> set ys \<union> W)"
    "sets_match ?cn2 (xs @ new) rd wr" "same_descriptors ?cn1 ?cn2" "clients ?cn2 = clients ?cn1"
    unfolding draining_simps(1-4) by (fact cn1 draining_simps(5) refl)+
  from io_pass_serves [OF cn2(1) env cn2(3)] obtain cn' xs' ys' where
    p: "io_pass cb (os_env.truncate it) rd wr ?cn2 = Some cn'" "conn_inv cap L cn' xs' ys' W"
      "pass_result ?cn2 cn' (xs @ new) ys xs' ys'" by blast
  have disj: "(set (xs @ new) \<union> set ys) \<inter> W = {}" using cn2(1) unfolding conn_inv_def conn_core_def by blast
  note fin = fds_ok_pass [OF cn2(2) p(3) disj]
  have "after_select cb it rd wr cn = Some cn'"
    unfolding after_select_pass [OF v t] by (rule p(1))
  moreover have "same_descriptors cn cn'"
    using cn1(4) cn2(4) p(3) unfolding pass_result_def same_descriptors_def by argo
  moreover have "link.more (clients cn' w) = link.more (clients cn w)" if w: "w \<in> W" for w
  proof -
    have "w \<notin> set (xs @ new)" "w \<notin> set new" using disj cn1(5) w by blast+
    then show ?thesis using p(3) old unfolding pass_result_def cn2(5) by metis
  qed
  ultimately show ?thesis using p(2) fin by blast
qed

lemma selector_iteration_inv:
  assumes inv: "conn_inv cap L cn xs ys W" and fds: "fds_ok cn (set xs \<union> set ys \<union> W)"
    and it: "iteration_ok cn (set xs \<union> set ys \<union> W) it"
  shows "selector_iteration cb it cn = Raised (OsException IO_ERROR) cn \<or>
    (\<exists>cn' xs' ys'. selector_iteration cb it cn = Normal cn' \<and> conn_inv cap L cn' xs' ys' W \<and>
       fds_ok cn' (set xs' \<union> set ys' \<union> W))"
proof -
  let ?rd = "({trigger_read_fd cn} \<union> (if get_free_count (client_pool cn) \<ge> 1 then {server_fd cn} else {})) \<union>
    fds_of READ (clients cn) xs"
  let ?wr = "fds_of WRITE (clients cn) xs"
  from build_fd_sets_eq [OF inv fds] obtain m where
    b: "build_fd_sets cn = Some (?rd, ?wr, m)" and m: "m < FD_SETSIZE" by blast
  have notin: "server_fd cn \<notin> fds_of READ (clients cn) xs"
    using fds by (fastforce simp: fds_ok_def fds_of_def)
  have max: "\<not> m \<ge> INT_MAX" using m by (simp add: bounds_simps)
  show ?thesis
  proof (cases "os_select it ?rd ?wr")
    case (Ready rd wr)
    then have sel: "rd \<subseteq> ?rd" "wr \<subseteq> ?wr"
      using it [unfolded iteration_ok_def, THEN conjunct2, THEN conjunct2, rule_format, of ?rd ?wr]
      by simp_all
    have rd: "rd \<subseteq> {trigger_read_fd cn, server_fd cn} \<union> fds_of READ (clients cn) xs"
      using sel(1) by (auto split: if_splits)
    have free: "alloc_index (client_pool cn) > 0" if "server_fd cn \<in> rd"
      using that sel(1) notin fds by (auto simp: get_free_count_def fds_ok_def split: if_splits)
    have sub: "rd \<union> wr \<subseteq> {trigger_read_fd cn, server_fd cn} \<union>
        (\<lambda>x. socket_fd (clients cn x)) ` (set xs \<union> set ys \<union> W)"
      using rd sel(2) by (fastforce simp: fds_of_def)
    have match: "sets_match cn xs rd wr"
      by (rule sets_match_selected [OF fds _ rd sel(2)]) auto
    from it have e: "env_ok (os_env.truncate it)" "accepted_ok cn (set xs \<union> set ys \<union> W) (os_accept it)"
      by (simp_all add: iteration_ok_def)
    from after_select_inv [OF inv fds e match sub free] obtain cn' xs' ys' where
      "after_select cb it rd wr cn = Some cn'" "conn_inv cap L cn' xs' ys' W"
      "fds_ok cn' (set xs' \<union> set ys' \<union> W)" by blast
    with b max Ready show ?thesis by (auto simp: selector_iteration_def)
  next
    case SelectEINTR
    with b max inv fds show ?thesis by (auto simp: selector_iteration_def)
  next
    case SelectFailed
    with b max show ?thesis by (simp add: selector_iteration_def)
  qed
qed

end

end
