(* ===== verification/Worker_Inv.thy ===== *)
theory Worker_Inv
  imports Selector_Inv
begin

text \<open>
  The sections of \<open>process_action_queue\<close> against the invariant: taking a request, executing
  it, giving the client back to the selector, and closing it.
\<close>

section \<open>Taking and executing a request\<close>

lemma worker_take_inv:
  assumes inv: "conn_inv cap L cn xs ys W" and L: "L \<subseteq> W"
  shows "case ys of
      [] \<Rightarrow> worker_take cn = (None, cn)
    | c # zs \<Rightarrow> \<exists>cn'. worker_take cn = (Some c, cn') \<and> conn_inv cap L cn' xs zs (insert c W) \<and>
        only_client c cn cn' \<and> link.more (clients cn' c) = link.more (clients cn c) \<and>
        same_descriptors cn cn' \<and> client_pool cn' = client_pool cn"
proof -
  have core: "conn_core cap cn xs ys W" using inv by (simp add: conn_inv_def)
  then have l: "queue_links (clients cn) (com_queue cn) xs" "queue_links (clients cn) (action_queue cn) ys"
    "size_ok (action_queue cn) ys" "set xs \<inter> set ys = {}"
    by (simp_all add: conn_core_def)
  obtain r h q where rm: "remove_first (clients cn) (action_queue cn) = (r, h, q)"
    by (metis prod_cases3)
  note deq = nq.deq_links [OF l(2) rm]
  show ?thesis
  proof (cases ys)
    case Nil
    with l(2) have "head_node (action_queue cn) = None" by (simp add: queue_links_def)
    with Nil show ?thesis by (simp add: worker_take_def remove_first_def)
  next
    case (Cons c zs)
    let ?cn = "cn\<lparr>clients := h, action_queue := q\<rparr>"
    have take: "worker_take cn = (Some c, ?cn)"
      using rm deq Cons by (simp add: worker_take_def)
    have pay: "link.more (h x) = link.more (clients cn x)" for x
      using same_payload_remove_first [of "clients cn" "action_queue cn"] rm by (simp add: same_payload_def)
    have oc: "only_client c cn ?cn" using pay by (simp add: only_client_def)
    have d: "distinct ys" using conn_core_distinct [OF core] by simp
    have l1: "queue_links h (com_queue cn) xs"
      by (rule nq.deq_other [OF l(2,1) rm]) (use l(4) in blast)
    have s: "size_ok q zs" using remove_first_size [OF l(2,3) rm] Cons by simp
    have ok: "client_ok cap (h x)" for x
      using state_more_cong(1) [OF pay [of x]] core by (simp add: conn_core_def)
    have core': "conn_core cap ?cn xs zs (insert c W)"
      using core l1 deq s ok Cons d by (auto simp: conn_core_def)
    have c: "pending_client (clients cn c)" "c \<notin> W" "c \<notin> set xs" "c \<notin> set zs"
      using inv Cons d by (auto simp: conn_inv_def conn_core_def)
    have "detached (h c)"
      using remove_first_detached [OF l(2) [unfolded Cons] rm] by (simp add: detached_def)
    moreover have "valid_select_fd (socket_fd (h c))"
      using c(1) state_more_cong(4) [OF pay [of c]] by (simp add: pending_client_def)
    ultimately have busy: "busy_client (h c)" by (simp add: busy_client_def)
    have frame: "h w = clients cn w" if "w \<in> W" for w
      using nq.deq_frame [OF l(2) rm, of w] that core by (auto simp: conn_core_def)
    have "conn_inv cap L ?cn xs zs (insert c W)"
      unfolding conn_inv_def
    proof (intro conjI)
      show "\<forall>x \<in> set xs. com_client (clients ?cn x)"
        by (rule only_client_all(1) [OF oc c(3)]) (use inv in \<open>simp add: conn_inv_def\<close>)
      show "\<forall>y \<in> set zs. pending_client (clients ?cn y)"
        by (rule only_client_all(2) [OF oc c(4)]) (use inv Cons in \<open>simp add: conn_inv_def\<close>)
      show "\<forall>w \<in> insert c W - L. busy_client (clients ?cn w)"
        using inv busy frame by (auto simp: conn_inv_def)
    qed (fact core')
    with take oc pay Cons show ?thesis by (auto simp: same_descriptors_def)
  qed
qed

text \<open>The store changes at one client that is on no queue: the invariant's queue part stays.\<close>

lemma conn_inv_set_busy:
  assumes inv: "conn_inv cap L cn xs ys W" and c: "c \<in> W - L"
    and cl: "client_ok cap cl" "same_connection (clients cn c) cl"
  shows "conn_inv cap L (set_client c cl cn) xs ys W"
proof -
  have core: "conn_core cap cn xs ys W" using inv by (simp add: conn_inv_def)
  have links: "next_node cl = next_node (clients cn c)" "prev_node cl = prev_node (clients cn c)"
    "socket_fd cl = socket_fd (clients cn c)"
    using cl(2) by (simp_all add: same_connection_def)
  have "busy_client cl"
    using inv c links by (simp add: conn_inv_def busy_client_def detached_def)
  moreover have "c \<notin> set xs" "c \<notin> set ys" using core c by (auto simp: conn_core_def)
  moreover note conn_core_set_client [OF core cl(1) links(1,2)]
  ultimately show ?thesis using inv by (auto simp: conn_inv_def)
qed

context char_buffer begin

lemma worker_execute_inv:
  assumes inv: "conn_inv cap L cn xs ys W" and c: "c \<in> W - L"
    and table: "table_complete (plugin_functions srv)"
  shows "\<exists>cl p'. worker_execute cb penv srv cn c p \<in>
      {Normal (set_client c cl cn, p'), Raised RangeException (set_client c cl cn, p')} \<and>
    conn_inv cap L (set_client c cl cn) xs ys W \<and> same_connection (clients cn c) cl \<and>
    (reply_ready cl \<or> current_phase cl \<in> {CANCELED, EXECUTING})"
proof -
  let ?cl = "(clients cn c)\<lparr>current_phase := EXECUTING\<rparr>"
  have ok: "client_ok cap (clients cn c)" using inv by (simp add: conn_inv_def conn_core_def)
  then have caps: "client_caps cap ?cl" by (simp add: client_ok_def client_caps_def)
  have "request_handled cap ?cl (process_client_message cb penv srv ?cl p)"
    by (rule process_client_message_safe [OF caps _ table]) simp
  then obtain cl p' where r: "process_client_message cb penv srv ?cl p \<in>
      {Normal (cl, p'), Raised RangeException (cl, p')}"
    and cl: "client_caps cap cl" "same_connection ?cl cl"
      "reply_ready cl \<or> current_phase cl \<in> {CANCELED, EXECUTING}"
    by (cases "process_client_message cb penv srv ?cl p") auto
  have same: "same_connection (clients cn c) cl"
    using cl(2) by (simp add: same_connection_def)
  have "client_ok cap cl"
    using ok cl(1) same by (simp add: client_ok_def same_connection_def)
  from conn_inv_set_busy [OF inv c this same] r cl(3) same show ?thesis
    by (intro exI [of _ cl] exI [of _ p']) (auto simp: worker_execute_def)
qed

end

section \<open>Giving the client back\<close>

definition writes_end :: "write_result list \<Rightarrow> bool" where
  "writes_end rs \<longleftrightarrow> (\<exists>r \<in> set rs. r \<noteq> WRITE_EINTR)"

lemma write_trigger_ends:
  "writes_end rs \<Longrightarrow> \<exists>pipe'. write_trigger rs pipe = Some pipe'"
  unfolding writes_end_def
proof (induction rs)
  case (Cons r rs)
  then show ?case by (cases r) auto
qed simp

lemma conn_inv_pipe [simp]:
  "conn_inv cap L (cn\<lparr>trigger_pipe := pipe\<rparr>) xs ys W = conn_inv cap L cn xs ys W"
  by (simp add: conn_inv_def conn_core_def)

lemma wakeup_selector_ends:
  assumes "writes_end rs"
  shows "\<exists>pipe. wakeup_selector rs cn = Some (cn\<lparr>trigger_pipe := pipe\<rparr>)"
proof (cases "trigger_write_fd cn = FD_NONE")
  case True
  then have "wakeup_selector rs cn = Some (cn\<lparr>trigger_pipe := trigger_pipe cn\<rparr>)"
    by (simp add: wakeup_selector_def)
  then show ?thesis ..
next
  case False
  with write_trigger_ends [OF assms, of "trigger_pipe cn"] show ?thesis
    by (auto simp: wakeup_selector_def)
qed

text \<open>Closing a client that is on no queue, written out.\<close>

lemma close_detached:
  assumes "detached (clients cn c)"
  shows "close_connection cb cn c =
    (case close_fd (socket_fd (clients cn c)) (closed_fds cn) of
       (fd, closed) \<Rightarrow>
         cn\<lparr>clients := (clients cn)(c := clear_client cb ((clients cn c)\<lparr>socket_fd := fd\<rparr>)),
            com_queue := (com_queue cn)\<lparr>head_node := None, tail_node := None,
              q_size := size_dec (q_size (com_queue cn))\<rparr>,
            closed_fds := closed, client_pool := deallocate (client_pool cn) c\<rparr>)"
proof -
  obtain fd closed where fd: "close_fd (socket_fd (clients cn c)) (closed_fds cn) = (fd, closed)"
    by fastforce
  let ?h = "(clients cn)(c := (clients cn c)\<lparr>socket_fd := fd\<rparr>)"
  have "remove_node ?h (com_queue cn) c =
      (?h, (com_queue cn)\<lparr>head_node := None, tail_node := None,
         q_size := size_dec (q_size (com_queue cn))\<rparr>)"
    by (rule remove_node_detached_node) (use assms in \<open>simp_all add: detached_def\<close>)
  then show ?thesis by (simp add: close_connection_def fd Let_def)
qed

context char_buffer begin

lemma worker_requeue_inv:
  assumes inv: "conn_inv cap L cn xs ys W" and c: "c \<in> W - L"
    and ready: "reply_ready (clients cn c)" and on: "\<not> is_signaled (stop_signal cn)"
    and rs: "writes_end rs"
  shows "\<exists>cn'. worker_finish cb rs cn c = Some cn' \<and> conn_inv cap L cn' (xs @ [c]) ys (W - {c}) \<and>
    only_client c cn cn' \<and> link.more (clients cn' c) = link.more (clients cn c) \<and>
    same_descriptors cn cn' \<and> client_pool cn' = client_pool cn"
proof -
  have core: "conn_core cap cn xs ys W" using inv by (simp add: conn_inv_def)
  then have l: "queue_links (clients cn) (com_queue cn) xs" "queue_links (clients cn) (action_queue cn) ys"
    "set xs \<inter> set ys = {}" and ok: "client_ok cap (clients cn x)" for x
    by (simp_all add: conn_core_def)
  have nc: "c \<notin> set xs" "c \<notin> set ys" "c \<in> W" using core c by (auto simp: conn_core_def)
  obtain h q where a: "add_last (clients cn) (com_queue cn) c = (h, q)" by fastforce
  let ?cn = "cn\<lparr>clients := h, com_queue := q\<rparr>"
  obtain pipe where w: "wakeup_selector rs ?cn = Some (?cn\<lparr>trigger_pipe := pipe\<rparr>)"
    using wakeup_selector_ends [OF rs] by blast
  have fin: "worker_finish cb rs cn c = Some (?cn\<lparr>trigger_pipe := pipe\<rparr>)"
    using ready on a w by (simp add: worker_finish_def reply_ready_def)
  have pay: "link.more (h x) = link.more (clients cn x)" for x
    using same_payload_add_last [of "clients cn" "com_queue cn" c] a by (simp add: same_payload_def)
  have oc: "only_client c cn ?cn" using pay by (simp add: only_client_def)
  have l1: "queue_links h q (xs @ [c])" by (rule nq.enq_links [OF l(1) nc(1) a])
  have l2: "queue_links h (action_queue cn) ys" by (rule nq.enq_other [OF l(1,2) a nc(2) l(3)])
  have ok': "client_ok cap (h x)" for x
    using state_more_cong(1) [OF pay [of x]] ok by simp
  have core': "conn_core cap ?cn (xs @ [c]) ys (W - {c})"
    using core nc l1 l2 ok' by (auto simp: conn_core_def)
  have "com_client (clients cn c)"
    using ready inv c ok [of c]
    by (auto simp: conn_inv_def busy_client_def com_client_def writing_def reply_ready_def
        send_inv_def client_ok_def)
  then have com: "com_client (h c)" using state_more_cong(2) [OF pay [of c]] by simp
  have frame: "h w = clients cn w" if "w \<in> W - {c}" for w
    using nq.enq_frame [OF l(1) a, of w] that core by (auto simp: conn_core_def)
  have "conn_inv cap L ?cn (xs @ [c]) ys (W - {c})"
    unfolding conn_inv_def
  proof (intro conjI)
    show "\<forall>x \<in> set (xs @ [c]). com_client (clients ?cn x)"
      using only_client_all(1) [OF oc nc(1)] inv com by (simp add: conn_inv_def)
    show "\<forall>y \<in> set ys. pending_client (clients ?cn y)"
      using only_client_all(2) [OF oc nc(2)] inv by (simp add: conn_inv_def)
    show "\<forall>w \<in> W - {c} - L. busy_client (clients ?cn w)"
      using inv frame by (auto simp: conn_inv_def)
  qed (fact core')
  with fin pay oc show ?thesis by (auto simp: only_client_def same_descriptors_def)
qed

text \<open>
  Closing a connection from a worker: the client is on no queue, so \<open>com_queue\<close> forgets all of
  its clients. They stay allocated, with their sockets open.
\<close>

lemma worker_close_inv:
  assumes inv: "conn_inv cap L cn xs ys W" and c: "c \<in> W - L" and L: "L \<subseteq> W"
  shows "conn_inv cap (L \<union> set xs) (close_connection cb cn c) [] ys (W - {c} \<union> set xs)"
    "only_client c cn (close_connection cb cn c)"
    "same_descriptors cn (close_connection cb cn c)"
    "used_objects (client_pool (close_connection cb cn c)) = used_objects (client_pool cn) - {c}"
proof -
  obtain fd closed where fd: "close_fd (socket_fd (clients cn c)) (closed_fds cn) = (fd, closed)"
    by fastforce
  let ?cl = "(clients cn c)\<lparr>socket_fd := fd\<rparr>"
  have core: "conn_core cap cn xs ys W" using inv by (simp add: conn_inv_def)
  have det: "detached (clients cn c)" using inv c by (simp add: conn_inv_def busy_client_def)
  let ?new = "clear_client cb ?cl"
  have close: "close_connection cb cn c =
      cn\<lparr>clients := (clients cn)(c := ?new),
         com_queue := (com_queue cn)\<lparr>head_node := None, tail_node := None,
           q_size := size_dec (q_size (com_queue cn))\<rparr>,
         closed_fds := closed, client_pool := deallocate (client_pool cn) c\<rparr>"
    by (simp add: close_detached [OF det] fd)
  have ok: "client_ok cap (clients cn x)" for x using core by (simp add: conn_core_def)
  then have "client_ok cap ?cl" by (simp add: client_ok_def client_caps_def)
  then have okc: "client_ok cap ?new" by (rule client_ok_clear)
  have used: "c \<in> used_objects (client_pool cn)" and pool: "alloc_inv (client_pool cn)"
    and nc: "c \<notin> set xs" "c \<notin> set ys" "c \<in> W"
    using core c by (auto simp: conn_core_def)
  note give = ga.give_ok [OF pool used]
  have l: "queue_links ((clients cn)(c := ?new)) (action_queue cn) ys"
    using core by (simp add: conn_core_def queue_links_upd)
  have core': "conn_core cap (close_connection cb cn c) [] ys (W - {c} \<union> set xs)"
    using core ok okc give nc l by (auto simp: conn_core_def close queue_links_def)
  show "only_client c cn (close_connection cb cn c)" by (simp add: only_client_def close)
  show "same_descriptors cn (close_connection cb cn c)" by (simp add: same_descriptors_def close)
  show "used_objects (client_pool (close_connection cb cn c)) = used_objects (client_pool cn) - {c}"
    using give by (simp add: close)
  have "\<forall>w \<in> (W - {c} \<union> set xs) - (L \<union> set xs). busy_client (clients (close_connection cb cn c) w)"
    using inv by (auto simp: close conn_inv_def)
  moreover have "\<forall>y \<in> set ys. pending_client (clients (close_connection cb cn c) y)"
    using inv nc(2) by (auto simp: close conn_inv_def)
  ultimately show "conn_inv cap (L \<union> set xs) (close_connection cb cn c) [] ys (W - {c} \<union> set xs)"
    using core' by (simp add: conn_inv_def)
qed

end

end
