(* ===== verification/Server_System.thy ===== *)
theory Server_System
  imports Worker_Inv
begin

text \<open>
  The running server as a step relation: the selector thread, any number of workers and the
  stop signal, interleaved. Each step is one of the functions of Server_Connector; what the
  selector does after \<open>select\<close> is a single step, although workers run meanwhile.
  Pass_Interleaving cuts it at the locks and shows that the runs are the same. The execution of
  a request with its plugin call is a single step, too: it touches no queue and no other
  client, but in the program, where no lock is held around it, two calls of the plugin may
  overlap. \<open>accept\<close> succeeds (\<open>accepted_ok\<close>); Connection_Loss shows what a failure does.
\<close>

section \<open>States and steps\<close>

text \<open>
  \<open>selected\<close> are the ready sets between the return of \<open>select\<close> and the pass over the clients;
  \<open>taken\<close> the clients a worker has removed from \<open>action_queue\<close>, \<open>executed\<close> those whose request
  it has executed.
\<close>

record ('b, 'p) server_system =
  conn :: "'b connector"
  selected :: "(fd_set \<times> fd_set) option"
  taken :: "nat set"
  executed :: "nat set"
  plugin :: 'p

inductive server_step ::
  "'b char_buffer_ops \<Rightarrow> 'p plugin_env \<Rightarrow> fence_server \<Rightarrow> ('b, 'p) server_system \<Rightarrow>
   ('b, 'p) server_system \<Rightarrow> bool" for cb penv srv where
  select: "selected s = None \<Longrightarrow> \<not> is_signaled (stop_signal (conn s)) \<Longrightarrow>
     build_fd_sets (conn s) = Some (rd, wr, max_fd) \<Longrightarrow> rd' \<subseteq> rd \<Longrightarrow> wr' \<subseteq> wr \<Longrightarrow>
     server_step cb penv srv s (s\<lparr>selected := Some (rd', wr')\<rparr>)"
| serve: "selected s = Some (rd, wr) \<Longrightarrow> env_ok (os_env.truncate it) \<Longrightarrow>
     accepted_ok (conn s) (used_objects (client_pool (conn s))) (os_accept it) \<Longrightarrow>
     after_select cb it rd wr (conn s) = Some cn' \<Longrightarrow>
     server_step cb penv srv s (s\<lparr>conn := cn', selected := None\<rparr>)"
| take: "worker_take (conn s) = (Some c, cn') \<Longrightarrow>
     server_step cb penv srv s (s\<lparr>conn := cn', taken := insert c (taken s)\<rparr>)"
| execute: "c \<in> taken s \<Longrightarrow> worker_execute cb penv srv (conn s) c (plugin s) = Normal (cn', p') \<Longrightarrow>
     server_step cb penv srv s
       (s\<lparr>conn := cn', taken := taken s - {c}, executed := insert c (executed s), plugin := p'\<rparr>)"
| execute_throws: "c \<in> taken s \<Longrightarrow>
     worker_execute cb penv srv (conn s) c (plugin s) = Raised e (cn', p') \<Longrightarrow>
     server_step cb penv srv s (s\<lparr>conn := cn', taken := taken s - {c}, plugin := p'\<rparr>)"
| finish: "c \<in> executed s \<Longrightarrow> writes_end rs \<Longrightarrow> worker_finish cb rs (conn s) c = Some cn' \<Longrightarrow>
     server_step cb penv srv s (s\<lparr>conn := cn', executed := executed s - {c}\<rparr>)"
| stop: "server_step cb penv srv s
     (s\<lparr>conn := (conn s)\<lparr>stop_signal := signal (stop_signal (conn s))\<rparr>\<rparr>)"

text \<open>
  The connector when the selector loop starts: \<open>init\<close> has opened the server socket and the
  trigger pipe.
\<close>

definition started_connector ::
  "'b char_buffer_ops \<Rightarrow> bytes \<Rightarrow> domain \<Rightarrow> signal_handler \<Rightarrow> int \<Rightarrow> int \<Rightarrow> int \<Rightarrow> 'b connector" where
  "started_connector cb garbage d sh sfd rfd wfd =
     (new_connector cb garbage d sh)
       \<lparr>server_fd := sfd, trigger_read_fd := rfd, trigger_write_fd := wfd,
        stop_signal := enable_wakeup_fd sh wfd\<rparr>"

definition start_system :: "'b connector \<Rightarrow> 'p \<Rightarrow> ('b, 'p) server_system" where
  "start_system cn p =
     \<lparr>conn = cn, selected = None, taken = {}, executed = {}, plugin = p\<rparr>"

section \<open>The invariant\<close>

definition answered :: "'b net_client \<Rightarrow> bool" where
  "answered cl \<longleftrightarrow> reply_ready cl \<or> current_phase cl \<in> {CANCELED, EXECUTING}"

definition selected_ok ::
  "'b connector \<Rightarrow> nat list \<Rightarrow> nat list \<Rightarrow> nat set \<Rightarrow> nat set \<Rightarrow> fd_set \<Rightarrow> fd_set \<Rightarrow> bool" where
  "selected_ok cn xs ys W L rd wr \<longleftrightarrow> sets_match cn xs rd wr \<and>
     rd \<union> wr \<subseteq> {trigger_read_fd cn, server_fd cn} \<union>
       (\<lambda>x. socket_fd (clients cn x)) ` (set xs \<union> set ys \<union> W) \<and>
     (server_fd cn \<in> rd \<longrightarrow> alloc_index (client_pool cn) > 0) \<and>
     (\<forall>x \<in> set ys \<union> (W - L). socket_fd (clients cn x) \<notin> rd \<union> wr)"

definition system_inv ::
  "('b \<Rightarrow> nat) \<Rightarrow> ('b, 'p) server_system \<Rightarrow> nat list \<Rightarrow> nat list \<Rightarrow> nat set \<Rightarrow> nat set \<Rightarrow> bool" where
  "system_inv cap s xs ys W L \<longleftrightarrow> conn_inv cap L (conn s) xs ys W \<and>
     fds_ok (conn s) (set xs \<union> set ys \<union> W) \<and> L \<subseteq> W \<and>
     taken s \<union> executed s = W - L \<and> taken s \<inter> executed s = {} \<and>
     (\<forall>c \<in> executed s. answered (clients (conn s) c)) \<and>
     (case selected s of None \<Rightarrow> True | Some (rd, wr) \<Rightarrow> selected_ok (conn s) xs ys W L rd wr)"

lemma answered_more: "link.more cl' = link.more cl \<Longrightarrow> answered cl' = answered cl"
  for cl :: "'b net_client"
  by (cases cl; cases cl') (simp add: answered_def reply_ready_def)

lemma conn_inv_signal [simp]:
  "conn_inv cap L (cn\<lparr>stop_signal := sh\<rparr>) xs ys W = conn_inv cap L cn xs ys W"
  "fds_ok (cn\<lparr>stop_signal := sh\<rparr>) S = fds_ok cn S"
  "selected_ok (cn\<lparr>stop_signal := sh\<rparr>) xs ys W L rd wr = selected_ok cn xs ys W L rd wr"
  by (simp_all add: conn_inv_def conn_core_def fds_ok_def selected_ok_def sets_match_def)

text \<open>An operation that leaves the descriptors and states of all clients alone.\<close>

lemma selected_ok_shrink:
  assumes ok: "selected_ok cn xs ys W L rd wr"
    and same: "same_descriptors cn cn'"
    and fd: "\<And>x. x \<noteq> c \<Longrightarrow> socket_fd (clients cn' x) = socket_fd (clients cn x) \<and>
      io_state (clients cn' x) = io_state (clients cn x)"
    and pool: "alloc_index (client_pool cn) \<le> alloc_index (client_pool cn')"
    and c: "c \<in> set ys \<union> (W - L)"
    and cc: "c \<notin> set xs" "c \<in> set xs' \<union> set ys' \<union> W' \<longrightarrow>
      socket_fd (clients cn' c) = socket_fd (clients cn c)"
    and sub: "set xs' \<subseteq> insert c (set xs)"
      "set ys' \<union> (W' - L') \<subseteq> set ys \<union> (W - L)"
      "set xs \<union> set ys \<union> W - {c} \<subseteq> set xs' \<union> set ys' \<union> W'"
  shows "selected_ok cn' xs' ys' W' L' rd wr"
proof -
  have d: "server_fd cn' = server_fd cn" "trigger_read_fd cn' = trigger_read_fd cn"
    using same by (simp_all add: same_descriptors_def)
  have cfd: "socket_fd (clients cn c) \<notin> rd \<union> wr"
    using ok c by (auto simp: selected_ok_def)
  have fds: "socket_fd (clients cn' x) = socket_fd (clients cn x)" if "x \<in> set xs' \<union> set ys' \<union> W'" for x
    using that fd [of x] cc(2) by (cases "x = c") auto
  have "sets_match cn' xs' rd wr"
    unfolding sets_match_def
  proof
    fix x assume x: "x \<in> set xs'"
    show "(socket_fd (clients cn' x) \<in> rd \<longrightarrow> io_state (clients cn' x) = READ) \<and>
        (socket_fd (clients cn' x) \<in> wr \<longrightarrow> io_state (clients cn' x) = WRITE)"
    proof (cases "x = c")
      case True
      with x fds [of c] cfd show ?thesis by auto
    next
      case False
      with x sub(1) have "x \<in> set xs" by auto
      with ok False fd [of x] show ?thesis by (simp add: selected_ok_def sets_match_def)
    qed
  qed
  moreover have "rd \<union> wr \<subseteq> {trigger_read_fd cn', server_fd cn'} \<union>
      (\<lambda>x. socket_fd (clients cn' x)) ` (set xs' \<union> set ys' \<union> W')"
  proof
    fix y assume y: "y \<in> rd \<union> wr"
    with ok consider "y \<in> {trigger_read_fd cn, server_fd cn}"
      | x where "x \<in> set xs \<union> set ys \<union> W" "y = socket_fd (clients cn x)"
      by (auto simp: selected_ok_def)
    then show "y \<in> {trigger_read_fd cn', server_fd cn'} \<union>
        (\<lambda>x. socket_fd (clients cn' x)) ` (set xs' \<union> set ys' \<union> W')"
    proof cases
      case 1
      then show ?thesis by (auto simp: d)
    next
      case 2
      then have "x \<noteq> c" using y cfd by auto
      with 2 sub(3) fd [of x] show ?thesis by (auto intro!: image_eqI [of _ _ x])
    qed
  qed
  moreover have "\<forall>x \<in> set ys' \<union> (W' - L'). socket_fd (clients cn' x) \<notin> rd \<union> wr"
  proof
    fix x assume x: "x \<in> set ys' \<union> (W' - L')"
    then have "socket_fd (clients cn x) \<notin> rd \<union> wr"
      using ok sub(2) by (auto simp: selected_ok_def)
    with x fds [of x] show "socket_fd (clients cn' x) \<notin> rd \<union> wr" by auto
  qed
  moreover have "server_fd cn' \<in> rd \<longrightarrow> alloc_index (client_pool cn') > 0"
    using ok pool by (auto simp: selected_ok_def d)
  ultimately show ?thesis by (simp add: selected_ok_def)
qed

lemma fds_ok_shrink:
  assumes "fds_ok cn S" and "S' \<subseteq> S" and "same_descriptors cn cn'"
    and "\<And>x. x \<in> S' \<Longrightarrow> socket_fd (clients cn' x) = socket_fd (clients cn x)"
  shows "fds_ok cn' S'"
proof -
  have "inj_on (\<lambda>x. socket_fd (clients cn' x)) S' = inj_on (\<lambda>x. socket_fd (clients cn x)) S'"
    by (rule inj_on_cong) (rule assms(4))
  moreover have "inj_on (\<lambda>x. socket_fd (clients cn x)) S'"
    using assms(1,2) by (auto simp: fds_ok_def intro: inj_on_subset)
  ultimately show ?thesis
    using assms by (auto simp: fds_ok_def same_descriptors_def)
qed

section \<open>Every step keeps it\<close>

lemma step_select:
  assumes inv: "system_inv cap s xs ys W L" and sel: "build_fd_sets (conn s) = Some (rd, wr, m)"
    "rd' \<subseteq> rd" "wr' \<subseteq> wr"
  shows "system_inv cap (s\<lparr>selected := Some (rd', wr')\<rparr>) xs ys W L"
proof -
  let ?cn = "conn s"
  let ?R = "{trigger_read_fd ?cn} \<union> (if get_free_count (client_pool ?cn) \<ge> 1 then {server_fd ?cn} else {})"
  have c: "conn_inv cap L ?cn xs ys W" and f: "fds_ok ?cn (set xs \<union> set ys \<union> W)"
    using inv by (simp_all add: system_inv_def)
  from build_fd_sets_eq [OF c f] sel(1) have
    rw: "rd = ?R \<union> fds_of READ (clients ?cn) xs" "wr = fds_of WRITE (clients ?cn) xs"
    by auto
  have sub: "rd' \<subseteq> {trigger_read_fd ?cn, server_fd ?cn} \<union> fds_of READ (clients ?cn) xs"
    "wr' \<subseteq> fds_of WRITE (clients ?cn) xs"
    using sel(2,3) rw by (auto split: if_splits)
  have match: "sets_match ?cn xs rd' wr'"
    by (rule sets_match_selected [OF f _ sub]) auto
  have own: "x \<in> set xs" if "x \<in> set xs \<union> set ys \<union> W" "socket_fd (clients ?cn x) \<in> fds_of op (clients ?cn) xs"
    for x op
  proof -
    from that(2) obtain x' where "x' \<in> set xs" "socket_fd (clients ?cn x') = socket_fd (clients ?cn x)"
      by (auto simp: fds_of_def)
    with that(1) f have "x' = x" by (auto simp: fds_ok_def inj_on_def)
    with \<open>x' \<in> set xs\<close> show ?thesis by simp
  qed
  have "socket_fd (clients ?cn x) \<notin> rd' \<union> wr'" if x: "x \<in> set ys \<union> (W - L)" for x
  proof -
    have "x \<notin> set xs" using x c by (auto simp: conn_inv_def conn_core_def)
    moreover have "socket_fd (clients ?cn x) \<notin> {trigger_read_fd ?cn, server_fd ?cn}"
      using f x by (auto simp: fds_ok_def)
    ultimately show ?thesis using own [of x READ] own [of x WRITE] x sub by blast
  qed
  moreover have "rd' \<union> wr' \<subseteq> {trigger_read_fd ?cn, server_fd ?cn} \<union>
      (\<lambda>x. socket_fd (clients ?cn x)) ` (set xs \<union> set ys \<union> W)"
    using sub by (fastforce simp: fds_of_def)
  moreover have "alloc_index (client_pool ?cn) > 0" if "server_fd ?cn \<in> rd'"
  proof -
    have "server_fd ?cn \<noteq> trigger_read_fd ?cn" "server_fd ?cn \<notin> fds_of READ (clients ?cn) xs"
      using f by (fastforce simp: fds_ok_def fds_of_def)+
    with that sel(2) rw(1) show ?thesis by (auto simp: get_free_count_def split: if_splits)
  qed
  ultimately have "selected_ok ?cn xs ys W L rd' wr'"
    using match by (simp add: selected_ok_def)
  with inv show ?thesis by (simp add: system_inv_def)
qed

context char_buffer begin

text \<open>After \<open>select\<close>: at most one new client on the com queue, then the pass over all of them.\<close>

lemma serve_accepts:
  assumes inv: "system_inv cap s xs ys W L" and sel: "selected s = Some (rd, wr)"
    and it: "accepted_ok (conn s) (used_objects (client_pool (conn s))) (os_accept it)"
    and cn: "cn = draining rd (accepting cb it rd (conn s))"
  obtains new where "conn_inv cap L cn (xs @ new) ys W" "fds_ok cn (set (xs @ new) \<union> set ys \<union> W)"
    "sets_match cn (xs @ new) rd wr" "set new \<inter> (set xs \<union> set ys \<union> W) = {}"
    "\<forall>x. x \<notin> set new \<longrightarrow> link.more (clients cn x) = link.more (clients (conn s) x)"
    "\<forall>x \<in> set new. link.more (clients cn x) =
       link.more (new_client cb (os_accept it) (server_domain (conn s)) (clients (conn s) x))"
    "after_select cb it rd wr (conn s) = io_pass cb (os_env.truncate it) rd wr cn"
proof -
  have c: "conn_inv cap L (conn s) xs ys W" and f: "fds_ok (conn s) (set xs \<union> set ys \<union> W)"
    and so: "selected_ok (conn s) xs ys W L rd wr"
    using inv sel by (simp_all add: system_inv_def)
  have "used_objects (client_pool (conn s)) = set xs \<union> set ys \<union> W"
    using c by (simp add: conn_inv_def conn_core_def)
  with it have acc: "accepted_ok (conn s) (set xs \<union> set ys \<union> W) (os_accept it)" by simp
  from accept_stage [OF c f acc, of rd wr] so obtain new where
    a: "conn_inv cap L (accepting cb it rd (conn s)) (xs @ new) ys W"
      "fds_ok (accepting cb it rd (conn s)) (set (xs @ new) \<union> set ys \<union> W)"
      "sets_match (accepting cb it rd (conn s)) (xs @ new) rd wr"
      "same_descriptors (conn s) (accepting cb it rd (conn s))"
      "set new \<inter> (set xs \<union> set ys \<union> W) = {}"
      "\<forall>x. x \<notin> set new \<longrightarrow> link.more (clients (accepting cb it rd (conn s)) x) = link.more (clients (conn s) x)"
      "\<forall>x \<in> set new. link.more (clients (accepting cb it rd (conn s)) x) =
         link.more (new_client cb (os_accept it) (server_domain (conn s)) (clients (conn s) x))"
    unfolding selected_ok_def by blast
  have v: "valid_select_fd (server_fd (conn s))" "valid_select_fd (trigger_read_fd (conn s))"
    "trigger_read_fd (accepting cb it rd (conn s)) = trigger_read_fd (conn s)"
    using f a(4) unfolding fds_ok_def same_descriptors_def by blast+
  show thesis
    by (rule that [of new]; (unfold cn draining_simps(1-4) after_select_pass [OF v])?; fact a refl)
qed

lemma step_serve:
  assumes inv: "system_inv cap s xs ys W L" and sel: "selected s = Some (rd, wr)"
    and it: "env_ok (os_env.truncate it)"
      "accepted_ok (conn s) (used_objects (client_pool (conn s))) (os_accept it)"
  shows "\<exists>cn' xs' ys'. after_select cb it rd wr (conn s) = Some cn' \<and>
    system_inv cap (s\<lparr>conn := cn', selected := None\<rparr>) xs' ys' W L"
proof -
  have c: "conn_inv cap L (conn s) xs ys W" and f: "fds_ok (conn s) (set xs \<union> set ys \<union> W)"
    and so: "selected_ok (conn s) xs ys W L rd wr"
    using inv sel by (simp_all add: system_inv_def)
  have "used_objects (client_pool (conn s)) = set xs \<union> set ys \<union> W"
    using c by (simp add: conn_inv_def conn_core_def)
  with it have acc: "accepted_ok (conn s) (set xs \<union> set ys \<union> W) (os_accept it)" by simp
  from after_select_inv [OF c f it(1) acc, of rd wr] so obtain cn' xs' ys' where
    r: "after_select cb it rd wr (conn s) = Some cn'" "conn_inv cap L cn' xs' ys' W"
      "fds_ok cn' (set xs' \<union> set ys' \<union> W)"
      "\<forall>w \<in> W. link.more (clients cn' w) = link.more (clients (conn s) w)"
    by (auto simp: selected_ok_def)
  have "\<forall>c \<in> executed s. answered (clients cn' c)"
  proof
    fix c assume e: "c \<in> executed s"
    then have "c \<in> W" using inv by (auto simp: system_inv_def)
    with answered_more [of "clients cn' c" "clients (conn s) c"] r(4) inv e
    show "answered (clients cn' c)" by (simp add: system_inv_def)
  qed
  with inv r have "system_inv cap (s\<lparr>conn := cn', selected := None\<rparr>) xs' ys' W L"
    by (simp add: system_inv_def)
  with r(1) show ?thesis by blast
qed

end

text \<open>A step of a worker changes one client, which is on no queue of the selector.\<close>

lemma worker_step:
  assumes inv: "system_inv cap s xs ys W L" and inv': "conn_inv cap L' cn' xs' ys' W'"
    and oc: "only_client c (conn s) cn'" and same: "same_descriptors (conn s) cn'"
    and pool: "alloc_index (client_pool (conn s)) \<le> alloc_index (client_pool cn')"
    and c: "c \<in> set ys \<union> (W - L)"
    and fd: "c \<in> set xs' \<union> set ys' \<union> W' \<Longrightarrow> socket_fd (clients cn' c) = socket_fd (clients (conn s) c)"
    and sub: "set xs' \<subseteq> insert c (set xs)" "set ys' \<union> (W' - L') \<subseteq> set ys \<union> (W - L)"
      "set xs \<union> set ys \<union> W - {c} \<subseteq> set xs' \<union> set ys' \<union> W'"
      "set xs' \<union> set ys' \<union> W' \<subseteq> set xs \<union> set ys \<union> W"
    and sets: "L' \<subseteq> W'" "T \<union> E = W' - L'" "T \<inter> E = {}" "E \<subseteq> insert c (executed s)"
    and answered: "c \<in> E \<Longrightarrow> answered (clients cn' c)"
  shows "system_inv cap (s\<lparr>conn := cn', taken := T, executed := E, plugin := p\<rparr>) xs' ys' W' L'"
proof -
  have conn: "conn_inv cap L (conn s) xs ys W" and fds: "fds_ok (conn s) (set xs \<union> set ys \<union> W)"
    and L: "L \<subseteq> W" and ans: "\<forall>c \<in> executed s. answered (clients (conn s) c)"
    using inv by (simp_all add: system_inv_def)
  have more: "link.more (clients cn' x) = link.more (clients (conn s) x)" if "x \<noteq> c" for x
    using oc that by (simp add: only_client_def)
  have nc: "c \<notin> set xs" using conn c by (auto simp: conn_inv_def conn_core_def)
  have fd': "socket_fd (clients cn' x) = socket_fd (clients (conn s) x)"
    if "x \<in> set xs' \<union> set ys' \<union> W'" for x
    using fd that state_more_cong(4) [OF more, of x] by (cases "x = c") auto
  have "fds_ok cn' (set xs' \<union> set ys' \<union> W')"
    by (rule fds_ok_shrink [OF fds sub(4) same fd'])
  moreover have "answered (clients cn' e)" if "e \<in> E" for e
    using that answered ans sets(4) answered_more [OF more, of e] by (cases "e = c") auto
  moreover have "selected_ok cn' xs' ys' W' L' rd wr" if "selected s = Some (rd, wr)" for rd wr
  proof (rule selected_ok_shrink [OF _ same _ pool c nc _ sub(1-3)])
    show "selected_ok (conn s) xs ys W L rd wr" using inv that by (simp add: system_inv_def)
    show "socket_fd (clients cn' x) = socket_fd (clients (conn s) x) \<and>
        io_state (clients cn' x) = io_state (clients (conn s) x)" if "x \<noteq> c" for x
      using state_more_cong(4,5) [OF more [OF that]] by simp
    show "c \<in> set xs' \<union> set ys' \<union> W' \<longrightarrow> socket_fd (clients cn' c) = socket_fd (clients (conn s) c)"
      using fd by blast
  qed
  ultimately show ?thesis
    using inv' sets(1-3) by (auto simp: system_inv_def split: option.splits)
qed

context char_buffer begin

lemma conn_inv_lose: "conn_inv cap L cn xs ys W \<Longrightarrow> conn_inv cap (insert c L) cn xs ys W"
  by (auto simp: conn_inv_def)

lemma step_take:
  assumes inv: "system_inv cap s xs ys W L" and t: "worker_take (conn s) = (Some c, cn')"
  shows "\<exists>ys' W'. system_inv cap (s\<lparr>conn := cn', taken := insert c (taken s)\<rparr>) xs ys' W' L"
proof -
  have conn: "conn_inv cap L (conn s) xs ys W" and L: "L \<subseteq> W"
    and te: "taken s \<union> executed s = W - L" "taken s \<inter> executed s = {}"
    using inv by (simp_all add: system_inv_def)
  obtain zs where ys: "ys = c # zs"
    and w: "conn_inv cap L cn' xs zs (insert c W)" "only_client c (conn s) cn'"
      "link.more (clients cn' c) = link.more (clients (conn s) c)"
      "same_descriptors (conn s) cn'" "client_pool cn' = client_pool (conn s)"
    using worker_take_inv [OF conn L] t by (auto split: list.splits)
  have c: "c \<notin> W" using conn ys by (auto simp: conn_inv_def conn_core_def)
  have "system_inv cap (s\<lparr>conn := cn', taken := insert c (taken s), executed := executed s,
      plugin := plugin s\<rparr>) xs zs (insert c W) L"
    by (rule worker_step [OF inv w(1,2,4), of "insert c (taken s)" "executed s"])
      (use w(3,5) ys c L te state_more_cong(4) [OF w(3)] in auto)
  then show ?thesis by auto
qed

lemma step_execute:
  assumes inv: "system_inv cap s xs ys W L" and c: "c \<in> taken s"
    and table: "table_complete (plugin_functions srv)"
  shows "case worker_execute cb penv srv (conn s) c (plugin s) of
      Normal (cn', p') \<Rightarrow> system_inv cap
        (s\<lparr>conn := cn', taken := taken s - {c}, executed := insert c (executed s), plugin := p'\<rparr>) xs ys W L
    | Raised e (cn', p') \<Rightarrow> e = RangeException \<and>
        system_inv cap (s\<lparr>conn := cn', taken := taken s - {c}, plugin := p'\<rparr>) xs ys W (insert c L)
    | Undefined_Behaviour \<Rightarrow> False"
proof -
  have conn: "conn_inv cap L (conn s) xs ys W" and L: "L \<subseteq> W"
    and te: "taken s \<union> executed s = W - L" "taken s \<inter> executed s = {}"
    using inv by (simp_all add: system_inv_def)
  have cW: "c \<in> W - L" using te c by blast
  from worker_execute_inv [OF conn cW table, of penv "plugin s"] obtain cl p' where
    e: "worker_execute cb penv srv (conn s) c (plugin s) \<in>
      {Normal (set_client c cl (conn s), p'), Raised RangeException (set_client c cl (conn s), p')}"
    and i: "conn_inv cap L (set_client c cl (conn s)) xs ys W" "same_connection (clients (conn s) c) cl"
    and ans: "answered cl"
    by (auto simp: answered_def)
  let ?cn = "set_client c cl (conn s)"
  have i2: "conn_inv cap (insert c L) ?cn xs ys W" by (rule conn_inv_lose [OF i(1)])
  have same: "same_descriptors (conn s) ?cn" by (simp add: same_descriptors_def)
  have fd: "socket_fd cl = socket_fd (clients (conn s) c)" using i(2) by (simp add: same_connection_def)
  have "system_inv cap (s\<lparr>conn := ?cn, taken := taken s - {c}, executed := insert c (executed s),
      plugin := p'\<rparr>) xs ys W L"
    by (rule worker_step [OF inv i(1) only_client_set same])
      (use fd cW c L te ans in auto)
  moreover have "system_inv cap (s\<lparr>conn := ?cn, taken := taken s - {c}, executed := executed s,
      plugin := p'\<rparr>) xs ys W (insert c L)"
    by (rule worker_step [OF inv i2 only_client_set same])
      (use fd cW c L te ans in auto)
  ultimately show ?thesis using e by auto
qed

text \<open>
  A worker gives a client with a reply back to the selector, or closes it; the latter loses the
  clients of \<open>com_queue\<close>.
\<close>

lemma step_finish:
  assumes inv: "system_inv cap s xs ys W L" and c: "c \<in> executed s" and rs: "writes_end rs"
  shows "\<exists>cn' xs' W' L'. worker_finish cb rs (conn s) c = Some cn' \<and>
    system_inv cap (s\<lparr>conn := cn', executed := executed s - {c}\<rparr>) xs' ys W' L' \<and>
    (if reply_ready (clients (conn s) c) \<and> \<not> is_signaled (stop_signal (conn s))
     then xs' = xs @ [c] \<and> L' = L else xs' = [] \<and> L' = L \<union> set xs)"
proof -
  have conn: "conn_inv cap L (conn s) xs ys W" and L: "L \<subseteq> W"
    and te: "taken s \<union> executed s = W - L" "taken s \<inter> executed s = {}"
    and ans: "answered (clients (conn s) c)"
    using inv c by (simp_all add: system_inv_def)
  have cW: "c \<in> W - L" using te c by blast
  have nc: "c \<notin> set xs" "c \<notin> set ys" "set xs \<inter> W = {}"
    using conn cW by (auto simp: conn_inv_def conn_core_def)
  show ?thesis
  proof (cases "reply_ready (clients (conn s) c) \<and> \<not> is_signaled (stop_signal (conn s))")
    case True
    with worker_requeue_inv [OF conn cW _ _ rs] obtain cn' where
      w: "worker_finish cb rs (conn s) c = Some cn'" "conn_inv cap L cn' (xs @ [c]) ys (W - {c})"
        "only_client c (conn s) cn'" "link.more (clients cn' c) = link.more (clients (conn s) c)"
        "same_descriptors (conn s) cn'" "client_pool cn' = client_pool (conn s)"
      by blast
    have "system_inv cap (s\<lparr>conn := cn', taken := taken s, executed := executed s - {c},
        plugin := plugin s\<rparr>) (xs @ [c]) ys (W - {c}) L"
      by (rule worker_step [OF inv w(2,3,5)])
        (use w(4,6) cW c L te state_more_cong(4) [OF w(4)] in auto)
    then have "system_inv cap (s\<lparr>conn := cn', executed := executed s - {c}\<rparr>) (xs @ [c]) ys (W - {c}) L"
      by simp
    with w(1) True show ?thesis by metis
  next
    case False
    let ?cn = "close_connection cb (conn s) c"
    have fin: "worker_finish cb rs (conn s) c = Some ?cn"
      using False ans by (auto simp: worker_finish_def answered_def reply_ready_def)
    note close = worker_close_inv [OF conn cW L]
    have pool: "alloc_index (client_pool (conn s)) \<le> alloc_index (client_pool ?cn)"
      by (simp add: close_connection_def deallocate_def split: prod.splits)
    have "system_inv cap (s\<lparr>conn := ?cn, taken := taken s, executed := executed s - {c},
        plugin := plugin s\<rparr>) [] ys (W - {c} \<union> set xs) (L \<union> set xs)"
      by (rule worker_step [OF inv close(1,2,3) pool])
        (use cW c L te nc in auto)
    then have "system_inv cap (s\<lparr>conn := ?cn, executed := executed s - {c}\<rparr>) []
        ys (W - {c} \<union> set xs) (L \<union> set xs)" by simp
    with fin False show ?thesis by metis
  qed
qed

text \<open>All steps together: the lost clients only grow.\<close>

lemma server_step_inv:
  assumes "server_step cb penv srv s s'" and "table_complete (plugin_functions srv)"
    and "system_inv cap s xs ys W L"
  shows "\<exists>xs' ys' W' L'. system_inv cap s' xs' ys' W' L' \<and> L \<subseteq> L'"
  using assms
proof (induction rule: server_step.induct)
  case (select s rd wr m rd' wr')
  from step_select [OF select(7,3,4,5)] show ?case by blast
next
  case (serve s rd wr it cn')
  from step_serve [OF serve(6,1,2,3)] serve(4) show ?case by fastforce
next
  case (take s c cn')
  from step_take [OF take(3,1)] show ?case by blast
next
  case (execute c s cn' p')
  from step_execute [OF execute(4,1,3), of penv] execute(2) show ?case by auto
next
  case (execute_throws c s e cn' p')
  from step_execute [OF execute_throws(4,1,3), of penv] execute_throws(2) show ?case by auto
next
  case (finish c s rs cn')
  from step_finish [OF finish(5,1,2)] finish(3) obtain xs' W' L' where
    "system_inv cap (s\<lparr>conn := cn', executed := executed s - {c}\<rparr>) xs' ys W' L'"
    "if reply_ready (clients (conn s) c) \<and> \<not> is_signaled (stop_signal (conn s))
     then xs' = xs @ [c] \<and> L' = L else xs' = [] \<and> L' = L \<union> set xs" by auto
  then show ?case by (metis Un_upper1 order_refl)
next
  case (stop s)
  then have "system_inv cap (s\<lparr>conn := (conn s)\<lparr>stop_signal := signal (stop_signal (conn s))\<rparr>\<rparr>) xs ys W L"
    by (simp add: system_inv_def split: option.splits prod.splits)
  then show ?case by blast
qed

end

section \<open>Reachable states\<close>

text \<open>
  The lists are read off the links; the lost clients are the allocated ones found nowhere.
  \<open>loss_accounted\<close> says how they come about: a step loses nobody, or it is the execution of a
  request that throws, which loses its client, or a worker closes a connection, which loses
  the clients of \<open>com_queue\<close>.
\<close>

definition com_list :: "'b connector \<Rightarrow> nat list" where
  "com_list cn = walk MAX_CONNECTIONS (clients cn) (head_node (com_queue cn))"

definition action_list :: "'b connector \<Rightarrow> nat list" where
  "action_list cn = walk MAX_CONNECTIONS (clients cn) (head_node (action_queue cn))"

definition lost :: "('b, 'p) server_system \<Rightarrow> nat set" where
  "lost s = used_objects (client_pool (conn s)) -
     (set (com_list (conn s)) \<union> set (action_list (conn s)) \<union> taken s \<union> executed s)"

definition loss_accounted ::
  "'b char_buffer_ops \<Rightarrow> 'p plugin_env \<Rightarrow> fence_server \<Rightarrow> ('b, 'p) server_system \<Rightarrow>
   ('b, 'p) server_system \<Rightarrow> bool" where
  "loss_accounted cb penv srv s s' \<longleftrightarrow>
     lost s' = lost s \<or>
     (\<exists>c \<in> taken s. taken s' = taken s - {c} \<and> executed s' = executed s \<and>
        outcome_error (worker_execute cb penv srv (conn s) c (plugin s)) = Some RangeException \<and>
        lost s' = insert c (lost s)) \<or>
     (\<exists>c \<in> executed s. executed s' = executed s - {c} \<and> taken s' = taken s \<and>
        \<not> (reply_ready (clients (conn s) c) \<and> \<not> is_signaled (stop_signal (conn s))) \<and>
        lost s' = lost s \<union> set (com_list (conn s)))"

lemma conn_inv_lists:
  assumes "conn_inv cap L cn xs ys W"
  shows "com_list cn = xs" "action_list cn = ys"
proof -
  have c: "conn_core cap cn xs ys W" using assms by (simp add: conn_inv_def)
  note len = conn_core_length [OF c]
  from c have l: "queue_links (clients cn) (com_queue cn) xs" "queue_links (clients cn) (action_queue cn) ys"
    by (simp_all add: conn_core_def)
  show "com_list cn = xs" unfolding com_list_def by (rule walk_queue_links [OF l(1)]) (use len in simp)
  show "action_list cn = ys" unfolding action_list_def by (rule walk_queue_links [OF l(2)]) (use len in simp)
qed

lemma system_inv_lost:
  assumes "system_inv cap s xs ys W L"
  shows "lost s = L" "com_list (conn s) = xs" "action_list (conn s) = ys"
proof -
  have c: "conn_inv cap L (conn s) xs ys W" using assms by (simp add: system_inv_def)
  note lists = conn_inv_lists [OF c]
  show "com_list (conn s) = xs" "action_list (conn s) = ys" by (fact lists)+
  have "used_objects (client_pool (conn s)) = set xs \<union> set ys \<union> W" "(set xs \<union> set ys) \<inter> W = {}"
    using c by (simp_all add: conn_inv_def conn_core_def)
  moreover have "taken s \<union> executed s = W - L" "L \<subseteq> W" using assms by (simp_all add: system_inv_def)
  ultimately show "lost s = L" unfolding lost_def lists by blast
qed

context char_buffer begin

lemma server_step_accounted:
  assumes "server_step cb penv srv s s'" and "table_complete (plugin_functions srv)"
    and "system_inv cap s xs ys W L"
  shows "loss_accounted cb penv srv s s'"
  using assms
proof (induction rule: server_step.induct)
  case (select s rd wr m rd' wr')
  note l = system_inv_lost(1) [OF select(7)] system_inv_lost(1) [OF step_select [OF select(7,3,4,5)]]
  then show ?case by (simp add: loss_accounted_def)
next
  case (serve s rd wr it cn')
  from step_serve [OF serve(6,1,2,3)] serve(4) obtain xs' ys' where
    "system_inv cap (s\<lparr>conn := cn', selected := None\<rparr>) xs' ys' W L" by auto
  from system_inv_lost(1) [OF this] system_inv_lost(1) [OF serve(6)] show ?case
    by (simp add: loss_accounted_def)
next
  case (take s c cn')
  from step_take [OF take(3,1)] obtain ys' W' where
    "system_inv cap (s\<lparr>conn := cn', taken := insert c (taken s)\<rparr>) xs ys' W' L" by blast
  from system_inv_lost(1) [OF this] system_inv_lost(1) [OF take(3)] show ?case
    by (simp add: loss_accounted_def)
next
  case (execute c s cn' p')
  from step_execute [OF execute(4,1,3), of penv] execute(2) have
    "system_inv cap (s\<lparr>conn := cn', taken := taken s - {c}, executed := insert c (executed s), plugin := p'\<rparr>) xs ys W L"
    by simp
  from system_inv_lost(1) [OF this] system_inv_lost(1) [OF execute(4)] show ?case
    by (simp add: loss_accounted_def)
next
  case (execute_throws c s e cn' p')
  from step_execute [OF execute_throws(4,1,3), of penv] execute_throws(2) have e: "e = RangeException"
    and i: "system_inv cap (s\<lparr>conn := cn', taken := taken s - {c}, plugin := p'\<rparr>) xs ys W (insert c L)"
    by simp_all
  from system_inv_lost(1) [OF i] system_inv_lost(1) [OF execute_throws(4)] execute_throws(1,2) e
  show ?case by (auto simp: loss_accounted_def)
next
  case (finish c s rs cn')
  from step_finish [OF finish(5,1,2)] finish(3) obtain xs' W' L' where
    i: "system_inv cap (s\<lparr>conn := cn', executed := executed s - {c}\<rparr>) xs' ys W' L'"
    "if reply_ready (clients (conn s) c) \<and> \<not> is_signaled (stop_signal (conn s))
     then xs' = xs @ [c] \<and> L' = L else xs' = [] \<and> L' = L \<union> set xs" by auto
  note l = system_inv_lost(1) [OF i(1)] system_inv_lost(1,2) [OF finish(5)]
  show ?case
  proof (cases "reply_ready (clients (conn s) c) \<and> \<not> is_signaled (stop_signal (conn s))")
    case True
    with l i(2) show ?thesis by (simp add: loss_accounted_def)
  next
    case False
    with l i(2) have "lost (s\<lparr>conn := cn', executed := executed s - {c}\<rparr>) = lost s \<union> set (com_list (conn s))"
      by (simp only: if_False)
    with False finish(1) show ?thesis unfolding loss_accounted_def by (intro disjI2 bexI [of _ c]) simp_all
  qed
next
  case (stop s)
  then have "system_inv cap (s\<lparr>conn := (conn s)\<lparr>stop_signal := signal (stop_signal (conn s))\<rparr>\<rparr>) xs ys W L"
    by (simp add: system_inv_def split: option.splits prod.splits)
  from system_inv_lost(1) [OF this] system_inv_lost(1) [OF stop(2)] show ?case
    by (simp add: loss_accounted_def)
qed

end

lemma start_system_inv:
  assumes cb: "char_buffer cb cap" and g: "IO_BUFFER_SIZE \<le> length garbage"
    and fds: "valid_select_fd sfd" "valid_select_fd rfd" "sfd \<noteq> rfd"
  shows "system_inv cap (start_system (started_connector cb garbage d sh sfd rfd wfd) p) [] [] {} {}"
proof -
  let ?cl = "init_client_address d garbage (new_net_client cb (take IO_BUFFER_SIZE garbage))"
  have "length (take (sizeof_sockaddr d) garbage) = sizeof_sockaddr d"
    using g by (cases d) (simp_all add: sizeof_sockaddr_def bounds_simps)
  then have "client_ok cap ?cl"
    using g char_buffer.new_cap [OF cb]
    by (simp add: client_ok_def client_caps_def init_client_address_def new_net_client_def)
  then have "conn_inv cap {} (started_connector cb garbage d sh sfd rfd wfd) [] [] {}"
    using new_alloc_inv [of MAX_CONNECTIONS] new_alloc_used [of MAX_CONNECTIONS]
    by (simp add: conn_inv_def conn_core_def started_connector_def new_connector_def queue_links_def
        size_ok_def new_queue_def SIZE_MODULUS_def new_alloc_def)
  then show ?thesis
    using fds by (simp add: system_inv_def start_system_def fds_ok_def started_connector_def new_connector_def)
qed

lemma reachable_inv:
  assumes cb: "char_buffer cb cap" and table: "table_complete (plugin_functions srv)"
    and start: "system_inv cap s0 xs0 ys0 W0 L0"
    and run: "(server_step cb penv srv)\<^sup>*\<^sup>* s0 s"
  shows "\<exists>xs ys W L. system_inv cap s xs ys W L \<and> L0 \<subseteq> L"
  using run
proof (induction rule: rtranclp_induct)
  case base
  with start show ?case by blast
next
  case (step s s')
  then obtain xs ys W L where "system_inv cap s xs ys W L" "L0 \<subseteq> L" by blast
  with char_buffer.server_step_inv [OF cb step.hyps(2) table] show ?case by blast
qed

text \<open>
  A lost client is lost for ever: no step of the server takes it back or frees its
  object, so the pool shrinks by one for each.
\<close>

lemma lost_for_ever:
  assumes cb: "char_buffer cb cap" and table: "table_complete (plugin_functions srv)"
    and g: "IO_BUFFER_SIZE \<le> length garbage"
    and fds: "valid_select_fd sfd" "valid_select_fd rfd" "sfd \<noteq> rfd"
    and run: "(server_step cb penv srv)\<^sup>*\<^sup>*
      (start_system (started_connector cb garbage d sh sfd rfd wfd) p) s"
    and later: "(server_step cb penv srv)\<^sup>*\<^sup>* s s'"
  shows "lost s \<subseteq> lost s' \<and> lost s' \<subseteq> used_objects (client_pool (conn s')) \<and>
    get_free_count (client_pool (conn s')) + card (lost s) \<le> MAX_CONNECTIONS"
proof -
  from reachable_inv [OF cb table start_system_inv [OF cb g fds] run] obtain xs ys W L where
    inv: "system_inv cap s xs ys W L" by blast
  from reachable_inv [OF cb table inv later] obtain xs' ys' W' L' where
    inv': "system_inv cap s' xs' ys' W' L'" "L \<subseteq> L'" by blast
  have l: "lost s = L" "lost s' = L'" using system_inv_lost(1) inv inv'(1) by blast+
  have pool: "alloc_inv (client_pool (conn s'))" "pool_size (client_pool (conn s')) = MAX_CONNECTIONS"
    using inv'(1) by (simp_all add: system_inv_def conn_inv_def conn_core_def)
  have sub: "L' \<subseteq> used_objects (client_pool (conn s'))"
    using inv'(1) by (auto simp: system_inv_def conn_inv_def conn_core_def)
  have "finite (used_objects (client_pool (conn s')))" by (rule ga.used_finite [OF pool(1)])
  then have "card L \<le> card (used_objects (client_pool (conn s')))"
    using inv'(2) sub by (intro card_mono) auto
  also have "\<dots> = get_allocated_count (client_pool (conn s'))" by (rule card_used_objects [OF pool(1)])
  finally have "card L \<le> get_allocated_count (client_pool (conn s'))" .
  moreover have "alloc_index (client_pool (conn s')) \<le> MAX_CONNECTIONS"
    using pool by (simp add: alloc_inv_def)
  ultimately show ?thesis
    using inv'(2) sub l pool(2) by (simp add: get_allocated_count_def get_free_count_def)
qed

end
