(* ===== verification/Connection_Loss.thy ===== *)
theory Connection_Loss
  imports Server_System
begin

text \<open>
  What happens on the paths that leave the invariant of the connector: a worker that closes a
  connection, a failed \<open>accept\<close>, and the shutdown.
\<close>

section \<open>A concrete connector\<close>

text \<open>
  Two allocated clients: number 23 waits for a request on the com queue, number 22 has just
  been executed by a worker, without an answer.
\<close>

definition sample_start :: "bounded_buffer connector" where
  "sample_start = started_connector bounded_ops (replicate 1024 0) AF_INET6
     \<lparr>signal_flag = False, wakeup_fd = -1\<rparr> 3 4 5"

definition sample_connector :: "bounded_buffer connector" where
  "sample_connector = sample_start
     \<lparr>clients := (clients sample_start)
        (23 := (clients sample_start 23)\<lparr>socket_fd := 10, io_state := READ\<rparr>,
         22 := (clients sample_start 22)\<lparr>socket_fd := 11, current_phase := EXECUTING\<rparr>),
      com_queue := \<lparr>q_size = 1, head_node = Some 23, tail_node = Some 23\<rparr>,
      client_pool := (client_pool sample_start)\<lparr>alloc_index := 22\<rparr>\<rparr>"

lemma sample_pool:
  "alloc_inv (client_pool sample_connector)" "pool_size (client_pool sample_connector) = MAX_CONNECTIONS"
  "used_objects (client_pool sample_connector) = {22, 23}"
  by (auto simp: sample_connector_def sample_start_def started_connector_def new_connector_def
      new_alloc_def alloc_inv_def free_objects_def used_objects_def take_map bounds_simps)

lemma sample_clients:
  "client_ok fst (clients sample_connector c)"
  "com_client (clients sample_connector 23)" "busy_client (clients sample_connector 22)"
  "current_phase (clients sample_connector 22) = EXECUTING"
  "socket_fd (clients sample_connector 23) = 10" "socket_fd (clients sample_connector 22) = 11"
  by (auto simp: sample_connector_def sample_start_def started_connector_def new_connector_def
      new_net_client_def init_client_address_def client_ok_def client_caps_def bounded_ops_def
      com_client_def reading_def recv_inv_def busy_client_def detached_def valid_select_fd_def
      sizeof_sockaddr_def bounds_simps)

lemma sample_queues:
  "queue_links (clients sample_connector) (com_queue sample_connector) [23]"
  "queue_links (clients sample_connector) (action_queue sample_connector) []"
  "size_ok (action_queue sample_connector) []"
  by (simp_all add: sample_connector_def sample_start_def started_connector_def new_connector_def
      new_net_client_def init_client_address_def queue_links_def new_queue_def size_ok_def
      SIZE_MODULUS_def)

lemma sample_inv: "conn_inv fst {} sample_connector [23] [] {22}"
  using sample_pool sample_clients sample_queues by (auto simp: conn_inv_def conn_core_def)

lemma sample_fds: "fds_ok sample_connector {22, 23}"
proof -
  have "server_fd sample_connector = 3" "trigger_read_fd sample_connector = 4"
    by (simp_all add: sample_connector_def sample_start_def started_connector_def)
  then show ?thesis
    using sample_clients(5,6) by (simp add: fds_ok_def valid_select_fd_def bounds_simps)
qed

section \<open>Descriptors outside the range\<close>

lemma collect_fds_invalid:
  assumes "chain h p xs None" and "x \<in> set xs" and "io_state (h x) \<noteq> NOOP"
    and "\<not> valid_select_fd (socket_fd (h x))"
  shows "collect_fds h (first_or None xs) sets = None"
  using assms
proof (induction xs arbitrary: p sets)
  case (Cons y xs)
  obtain rd wr m where s: "sets = (rd, wr, m)" by (metis prod_cases3)
  have n: "get_next_node h y = first_or None xs" using Cons.prems(1) by (simp add: get_next_node_def)
  show ?case
  proof (cases "y = x")
    case True
    with Cons.prems(3,4) s show ?thesis
      by (subst collect_fds.simps) (cases "io_state (h x)"; simp add: FD_SET_def)
  next
    case False
    with Cons.prems have "collect_fds h (first_or None xs) sets' = None" for sets'
      using Cons.IH [of "Some y"] by simp
    with n s show ?thesis
      by (subst collect_fds.simps) (simp add: FD_SET_def)
  qed
qed simp

section \<open>Properties\<close>

text \<open>
  Property C37. When a worker ends a connection itself - after an unimplemented or invalid request,
  one that does not parse or names no node, or during shutdown - every client on the com queue
  is dropped from it. Those clients keep their object and their open socket but are in no
  descriptor set any more: their requests are never read.
\<close>

theorem worker_close_loses_connections:
  assumes cb: "char_buffer cb cap" and inv: "conn_inv cap L cn xs ys W" and c: "c \<in> W - L" "L \<subseteq> W"
    and close: "current_phase (clients cn c) \<in> {CANCELED, EXECUTING} \<or> is_signaled (stop_signal cn)"
    and fds: "fds_ok cn (set xs \<union> set ys \<union> W)"
  shows "\<exists>cn'. worker_finish cb rs cn c = Some cn' \<and> com_list cn = xs \<and> com_list cn' = [] \<and>
    used_objects (client_pool cn') = used_objects (client_pool cn) - {c} \<and>
    (\<forall>x \<in> set xs. x \<in> used_objects (client_pool cn') \<and>
       socket_fd (clients cn' x) = socket_fd (clients cn x) \<and>
       (\<forall>rd wr m. build_fd_sets cn' = Some (rd, wr, m) \<longrightarrow> socket_fd (clients cn x) \<notin> rd \<union> wr))"
proof -
  let ?cn = "close_connection cb cn c"
  note wc = char_buffer.worker_close_inv [OF cb inv c]
  have fin: "worker_finish cb rs cn c = Some ?cn"
    using close by (auto simp: worker_finish_def)
  have core: "conn_core cap cn xs ys W" using inv by (simp add: conn_inv_def)
  then have used: "used_objects (client_pool cn) = set xs \<union> set ys \<union> W" and nc: "c \<notin> set xs"
    using c(1) by (auto simp: conn_core_def)
  have fd: "socket_fd (clients ?cn x) = socket_fd (clients cn x)" if "x \<in> set xs \<union> (set ys \<union> W - {c})" for x
  proof -
    have "x \<noteq> c" using that nc by blast
    then show ?thesis by (rule only_client_preds(4) [OF wc(2)])
  qed
  have "fds_ok ?cn (set xs \<union> (set ys \<union> W - {c}))"
    by (rule fds_ok_shrink [OF fds _ wc(3) fd]) blast
  from build_fd_sets_eq [OF wc(1) this] have sets: "rd \<union> wr \<subseteq> {trigger_read_fd ?cn, server_fd ?cn}"
    if "build_fd_sets ?cn = Some (rd, wr, m)" for rd wr m
    using that by (auto split: if_splits)
  have "socket_fd (clients cn x) \<notin> {trigger_read_fd ?cn, server_fd ?cn}" if "x \<in> set xs" for x
    using fds that wc(3) by (auto simp: fds_ok_def same_descriptors_def)
  with sets have "\<forall>rd wr m. build_fd_sets ?cn = Some (rd, wr, m) \<longrightarrow> socket_fd (clients cn x) \<notin> rd \<union> wr"
    if "x \<in> set xs" for x using that by blast
  moreover have "x \<in> used_objects (client_pool ?cn) \<and> socket_fd (clients ?cn x) = socket_fd (clients cn x)"
    if "x \<in> set xs" for x
    using that nc used wc(4) fd [of x] by blast
  ultimately show ?thesis
    using fin wc(4) conn_inv_lists(1) [OF inv] conn_inv_lists(1) [OF wc(1)] by blast
qed

theorem worker_close_loses_connections_witness:
  "\<exists>cn'. worker_finish bounded_ops [] sample_connector 22 = Some cn' \<and>
    com_list sample_connector = [23] \<and> com_list cn' = [] \<and> used_objects (client_pool cn') = {23} \<and>
    socket_fd (clients cn' 23) = 10"
proof -
  have h: "22 \<in> {22} - {}" "{} \<subseteq> {22 :: nat}"
    "current_phase (clients sample_connector 22) \<in> {CANCELED, EXECUTING} \<or>
      is_signaled (stop_signal sample_connector)"
    "fds_ok sample_connector (set [23] \<union> set [] \<union> {22})"
    using sample_clients(4) sample_fds by (simp_all add: insert_commute)
  show ?thesis
    using worker_close_loses_connections [OF bounded.char_buffer_axioms sample_inv h, of "[]"]
    by (auto simp: sample_pool sample_clients)
qed

text \<open>
  Property C39. A failing \<open>accept\<close> is not noticed: the client enters the com queue with the
  descriptor -1, and the next time the descriptor sets are built \<open>FD_SET\<close> is applied to it,
  which is undefined. If no other client is on the queue \<open>FD_ISSET\<close> already is, in the same
  iteration.
\<close>

theorem failed_accept_is_undefined:
  assumes cb: "char_buffer cb cap" and inv: "conn_inv cap L cn xs ys W"
    and free: "get_free_count (client_pool cn) > 0"
    and ready: "server_fd cn \<in> rd" "valid_select_fd (server_fd cn)" "valid_select_fd (trigger_read_fd cn)"
    and failed: "os_accept it = AcceptFailed"
  shows "build_fd_sets (accept_connection cb (os_accept it) cn) = None \<and>
    (xs = [] \<longrightarrow> after_select cb it rd wr cn = None)"
proof -
  let ?cn = "accept_connection cb AcceptFailed cn"
  have core: "conn_core cap cn xs ys W" using inv by (simp add: conn_inv_def)
  have ok: "client_ok cap (new_client cb AcceptFailed d (clients cn c))" for c d
  proof -
    have "client_ok cap (clients cn c)" using core by (simp add: conn_core_def)
    from char_buffer.client_ok_clear [OF cb this] show ?thesis
      by (simp add: new_client_def accept_into_def client_ok_def client_caps_def)
  qed
  have "alloc_index (client_pool cn) > 0" using free by (simp add: get_free_count_def)
  from char_buffer.accept_connection_core [OF cb core this ok] obtain c where
    core': "conn_core cap ?cn (xs @ [c]) ys W"
    and more: "link.more (clients ?cn c) = link.more (new_client cb AcceptFailed (server_domain cn) (clients cn c))"
    and same: "same_descriptors cn ?cn" by blast
  have io: "io_state (clients ?cn c) = READ" "socket_fd (clients ?cn c) = -1"
    "current_phase (clients ?cn c) \<noteq> CANCELED"
    using state_more_cong(4-6) [OF more] by (simp_all add: new_client_def accept_into_def)
  have links: "chain (clients ?cn) None (xs @ [c]) None" "get_first (com_queue ?cn) = first_or None (xs @ [c])"
    using core' by (simp_all add: conn_core_def queue_links_def get_first_def)
  have none: "collect_fds (clients ?cn) (first_or None (xs @ [c])) sets = None" for sets
    by (rule collect_fds_invalid [OF links(1), of c])
      (use io in \<open>simp_all add: valid_select_fd_def\<close>)
  have d: "server_fd ?cn = server_fd cn" "trigger_read_fd ?cn = trigger_read_fd cn"
    using same by (simp_all add: same_descriptors_def)
  have b: "build_fd_sets ?cn = None"
    unfolding build_fd_sets_def d links(2) none using ready(2,3) by (simp add: FD_SET_def)
  have "io_pass cb (os_env.truncate it) rd wr cn' = None"
    if "xs = []" "clients cn' = clients ?cn" "com_queue cn' = com_queue ?cn" for cn'
  proof -
    have "client_io cb (os_env.truncate it) rd wr cn' c = None"
      using io that(2) by (simp add: client_io_def Let_def FD_ISSET_def valid_select_fd_def)
    with links(2) that show ?thesis by (subst io_pass_def, subst io_walk.simps) simp
  qed
  then have "after_select cb it rd wr cn = None" if "xs = []"
    using that ready failed d by (simp add: after_select_def FD_ISSET_def Let_def drain_trigger_def)
  with b failed show ?thesis by simp
qed

theorem failed_accept_is_undefined_witness:
  "build_fd_sets (accept_connection bounded_ops AcceptFailed sample_connector) = None"
proof -
  let ?it = "\<lparr>os_recv = (\<lambda>_ _. EndOfStream), os_send = (\<lambda>_ _. SendFailed),
    os_select = (\<lambda>_ _. SelectFailed), os_accept = AcceptFailed, os_signal = False\<rparr>"
  have h: "get_free_count (client_pool sample_connector) > 0" "server_fd sample_connector \<in> {3}"
    "valid_select_fd (server_fd sample_connector)" "valid_select_fd (trigger_read_fd sample_connector)"
    "os_accept ?it = AcceptFailed"
    by (simp_all add: sample_connector_def sample_start_def started_connector_def get_free_count_def
        valid_select_fd_def bounds_simps)
  show ?thesis
    using failed_accept_is_undefined [OF bounded.char_buffer_axioms sample_inv h, THEN conjunct1]
    by simp
qed

section \<open>Shutdown\<close>

lemma close_fd_open: "fd \<ge> 0 \<Longrightarrow> close_fd fd closed = (FD_NONE, closed @ [fd])"
  by (simp add: close_fd_def)

lemma closed_fds_detached:
  assumes "detached (clients cn c)" and "socket_fd (clients cn c) \<ge> 0"
  shows "closed_fds (close_connection cb cn c) = closed_fds cn @ [socket_fd (clients cn c)]"
  using assms by (simp add: close_detached close_fd_open)

lemma worker_take_closed_fds:
  "worker_take cn = (r, cn') \<Longrightarrow> closed_fds cn' = closed_fds cn"
  by (auto simp: worker_take_def split: prod.splits)

lemma close_action_queue_step:
  "close_action_queue cb cn =
    (case worker_take cn of
       (None, cn) \<Rightarrow> Some cn
     | (Some c, cn) \<Rightarrow> close_action_queue cb (close_connection cb cn c))"
  by (subst close_action_queue.simps) (simp add: worker_take_def split: prod.splits option.splits)

context char_buffer begin

lemma close_action_queue_inv:
  assumes "conn_inv cap L cn xs ys W" and "L \<subseteq> W"
  shows "\<exists>cn' W' L'. close_action_queue cb cn = Some cn' \<and> L' \<subseteq> W' \<and>
    conn_inv cap L' cn' (if ys = [] then xs else []) [] W' \<and>
    closed_fds cn' = closed_fds cn @ map (\<lambda>y. socket_fd (clients cn y)) ys \<and>
    same_descriptors cn cn' \<and>
    used_objects (client_pool cn') = used_objects (client_pool cn) - set ys \<and>
    (\<forall>x. x \<notin> set ys \<longrightarrow> socket_fd (clients cn' x) = socket_fd (clients cn x))"
  using assms
proof (induction ys arbitrary: cn xs W L)
  case Nil
  with worker_take_inv [OF Nil] have "worker_take cn = (None, cn)" by simp
  with Nil show ?case
    by (subst close_action_queue_step) (auto simp: same_descriptors_def)
next
  case (Cons c zs)
  from worker_take_inv [OF Cons.prems] obtain cn1 where
    t: "worker_take cn = (Some c, cn1)" "conn_inv cap L cn1 xs zs (insert c W)"
      "only_client c cn cn1" "link.more (clients cn1 c) = link.more (clients cn c)"
      "same_descriptors cn cn1" "client_pool cn1 = client_pool cn" by auto
  have c: "c \<notin> W" "c \<notin> set zs" using Cons.prems(1) by (auto simp: conn_inv_def conn_core_def queue_links_def)
  then have cW: "c \<in> insert c W - L" "L \<subseteq> insert c W" using Cons.prems(2) by auto
  let ?cn2 = "close_connection cb cn1 c"
  note close = worker_close_inv [OF t(2) cW]
  have "busy_client (clients cn1 c)" using t(2) cW(1) by (simp add: conn_inv_def)
  then have fd: "closed_fds ?cn2 = closed_fds cn @ [socket_fd (clients cn c)]"
    using closed_fds_detached [of cn1 c cb] worker_take_closed_fds [OF t(1)] state_more_cong(4) [OF t(4)]
    by (simp add: busy_client_def valid_select_fd_def)
  have other: "socket_fd (clients ?cn2 x) = socket_fd (clients cn x)" if "x \<noteq> c" for x
    using that only_client_preds(4) [OF close(2)] only_client_preds(4) [OF t(3)] by simp
  have L2: "L \<union> set xs \<subseteq> insert c W - {c} \<union> set xs" using cW c Cons.prems(2) by auto
  from Cons.IH [OF close(1) L2] obtain cn' W' L' where
    r: "close_action_queue cb ?cn2 = Some cn'" "L' \<subseteq> W'" "conn_inv cap L' cn' [] [] W'"
      "closed_fds cn' = closed_fds ?cn2 @ map (\<lambda>y. socket_fd (clients ?cn2 y)) zs"
      "same_descriptors ?cn2 cn'"
      "used_objects (client_pool cn') = used_objects (client_pool ?cn2) - set zs"
      "\<forall>x. x \<notin> set zs \<longrightarrow> socket_fd (clients cn' x) = socket_fd (clients ?cn2 x)"
    by auto
  have "close_action_queue cb cn = Some cn'"
    using t(1) r(1) by (subst close_action_queue_step) simp
  moreover have "map (\<lambda>y. socket_fd (clients ?cn2 y)) zs = map (\<lambda>y. socket_fd (clients cn y)) zs"
    by (intro map_cong refl other) (use c(2) in blast)
  moreover have "same_descriptors cn cn'"
    using r(5) close(3) t(5) by (simp add: same_descriptors_def)
  moreover have "used_objects (client_pool cn') = used_objects (client_pool cn) - set (c # zs)"
    using r(6) close(4) t(6) by auto
  moreover have "\<forall>x. x \<notin> set (c # zs) \<longrightarrow> socket_fd (clients cn' x) = socket_fd (clients cn x)"
    using r(7) other by simp
  ultimately show ?case using r(2,3,4) fd by auto
qed

end

text \<open>
  The loop over \<open>com_queue\<close>: \<open>remove_first\<close> has detached the client, so closing it empties the
  queue and the loop ends.
\<close>

lemma close_com_queue_first:
  assumes l: "queue_links (clients cn) (com_queue cn) (x # xs)" and fd: "socket_fd (clients cn x) \<ge> 0"
  shows "\<exists>cn'. close_com_queue cb cn = Some cn' \<and>
    closed_fds cn' = closed_fds cn @ [socket_fd (clients cn x)] \<and>
    client_pool cn' = deallocate (client_pool cn) x \<and>
    server_fd cn' = server_fd cn \<and> trigger_read_fd cn' = trigger_read_fd cn \<and>
    trigger_write_fd cn' = trigger_write_fd cn \<and> stop_signal cn' = stop_signal cn"
proof -
  obtain r h q where rm: "remove_first (clients cn) (com_queue cn) = (r, h, q)" by (metis prod_cases3)
  have r: "r = Some x" using nq.deq_links [OF l rm] by simp
  let ?cn = "cn\<lparr>clients := h, com_queue := q\<rparr>"
  have pay: "link.more (h y) = link.more (clients cn y)" for y
    using same_payload_remove_first [of "clients cn" "com_queue cn"] rm by (simp add: same_payload_def)
  note same = state_more_cong(4) [OF pay]
  have det: "detached (clients ?cn x)"
    using remove_first_detached [OF l rm] by (simp add: detached_def)
  let ?new = "close_connection cb ?cn x"
  have close: "closed_fds ?new = closed_fds cn @ [socket_fd (clients cn x)]"
    using closed_fds_detached [OF det] fd same by simp
  have new: "head_node (com_queue ?new) = None" "client_pool ?new = deallocate (client_pool cn) x"
    "server_fd ?new = server_fd cn" "trigger_read_fd ?new = trigger_read_fd cn"
    "trigger_write_fd ?new = trigger_write_fd cn" "stop_signal ?new = stop_signal cn"
    by (simp_all add: close_detached [OF det] split: prod.splits)
  have "close_com_queue cb ?new = Some ?new"
    using new(1) by (subst close_com_queue.simps) (simp add: remove_first_def)
  then have "close_com_queue cb cn = Some ?new"
    using rm r by (subst close_com_queue.simps) simp
  with close new show ?thesis by blast
qed

lemma close_com_queue_empty:
  "queue_links (clients cn) (com_queue cn) [] \<Longrightarrow> close_com_queue cb cn = Some cn"
  by (subst close_com_queue.simps) (simp add: queue_links_def remove_first_def)

lemma close_com_queue_result:
  assumes inv: "conn_inv cap L cn xs [] W"
  shows "\<exists>cn'. close_com_queue cb cn = Some cn' \<and>
    closed_fds cn' = closed_fds cn @ map (\<lambda>y. socket_fd (clients cn y)) (take 1 xs) \<and>
    used_objects (client_pool cn') = used_objects (client_pool cn) - set (take 1 xs) \<and>
    trigger_read_fd cn' = trigger_read_fd cn \<and> trigger_write_fd cn' = trigger_write_fd cn \<and>
    stop_signal cn' = stop_signal cn"
proof (cases xs)
  case Nil
  with inv have "queue_links (clients cn) (com_queue cn) []" by (simp add: conn_inv_def conn_core_def)
  with close_com_queue_empty [of cn cb] Nil show ?thesis by (intro exI [of _ cn]) simp
next
  case (Cons x xs')
  have links: "queue_links (clients cn) (com_queue cn) (x # xs')"
    and pool: "alloc_inv (client_pool cn)" "x \<in> used_objects (client_pool cn)"
    and fd: "socket_fd (clients cn x) \<ge> 0"
    using inv Cons by (auto simp: conn_inv_def conn_core_def com_client_def valid_select_fd_def)
  from close_com_queue_first [OF links fd, of cb] obtain cn' where
    "close_com_queue cb cn = Some cn'" "closed_fds cn' = closed_fds cn @ [socket_fd (clients cn x)]"
    "client_pool cn' = deallocate (client_pool cn) x"
    "trigger_read_fd cn' = trigger_read_fd cn" "trigger_write_fd cn' = trigger_write_fd cn"
    "stop_signal cn' = stop_signal cn" by blast
  with ga.give_ok [OF pool] Cons show ?thesis by (intro exI [of _ cn']) simp
qed

text \<open>
  Property C40. Shutdown returns, but does not close every connection: with requests on the action
  queue it closes exactly those clients, otherwise only the first client of the com queue. The
  server socket and the trigger pipe are closed, and the stop flag is raised.
\<close>

theorem cleanup_closes:
  assumes cb: "char_buffer cb cap" and inv: "conn_inv cap L cn xs ys W" "L \<subseteq> W"
    and fds: "server_fd cn \<ge> 0" "trigger_read_fd cn \<ge> 0" "trigger_write_fd cn \<ge> 0"
  shows "\<exists>cn'. cleanup cb cn = Some cn' \<and>
    closed_fds cn' = closed_fds cn @ [server_fd cn] @
      map (\<lambda>c. socket_fd (clients cn c)) (if ys = [] then take 1 xs else ys) @
      [trigger_read_fd cn, trigger_write_fd cn] \<and>
    used_objects (client_pool cn') =
      used_objects (client_pool cn) - set (if ys = [] then take 1 xs else ys) \<and>
    is_signaled (stop_signal cn') \<and> wakeup_fd (stop_signal cn') = FD_NONE"
proof -
  let ?cn0 = "cn\<lparr>server_fd := FD_NONE, closed_fds := closed_fds cn @ [server_fd cn]\<rparr>"
  have "conn_inv cap L ?cn0 xs ys W" using inv(1) by (simp add: conn_inv_def conn_core_def)
  from char_buffer.close_action_queue_inv [OF cb this inv(2)] obtain cn1 W' L' where
    a: "close_action_queue cb ?cn0 = Some cn1" "conn_inv cap L' cn1 (if ys = [] then xs else []) [] W'"
      "closed_fds cn1 = closed_fds cn @ [server_fd cn] @ map (\<lambda>y. socket_fd (clients cn y)) ys"
      "same_descriptors ?cn0 cn1"
      "used_objects (client_pool cn1) = used_objects (client_pool cn) - set ys"
      "\<forall>x. x \<notin> set ys \<longrightarrow> socket_fd (clients cn1 x) = socket_fd (clients cn x)"
    by auto
  let ?cn2 = "cn1\<lparr>stop_signal := signal (disable_wakeup_fd (stop_signal cn1))\<rparr>"
  let ?zs = "if ys = [] then take 1 xs else []"
  have i2: "conn_inv cap L' ?cn2 (if ys = [] then xs else []) [] W'" using a(2) by simp
  have zs: "take 1 (if ys = [] then xs else []) = ?zs" by simp
  have same: "map (\<lambda>y. socket_fd (clients ?cn2 y)) ?zs = map (\<lambda>y. socket_fd (clients cn y)) ?zs"
    using a(6) by simp
  from close_com_queue_result [OF i2, of cb] obtain cn3 where c3: "close_com_queue cb ?cn2 = Some cn3"
    "closed_fds cn3 = closed_fds cn1 @ map (\<lambda>y. socket_fd (clients cn y)) ?zs"
    "used_objects (client_pool cn3) = used_objects (client_pool cn1) - set ?zs"
    "trigger_read_fd cn3 = trigger_read_fd cn1" "trigger_write_fd cn3 = trigger_write_fd cn1"
    "stop_signal cn3 = stop_signal ?cn2"
    unfolding zs same by auto
  have t: "trigger_read_fd cn1 = trigger_read_fd cn" "trigger_write_fd cn1 = trigger_write_fd cn"
    using a(4) by (simp_all add: same_descriptors_def)
  have "cleanup cb cn = Some (cn3\<lparr>trigger_read_fd := FD_NONE, trigger_write_fd := FD_NONE,
      closed_fds := closed_fds cn3 @ [trigger_read_fd cn] @ [trigger_write_fd cn]\<rparr>)"
    using a(1) c3(1) fds by (simp add: cleanup_def close_fd_open c3(4,5) t)
  moreover have "used_objects (client_pool cn3) =
      used_objects (client_pool cn) - set (if ys = [] then take 1 xs else ys)"
    using c3(3) a(5) by auto
  ultimately show ?thesis
    using c3(2,6) a(3) by (simp add: signal_def disable_wakeup_fd_def is_signaled_def)
qed

theorem cleanup_closes_witness:
  "\<exists>cn'. cleanup bounded_ops sample_connector = Some cn' \<and> closed_fds cn' = [3, 10, 4, 5] \<and>
    used_objects (client_pool cn') = {22}"
proof -
  have h: "server_fd sample_connector \<ge> 0" "trigger_read_fd sample_connector \<ge> 0"
    "trigger_write_fd sample_connector \<ge> 0"
    by (simp_all add: sample_connector_def sample_start_def started_connector_def)
  have f: "server_fd sample_connector = 3" "trigger_read_fd sample_connector = 4"
    "trigger_write_fd sample_connector = 5" "closed_fds sample_connector = []"
    by (simp_all add: sample_connector_def sample_start_def started_connector_def new_connector_def)
  have "{} \<subseteq> {22 :: nat}" by simp
  from cleanup_closes [OF bounded.char_buffer_axioms sample_inv this h] show ?thesis
    by (auto simp: f sample_clients sample_pool)
qed

text \<open>
  Property C35. One pass of the selector serves each client that is on the com queue when it begins
  exactly once and in order, although clients leave the queue on the way, and comes to an end;
  clients are moved to the end of the action queue or closed, never otherwise dropped, and
  those that stay keep their descriptor.
\<close>

theorem selector_pass_serves_all:
  assumes "char_buffer cb cap" and "conn_inv cap L cn xs ys W" and "env_ok env"
    and "sets_match cn xs rd wr"
  shows "\<exists>cn'. io_pass cb env rd wr cn = Some cn' \<and>
    serve_all cb env rd wr (com_list cn) cn = Some cn' \<and>
    set (com_list cn') \<subseteq> set (com_list cn) \<and> set (action_list cn) \<subseteq> set (action_list cn') \<and>
    set (action_list cn') \<subseteq> set (com_list cn) \<union> set (action_list cn) \<and>
    (\<forall>c \<in> set (com_list cn') \<union> set (action_list cn').
       socket_fd (clients cn' c) = socket_fd (clients cn c)) \<and>
    used_objects (client_pool cn') = set (com_list cn') \<union> set (action_list cn') \<union> W"
proof -
  from char_buffer.io_pass_serves [OF assms] obtain cn' xs' ys' where
    r: "io_pass cb env rd wr cn = Some cn'" "serve_all cb env rd wr xs cn = Some cn'"
      "conn_inv cap L cn' xs' ys' W" "pass_result cn cn' xs ys xs' ys'" by blast
  note l = conn_inv_lists [OF assms(2)] conn_inv_lists [OF r(3)]
  have "used_objects (client_pool cn') = set xs' \<union> set ys' \<union> W"
    using r(3) by (simp add: conn_inv_def conn_core_def)
  with r(4) have "set xs' \<subseteq> set xs" "set ys \<subseteq> set ys'" "set ys' \<subseteq> set xs \<union> set ys"
    "\<forall>c \<in> set xs' \<union> set ys'. socket_fd (clients cn' c) = socket_fd (clients cn c)"
    unfolding pass_result_def by argo+
  with r(1,2) \<open>used_objects _ = _\<close> show ?thesis unfolding l by (intro exI [of _ cn'] conjI; (unfold l)?)
qed

theorem selector_pass_serves_all_witness:
  "\<exists>cn'. io_pass bounded_ops \<lparr>os_recv = (\<lambda>fd n. EndOfStream), os_send = (\<lambda>fd buf. SendFailed)\<rparr> {10} {}
      sample_connector = Some cn' \<and> set (com_list cn') \<subseteq> {23}"
proof -
  have e: "env_ok \<lparr>os_recv = (\<lambda>fd n. EndOfStream), os_send = (\<lambda>fd buf. SendFailed)\<rparr>"
    by (simp add: env_ok_def recv_allowed_def send_allowed_def)
  have m: "sets_match sample_connector [23] {10} {}"
    by (simp add: sets_match_def sample_connector_def)
  have l: "com_list sample_connector = [23]" by (rule conn_inv_lists(1) [OF sample_inv])
  from selector_pass_serves_all [OF bounded.char_buffer_axioms sample_inv e m] obtain cn' where
    "io_pass bounded_ops \<lparr>os_recv = (\<lambda>fd n. EndOfStream), os_send = (\<lambda>fd buf. SendFailed)\<rparr> {10} {}
      sample_connector = Some cn'" "set (com_list cn') \<subseteq> set (com_list sample_connector)" by blast
  then show ?thesis unfolding l by auto
qed

end
