(* ===== verification/Request_Parsing.thy ===== *)
theory Request_Parsing
  imports Fence_Requests
begin

text \<open>
  The language of fencing requests, on the bytes of a message's body alone: a parser that knows
  nothing of buffers, offsets and capacities. The loop of \<open>fence_action\<close>
  (ServerConnector.cpp) decides every body, well-formed or not, as this parser does.
\<close>

section \<open>The parser\<close>

text \<open>A field is its length in two bytes, big-endian, and as many bytes of text.\<close>

fun next_field :: "bytes \<Rightarrow> (bytes \<times> bytes) option" where
  "next_field (a # b # bs) =
     (let n = 256 * unat a + unat b
      in if n \<le> length bs then Some (take n bs, drop n bs) else None)"
| "next_field _ = None"

text \<open>The text is a key and a value around the first \<open>=\<close>.\<close>

definition key_value :: "bytes \<Rightarrow> request_field option" where
  "key_value t =
     (if of_char CHR ''='' \<in> set t
      then Some (takeWhile (\<lambda>b. b \<noteq> of_char CHR ''='') t, drop 1 (dropWhile (\<lambda>b. b \<noteq> of_char CHR ''='') t))
      else None)"

definition parse_field :: "bytes \<Rightarrow> (request_field \<times> bytes) option" where
  "parse_field bs =
     (case next_field bs of
        None \<Rightarrow> None
      | Some (t, rest) \<Rightarrow>
          if length t \<le> FIELD_SIZE then map_option (\<lambda>kv. (kv, rest)) (key_value t) else None)"

fun store_value :: "request_field \<Rightarrow> bytes \<times> bytes \<Rightarrow> bytes \<times> bytes" where
  "store_value (k, v) (node, pass) =
     (if k = NODENAME then (v, pass) else if k = SECRET then (node, v) else (node, pass))"

lemma next_field_shorter: "next_field bs = Some (t, rest) \<Longrightarrow> length rest < length bs"
  by (induction bs rule: next_field.induct) (auto simp: Let_def split: if_splits)

lemma parse_field_shorter: "parse_field bs = Some (kv, rest) \<Longrightarrow> length rest < length bs"
  by (auto simp: parse_field_def split: option.splits if_splits dest: next_field_shorter)

text \<open>
  The whole body: node name and secret, as the last fields of these names give them, or the
  exception for the first field that is not one or whose value is too long.
\<close>

function parse_request :: "bytes \<Rightarrow> bytes \<times> bytes \<Rightarrow> (bytes \<times> bytes) result" where
  "parse_request bs vals =
     (if bs = [] then Inr vals
      else case parse_field bs of
        None \<Rightarrow> Inl ProtocolException
      | Some (kv, rest) \<Rightarrow>
          if value_fits kv then parse_request rest (store_value kv vals) else Inl RangeException)"
  by pat_completeness auto
termination
  by (relation "measure (\<lambda>(bs, vals). length bs)") (auto dest: parse_field_shorter)

declare parse_request.simps [simp del]

lemma parse_request_Nil [simp]: "parse_request [] vals = Inr vals"
  by (simp add: parse_request.simps)

section \<open>What parses\<close>

lemma takeWhile_fresh: "x \<notin> set ks \<Longrightarrow> takeWhile (\<lambda>b. b \<noteq> x) (ks @ x # vs) = ks"
  by (induction ks) auto

lemma dropWhile_fresh: "x \<notin> set ks \<Longrightarrow> dropWhile (\<lambda>b. b \<noteq> x) (ks @ x # vs) = x # vs"
  by (induction ks) auto

lemma key_value_text: "of_char CHR ''='' \<notin> set (fst kv) \<Longrightarrow> key_value (field_text kv) = Some kv"
  by (simp add: key_value_def field_text_def ascii_def takeWhile_fresh dropWhile_fresh)

lemma key_valueD:
  assumes "key_value t = Some kv"
  shows "t = field_text kv \<and> of_char CHR ''='' \<notin> set (fst kv)"
proof -
  from assms have "of_char CHR ''='' \<in> set t" by (simp add: key_value_def split: if_splits)
  then obtain ks vs where "t = ks @ of_char CHR ''='' # vs" "of_char CHR ''='' \<notin> set ks"
    by (blast dest: split_list_first)
  with assms show ?thesis
    by (auto simp: key_value_def field_text_def ascii_def takeWhile_fresh dropWhile_fresh)
qed

lemma next_field_encoded:
  assumes "length t \<le> 0xFFFF"
  shows "next_field (encode_field t @ rest) = Some (t, rest)"
proof -
  have "unat (of_nat (length t div 256) :: byte) = length t div 256"
    using assms by (simp add: unat_of_nat take_bit_nat_eq_self)
  moreover have "unat (of_nat (length t mod 256) :: byte) = length t mod 256"
    by (simp add: unat_of_nat take_bit_nat_eq_self)
  ultimately have "256 * unat (of_nat (length t div 256) :: byte) + unat (of_nat (length t mod 256) :: byte) =
      length t" by simp
  then show ?thesis by (simp add: encode_field_def Let_def)
qed

lemma next_fieldD:
  assumes "next_field bs = Some (t, rest)"
  shows "bs = encode_field t @ rest \<and> length t \<le> 0xFFFF"
proof -
  from assms obtain a b cs where bs: "bs = a # b # cs" by (cases bs rule: next_field.cases) auto
  let ?n = "256 * unat a + unat b"
  have t: "?n \<le> length cs" "t = take ?n cs" "rest = drop ?n cs"
    using assms by (auto simp: bs Let_def split: if_splits)
  have lt: "unat a < 256" "unat b < 256" using unsigned_less [of a] unsigned_less [of b] by simp_all
  then have "?n div 256 = unat a" "?n mod 256 = unat b" by simp_all
  with t lt show ?thesis by (simp add: bs encode_field_def)
qed

text \<open>A field parses if and only if it is the wire form of an admissible key and value.\<close>

lemma parse_field_iff:
  "parse_field bs = Some (kv, rest) \<longleftrightarrow> bs = encode_field (field_text kv) @ rest \<and> request_field_ok kv"
proof
  assume "parse_field bs = Some (kv, rest)"
  then obtain t where "next_field bs = Some (t, rest)" "length t \<le> FIELD_SIZE" "key_value t = Some kv"
    by (auto simp: parse_field_def split: option.splits if_splits)
  with next_fieldD [of bs t rest] key_valueD [of t kv]
  show "bs = encode_field (field_text kv) @ rest \<and> request_field_ok kv"
    by (auto simp: request_field_ok_def)
next
  assume a: "bs = encode_field (field_text kv) @ rest \<and> request_field_ok kv"
  then have "length (field_text kv) \<le> 0xFFFF" by (simp add: request_field_ok_def bounds_simps)
  with a show "parse_field bs = Some (kv, rest)"
    by (simp add: parse_field_def next_field_encoded key_value_text request_field_ok_def)
qed

lemma parse_encoded:
  assumes "\<forall>kv \<in> set kvs. request_field_ok kv"
  shows "parse_request (encode_request kvs) vals =
    (case apply_fields kvs vals of None \<Rightarrow> Inl RangeException | Some v \<Rightarrow> Inr v)"
  using assms
proof (induction kvs arbitrary: vals)
  case Nil
  then show ?case by (cases vals) simp
next
  case (Cons kv kvs)
  have f: "parse_field (encode_request (kv # kvs)) = Some (kv, encode_request kvs)"
    unfolding parse_field_iff using Cons.prems by simp
  have ne: "encode_request (kv # kvs) \<noteq> []" by (simp add: encode_field_def)
  have "parse_request (encode_request (kv # kvs)) vals =
      (if value_fits kv then parse_request (encode_request kvs) (store_value kv vals) else Inl RangeException)"
    using f ne by (subst parse_request.simps) (simp del: encode_request_Cons)
  also have "\<dots> = (case apply_fields (kv # kvs) vals of None \<Rightarrow> Inl RangeException | Some v \<Rightarrow> Inr v)"
    using Cons by (cases kv; cases vals) (auto simp: value_fits_def)
  finally show ?case .
qed

section \<open>The loop and the parser\<close>

text \<open>What does not parse is refused by one of the two readers.\<close>

lemma next_field_segment:
  assumes "off < n" and "n \<le> length buf"
  shows "next_field (segment off n buf) =
    (if n - off \<ge> 2 \<and> unat (field_length_at buf off) \<le> n - off - 2
     then Some (segment (off + 2) (off + 2 + unat (field_length_at buf off)) buf,
                segment (off + 2 + unat (field_length_at buf off)) n buf)
     else None)"
proof (cases "n - off \<ge> 2")
  case False
  then have "length (segment off n buf) < 2" using assms(2) by simp
  then have "next_field (segment off n buf) = None"
    by (cases "segment off n buf" rule: next_field.cases) auto
  with False show ?thesis by simp
next
  case True
  let ?rest = "segment (off + 2) n buf"
  have seg: "segment off n buf = buf ! off # buf ! (off + 1) # ?rest"
  proof -
    have "drop off buf = buf ! off # buf ! (off + 1) # drop (off + 2) buf"
      using True assms by (simp add: Cons_nth_drop_Suc)
    moreover have "n - off = Suc (Suc (n - (off + 2)))" using True by simp
    ultimately show ?thesis by (simp add: segment_def)
  qed
  have len: "unat (field_length_at buf off) = 256 * unat (buf ! off) + unat (buf ! (off + 1))"
  proof -
    let ?m = "256 * unat (buf ! off) + unat (buf ! (off + 1))"
    have lt: "unat (buf ! off) < 256" "unat (buf ! (off + 1)) < 256"
      using unsigned_less [of "buf ! off"] unsigned_less [of "buf ! (off + 1)"] by simp_all
    then have "?m div 256 = unat (buf ! off)" "?m mod 256 = unat (buf ! (off + 1))" by simp_all
    then show ?thesis using lt by (intro field_length_at_encoded) simp_all
  qed
  have "length ?rest = n - off - 2" using assms True by simp
  moreover have "take k ?rest = segment (off + 2) (off + 2 + k) buf" if "k \<le> n - off - 2" for k
    using that by (simp add: segment_def min_def)
  moreover have "drop k ?rest = segment (off + 2 + k) n buf" for k by (rule drop_segment)
  ultimately show ?thesis using True by (simp add: seg len Let_def)
qed

context char_buffer begin

lemma fence_field_refused:
  assumes caps: "client_caps cap cl" and off: "off < io_offset cl" "io_offset cl \<le> length (io_buffer cl)"
    and none: "parse_field (segment off (io_offset cl) (io_buffer cl)) = None"
  shows "\<exists>cl' off'. fence_field cb cl off = Raised ProtocolException (cl', off')"
proof (cases "next_field (segment off (io_offset cl) (io_buffer cl))")
  case None
  then have "\<exists>key. read_field cb (io_buffer cl) (io_offset cl) off (key_buffer cl) = (Inl ProtocolException, off, key)"
    using off unfolding next_field_segment [OF off]
    by (auto simp: read_field_def Let_def size_sub_le split: if_splits)
  then show ?thesis by (auto simp: fence_field_def)
next
  case (Some f)
  let ?n = "unat (field_length_at (io_buffer cl) off)"
  let ?t = "segment (off + 2) (off + 2 + ?n) (io_buffer cl)"
  have n: "io_offset cl - off \<ge> 2" "?n \<le> io_offset cl - off - 2" "fst f = ?t"
    using Some unfolding next_field_segment [OF off] by (auto split: if_splits)
  have len: "length ?t = ?n" using n off by simp
  show ?thesis
  proof (cases "?n \<le> FIELD_SIZE")
    case False
    then have "cb_substring_raw_from cb (cb_clear cb (key_buffer cl)) (io_buffer cl) (off + 2) (off + 2 + ?n) = None"
      using caps by (simp add: raw_from_fail clear_cap client_caps_def)
    with n off show ?thesis by (simp add: fence_field_def read_field_def Let_def size_sub_le)
  next
    case True
    have "off + 2 + ?n \<le> io_offset cl" using n by simp
    from read_field_ok [OF this, of "key_buffer cl" "io_buffer cl"] True caps obtain key where
      rd: "read_field cb (io_buffer cl) (io_offset cl) off (key_buffer cl) = (Inr True, off + (?n + 2), key)"
        "cb_c_str cb key = ?t"
      by (auto simp: client_caps_def)
    have "key_value ?t = None" using none Some True n(3) len by (cases f) (simp add: parse_field_def)
    then have "of_char CHR ''='' \<notin> set (cb_c_str cb key)"
      by (simp add: rd(2) key_value_def split: if_splits)
    from split_key_value_pair_no_separator [OF this] show ?thesis by (simp add: fence_field_def rd(1))
  qed
qed

text \<open>The loop reads what the parser reads.\<close>

lemma fence_fields_parsed:
  assumes "client_caps cap cl" and "off \<le> io_offset cl" "io_offset cl \<le> length (io_buffer cl)"
    and "bs = segment off (io_offset cl) (io_buffer cl)"
    and "vals = (cb_c_str cb (nodename cl), cb_c_str cb (secret cl))"
  shows "case parse_request bs vals of
      Inl e \<Rightarrow> \<exists>cl'. fence_fields cb cl off = Raised e cl'
    | Inr (n, s) \<Rightarrow> \<exists>cl'. fence_fields cb cl off = Normal cl' \<and>
        cb_c_str cb (nodename cl') = n \<and> cb_c_str cb (secret cl') = s"
  using assms
proof (induction bs vals arbitrary: cl off rule: parse_request.induct)
  case (1 bs vals)
  note caps = "1.prems"(1) and bounds = "1.prems"(2,3) and bs = "1.prems"(4) and vals = "1.prems"(5)
  show ?case
  proof (cases "bs = []")
    case True
    then have "io_offset cl \<le> off" using bs bounds by (metis diff_is_0_eq length_0_conv length_segment)
    with True vals show ?thesis by (simp add: fence_fields_done)
  next
    case ne: False
    then have off: "off < io_offset cl" using bs by (auto simp: segment_def)
    show ?thesis
    proof (cases "parse_field bs")
      case None
      from fence_field_refused [OF caps off bounds(2) None [unfolded bs]] fence_fields_raise [OF off]
      show ?thesis using ne None by (subst parse_request.simps) auto
    next
      case (Some x)
      then obtain kv rest where f: "parse_field bs = Some (kv, rest)" by (cases x) auto
      then have e: "bs = encode_field (field_text kv) @ rest" "request_field_ok kv"
        by (simp_all add: parse_field_iff)
      let ?n = "length (field_text kv)"
      have n: "?n \<le> 0xFFFF" using e(2) by (simp add: request_field_ok_def bounds_simps)
      note seg = e(1) [unfolded bs]
      note pre = segment_prefix [OF seg bounds n]
      note step = fence_field_request [OF caps seg bounds e(2)]
      show ?thesis
      proof (cases "value_fits kv")
        case False
        with step fence_fields_raise [OF off] have "\<exists>cl'. fence_fields cb cl off = Raised RangeException cl'"
          by force
        then show ?thesis using ne f False by (subst parse_request.simps) simp
      next
        case True
        with step obtain cl1 where s: "fence_field cb cl off = Normal (cl1, off + (?n + 2))"
          "cb_c_str cb (nodename cl1) = (if fst kv = NODENAME then snd kv else cb_c_str cb (nodename cl))"
          "cb_c_str cb (secret cl1) = (if fst kv = SECRET then snd kv else cb_c_str cb (secret cl))"
          by auto
        with fence_field_safe [OF caps, of off] have same: "same_but_buffers cl cl1" "client_caps cap cl1"
          by auto
        note sameD = same_but_buffersD [OF same(1)]
        have v: "store_value kv vals = (cb_c_str cb (nodename cl1), cb_c_str cb (secret cl1))"
          using s(2,3) vals by (cases kv) auto
        have "parse_request bs vals = parse_request rest (store_value kv vals)"
          using ne f True by (subst parse_request.simps) simp
        with "1.IH" [OF ne f refl True same(2) _ _ _ v, of "off + (?n + 2)"] pre(1,4) bounds(2) sameD
        show ?thesis unfolding fence_fields_step [OF off s(1)] by simp
      qed
    qed
  qed
qed

end

section \<open>Properties\<close>

text \<open>
  Property C7. Every fencing request is decided as its language says, whatever its bytes are. A
  body that does not parse cancels the connection; one whose node name or secret exceeds the
  server's buffers ends in a \<open>RangeException\<close> that no handler of the request catches; one
  without a node name leaves the phase as it was, which makes the worker close the connection;
  none of these reaches the plugin. Every other body calls the plugin function of the request's
  type once, for the node name of its last \<open>NODENAME\<close> field, and replies with its result.
\<close>

theorem every_request_decided:
  assumes cb: "char_buffer cb cap" and caps: "client_caps cap cl"
    and bounds: "HEADER_SIZE \<le> io_offset cl" "io_offset cl \<le> length (io_buffer cl)"
    and m: "msg_type (header cl) = msg_type_code m" "fence_function m (plugin_functions srv) = Some f"
    and body: "body = segment HEADER_SIZE (io_offset cl) (io_buffer cl)"
  shows "case parse_request body (cb_c_str cb (nodename cl), cb_c_str cb (secret cl)) of
      Inl e \<Rightarrow> \<exists>cl'.
        (if e = ProtocolException
         then process_client_message cb env srv cl p = Normal (cl', p) \<and> current_phase cl' = CANCELED
         else process_client_message cb env srv cl p = Raised e (cl', p) \<and> e = RangeException)
    | Inr (node, pass) \<Rightarrow>
        if node = []
        then \<exists>cl'. process_client_message cb env srv cl p = Normal (cl', p) \<and> current_phase cl' = current_phase cl
        else case call_fence env f (plugin_context srv) node (length node) p of (ok, p') \<Rightarrow>
          \<exists>cl'. process_client_message cb env srv cl p = Normal (cl', p') \<and> reply_ready cl' \<and>
            header cl' = \<lparr>msg_type = msg_type_code (if ok then FENCE_SUCCESS else FENCE_FAIL),
                          data_length = of_nat HEADER_SIZE\<rparr>"
proof -
  let ?vals = "(cb_c_str cb (nodename cl), cb_c_str cb (secret cl))"
  note parsed = char_buffer.fence_fields_parsed [OF cb caps bounds body refl]
  note safe = char_buffer.fence_fields_safe [OF cb caps, of HEADER_SIZE]
  note act = process_fence_message [OF m(2,1), of cb env p] fence_action_def
  show ?thesis
  proof (cases "parse_request body ?vals")
    case (Inl e)
    with parsed obtain cl' where f: "fence_fields cb cl HEADER_SIZE = Raised e cl'" by auto
    with safe have "e = ProtocolException \<or> e = RangeException" by auto
    with f Inl show ?thesis by (auto simp: act)
  next
    case (Inr v)
    obtain node pass where v: "v = (node, pass)" by (cases v)
    with parsed Inr obtain cl' where f: "fence_fields cb cl HEADER_SIZE = Normal cl'"
      "cb_c_str cb (nodename cl') = node" by auto
    with safe have "same_but_buffers cl cl'" by simp
    note same = same_but_buffersD(4) [OF this]
    obtain ok p' where call: "call_fence env f (plugin_context srv) node (length node) p = (ok, p')" by fastforce
    have len: "cb_length cb (nodename cl') = length node" using f(2) char_buffer.length_str [OF cb] by simp
    show ?thesis
      using Inr f call same
      by (auto simp: v act len reply_ready_def fence_reply_def)
  qed
qed

lemma parse_request_stub:
  assumes "length bs = 1"
  shows "parse_request bs vals = Inl ProtocolException"
proof -
  from assms obtain b where "bs = [b]" by (cases bs) auto
  then show ?thesis by (subst parse_request.simps) (simp add: parse_field_def)
qed

lemma sample_fields_nonempty: "length (encode_request sample_fields) \<ge> 1"
  by (simp add: sample_fields_def)

theorem every_request_decided_witness:
  "\<exists>cl'. process_client_message bounded_ops sample_env sample_server
      ((sample_client FENCE_OFF sample_fields)\<lparr>io_offset := HEADER_SIZE + 1\<rparr>) [] = Normal (cl', []) \<and>
    current_phase cl' = CANCELED"
proof -
  note cl = sample_client_ok [OF sample_fields_ok, of FENCE_OFF]
  let ?cl = "(sample_client FENCE_OFF sample_fields)\<lparr>io_offset := HEADER_SIZE + 1\<rparr>"
  have f: "fence_function FENCE_OFF (plugin_functions sample_server) = Some 13"
    by (simp add: sample_server_def)
  have caps: "client_caps fst ?cl" using cl(1) by (simp add: client_caps_def)
  have bounds: "HEADER_SIZE \<le> io_offset ?cl" "io_offset ?cl \<le> length (io_buffer ?cl)"
    using cl(2) sample_fields_nonempty by (auto simp: request_in_buffer_def sample_client_def bounds_simps)
  have ty: "msg_type (header ?cl) = msg_type_code FENCE_OFF" using cl(3) by simp
  let ?body = "segment HEADER_SIZE (io_offset ?cl) (io_buffer ?cl)"
  have "length ?body = io_offset ?cl - HEADER_SIZE" by (rule length_segment [OF bounds(2)])
  also have "\<dots> = 1" by simp
  finally have stub: "parse_request ?body v = Inl ProtocolException" for v by (rule parse_request_stub)
  from every_request_decided [OF bounded.char_buffer_axioms caps bounds ty f refl, of sample_env "[]"]
  show ?thesis unfolding stub sum.case by simp
qed

end
