(* ===== verification/Worker_Run.thy ===== *)
theory Worker_Run
  imports Connection_Loss Request_Parsing
begin

text \<open>
  A worker's whole run over the action queue (\<open>process_action_queue\<close>): which requests end in an
  exception, read off their bytes, and what such a request does to the run, to its client and
  to the lock.
\<close>

section \<open>Requests that throw\<close>

text \<open>
  The text of the request decides, with the parser of Request_Parsing: a node name or a secret
  that is too long, before anything that does not parse.
\<close>

definition request_raises :: "'b net_client \<Rightarrow> bool" where
  "request_raises cl \<longleftrightarrow>
     switch_msg_type (msg_type (header cl)) \<in> {Some FENCE_OFF, Some FENCE_ON, Some FENCE_REBOOT} \<and>
     parse_request (segment HEADER_SIZE (io_offset cl) (io_buffer cl)) ([], []) = Inl RangeException"

lemma request_raises_more: "link.more cl' = link.more cl \<Longrightarrow> request_raises cl' = request_raises cl"
  for cl :: "'b net_client"
  by (cases cl; cases cl') (simp add: request_raises_def)

lemma request_raises_phase [simp]: "request_raises (cl\<lparr>current_phase := ph\<rparr>) = request_raises cl"
  by (simp add: request_raises_def)

text \<open>The requests from the first on that throws.\<close>

definition from_raising :: "'b connector \<Rightarrow> nat list \<Rightarrow> nat list" where
  "from_raising cn ys = dropWhile (\<lambda>c. \<not> request_raises (clients cn c)) ys"

text \<open>What has been stored before plays no part in the errors.\<close>

lemma parse_request_error: "parse_request bs vals = Inl e \<Longrightarrow> parse_request bs vals' = Inl e"
proof (induction bs vals arbitrary: vals' rule: parse_request.induct)
  case (1 bs vals)
  show ?case
  proof (cases "bs = [] \<or> parse_field bs = None")
    case True
    with "1.prems" show ?thesis by (auto simp: parse_request.simps [of bs])
  next
    case False
    then obtain kv rest where f: "bs \<noteq> []" "parse_field bs = Some (kv, rest)" by auto
    with "1.prems" "1.IH" [OF f refl] show ?thesis
      by (cases "value_fits kv") (simp_all add: parse_request.simps [of bs])
  qed
qed

context char_buffer begin

lemma process_error:
  assumes caps: "client_caps cap cl" and table: "table_complete (plugin_functions srv)"
    and bounds: "HEADER_SIZE \<le> io_offset cl" "io_offset cl \<le> length (io_buffer cl)"
  shows "outcome_error (process_client_message cb penv srv cl p) =
    (if request_raises cl then Some RangeException else None)"
proof (cases "\<exists>m. switch_msg_type (msg_type (header cl)) = Some m \<and> m \<in> {FENCE_OFF, FENCE_ON, FENCE_REBOOT}")
  case False
  then have "\<not> request_raises cl" by (auto simp: request_raises_def)
  moreover have "outcome_error (process_client_message cb penv srv cl p) = None"
  proof (cases "switch_msg_type (msg_type (header cl))")
    case None
    then show ?thesis by (simp add: process_client_message_def)
  next
    case (Some m)
    with False have "m \<notin> {FENCE_OFF, FENCE_ON, FENCE_REBOOT}" by blast
    with Some show ?thesis by (cases m) (simp_all add: process_client_message_def)
  qed
  ultimately show ?thesis by simp
next
  case True
  then obtain m where m: "switch_msg_type (msg_type (header cl)) = Some m" "m \<in> {FENCE_OFF, FENCE_ON, FENCE_REBOOT}"
    by blast
  with table obtain f where f: "fence_function m (plugin_functions srv) = Some f"
    by (auto simp: table_complete_def)
  have "msg_type (header cl) = msg_type_code m" using m(1) by (simp add: switch_msg_type_Some)
  note act = process_fence_message [OF f this, of cb penv p] fence_action_def
  let ?bs = "segment HEADER_SIZE (io_offset cl) (io_buffer cl)"
  let ?vals = "(cb_c_str cb (nodename cl), cb_c_str cb (secret cl))"
  note parsed = fence_fields_parsed [OF caps bounds refl refl]
  note safe = fence_fields_safe [OF caps, of HEADER_SIZE]
  have raises: "request_raises cl \<longleftrightarrow> parse_request ?bs ?vals = Inl RangeException"
    using m parse_request_error [of ?bs "([], [])" RangeException ?vals]
      parse_request_error [of ?bs ?vals RangeException "([], [])"]
    unfolding request_raises_def by blast
  show ?thesis
  proof (cases "parse_request ?bs ?vals")
    case (Inl e)
    with parsed obtain cl' where r: "fence_fields cb cl HEADER_SIZE = Raised e cl'" by auto
    with safe have "e = ProtocolException \<or> e = RangeException" by auto
    with r Inl raises show ?thesis by (auto simp: act)
  next
    case (Inr v)
    with parsed obtain cl' where "fence_fields cb cl HEADER_SIZE = Normal cl'" by (cases v) auto
    with Inr raises show ?thesis by (simp add: act Let_def split: prod.split)
  qed
qed

lemma pending_error:
  assumes "client_ok cap cl" and "pending_client cl" and table: "table_complete (plugin_functions srv)"
  shows "outcome_error (process_client_message cb penv srv (cl\<lparr>current_phase := ph\<rparr>) p) =
    (if request_raises cl then Some RangeException else None)"
proof -
  have "client_caps cap (cl\<lparr>current_phase := ph\<rparr>)"
    using assms(1) by (simp add: client_ok_def client_caps_def)
  moreover have "HEADER_SIZE \<le> io_offset cl" "io_offset cl \<le> length (io_buffer cl)"
    using assms(2) by (auto simp: pending_client_def message_complete_def bounds_simps)
  ultimately show ?thesis
    using process_error [OF _ table, of "cl\<lparr>current_phase := ph\<rparr>" penv p] by simp
qed

section \<open>One round of the loop\<close>

lemma worker_round:
  assumes inv: "conn_inv cap L cn xs (c # zs) W" "L \<subseteq> W" and table: "table_complete (plugin_functions srv)"
    and wake: "\<And>c. writes_end (wake c)"
  obtains (raised) cn' p' where "request_raises (clients cn c)"
      "process_action_queue cb penv srv wake cn p = Some (False, cn', p')"
      "conn_inv cap (insert c L) cn' xs zs (insert c W)"
    | (served) cn' p' xs' W' L' where "\<not> request_raises (clients cn c)"
      "process_action_queue cb penv srv wake cn p = process_action_queue cb penv srv wake cn' p'"
      "conn_inv cap L' cn' xs' zs W'" "L' \<subseteq> W'"
      "\<forall>x \<in> set zs. link.more (clients cn' x) = link.more (clients cn x)"
proof -
  from worker_take_inv [OF inv] obtain cn1 where
    t: "worker_take cn = (Some c, cn1)" "conn_inv cap L cn1 xs zs (insert c W)" "only_client c cn cn1"
      "link.more (clients cn1 c) = link.more (clients cn c)" by auto
  have c: "c \<notin> W" "c \<notin> set zs" "pending_client (clients cn c)" "client_ok cap (clients cn c)"
    using inv(1) by (auto simp: conn_inv_def conn_core_def queue_links_def)
  then have cW: "c \<in> insert c W - L" "L \<subseteq> insert c W" using inv(2) by auto
  note same = state_more_cong [OF t(4)] request_raises_more [OF t(4)]
  have err: "outcome_error (worker_execute cb penv srv cn1 c p) =
      (if request_raises (clients cn c) then Some RangeException else None)"
    using pending_error [of "clients cn1 c" srv penv EXECUTING p] same c(3,4) table
    by (auto simp: worker_execute_def split: outcome.splits)
  from worker_execute_inv [OF t(2) cW(1) table, of penv p] obtain cl p1 where
    e: "worker_execute cb penv srv cn1 c p \<in>
      {Normal (set_client c cl cn1, p1), Raised RangeException (set_client c cl cn1, p1)}"
    and i: "conn_inv cap L (set_client c cl cn1) xs zs (insert c W)"
    and ans: "reply_ready cl \<or> current_phase cl \<in> {CANCELED, EXECUTING}" by blast
  let ?cn = "set_client c cl cn1"
  show ?thesis
  proof (cases "request_raises (clients cn c)")
    case True
    with e err have "worker_execute cb penv srv cn1 c p = Raised RangeException (?cn, p1)" by auto
    with t(1) have "process_action_queue cb penv srv wake cn p = Some (False, ?cn, p1)"
      by (subst process_action_queue.simps) simp
    with raised True conn_inv_lose [OF i] show ?thesis by blast
  next
    case False
    with e err have n: "worker_execute cb penv srv cn1 c p = Normal (?cn, p1)" by auto
    obtain cn2 xs2 W2 L2 where f: "worker_finish cb (wake c) ?cn c = Some cn2"
      "conn_inv cap L2 cn2 xs2 zs W2" "L2 \<subseteq> W2" "only_client c ?cn cn2"
    proof (cases "reply_ready cl \<and> \<not> is_signaled (stop_signal cn1)")
      case True
      then have r: "reply_ready (clients ?cn c)" "\<not> is_signaled (stop_signal ?cn)" by simp_all
      from worker_requeue_inv [OF i cW(1) r wake [of c]] obtain cn2 where
        "worker_finish cb (wake c) ?cn c = Some cn2" "conn_inv cap L cn2 (xs @ [c]) zs (insert c W - {c})"
        "only_client c ?cn cn2" by blast
      moreover have "L \<subseteq> insert c W - {c}" using cW by auto
      ultimately show ?thesis using that by blast
    next
      case False
      have "worker_finish cb (wake c) ?cn c = Some (close_connection cb ?cn c)"
        using False ans by (auto simp: worker_finish_def reply_ready_def)
      moreover have "L \<union> set xs \<subseteq> insert c W - {c} \<union> set xs" using cW by auto
      ultimately show ?thesis using that worker_close_inv(1,2) [OF i cW] by blast
    qed
    have "process_action_queue cb penv srv wake cn p = process_action_queue cb penv srv wake cn2 p1"
      using t(1) n f(1) by (subst process_action_queue.simps) simp
    moreover have "only_client c cn cn2"
      using only_client_trans [OF only_client_trans [OF t(3) only_client_set] f(4)] .
    then have "\<forall>x \<in> set zs. link.more (clients cn2 x) = link.more (clients cn x)"
      using c(2) by (auto simp: only_client_def)
    ultimately show ?thesis using False f(2,3) served by blast
  qed
qed

lemma process_action_queue_returns:
  assumes "conn_inv cap L cn xs ys W" and "L \<subseteq> W" and table: "table_complete (plugin_functions srv)"
    and wake: "\<And>c. writes_end (wake c)"
  shows "\<exists>cn' p' xs' W' L'. process_action_queue cb penv srv wake cn p =
      Some (from_raising cn ys = [], cn', p') \<and>
    conn_inv cap L' cn' xs' (tl (from_raising cn ys)) W' \<and> L' \<subseteq> W' \<and>
    (from_raising cn ys \<noteq> [] \<longrightarrow> hd (from_raising cn ys) \<in> L')"
  using assms(1,2)
proof (induction ys arbitrary: cn xs W L p)
  case Nil
  with worker_take_inv [OF Nil] have "worker_take cn = (None, cn)" by simp
  with Nil show ?case
    by (subst process_action_queue.simps) (auto simp: from_raising_def)
next
  case (Cons c zs)
  show ?case
  proof (rule worker_round [OF Cons.prems table wake, where penv = penv and p = p])
    fix cn' p'
    assume raised: "request_raises (clients cn c)"
      "process_action_queue cb penv srv wake cn p = Some (False, cn', p')"
      "conn_inv cap (insert c L) cn' xs zs (insert c W)"
    then have "from_raising cn (c # zs) = c # zs" by (simp add: from_raising_def)
    moreover have "insert c L \<subseteq> insert c W" using Cons.prems(2) by blast
    ultimately show ?thesis using raised(2,3) by auto
  next
    fix cn' p' xs' W' L'
    assume served: "\<not> request_raises (clients cn c)"
      "process_action_queue cb penv srv wake cn p = process_action_queue cb penv srv wake cn' p'"
      "conn_inv cap L' cn' xs' zs W'" "L' \<subseteq> W'"
      "\<forall>x \<in> set zs. link.more (clients cn' x) = link.more (clients cn x)"
    have "from_raising cn' zs = from_raising cn zs"
      unfolding from_raising_def by (rule dropWhile_cong) (use served(5) request_raises_more in auto)
    with served(1) have "from_raising cn (c # zs) = from_raising cn' zs" by (simp add: from_raising_def)
    with Cons.IH [OF served(3,4), of p'] served(2) show ?thesis by simp
  qed
qed

end

section \<open>Properties\<close>

text \<open>
  Property C36. A worker's run over the action queue always returns. It returns holding the lock,
  with the queue empty, if and only if no request on the queue throws; a request throws exactly
  when its text says so (\<open>request_raises\<close>), in every state of the plugin. Otherwise the run ends
  at the first request that throws, without the lock that its caller expects it to hold: the
  requests behind it stay on the queue, and its client is lost: it stays allocated and is on
  neither queue.
\<close>

theorem worker_run_returns:
  assumes cb: "char_buffer cb cap" and inv: "conn_inv cap L cn xs ys W" "L \<subseteq> W"
    and table: "table_complete (plugin_functions srv)" and wake: "\<forall>c. writes_end (wake c)"
    and rest: "rest = dropWhile (\<lambda>c. \<not> request_raises (clients cn c)) (action_list cn)"
  shows "\<exists>cn' p'. process_action_queue cb penv srv wake cn p = Some (rest = [], cn', p') \<and>
    action_list cn' = tl rest \<and>
    (rest \<noteq> [] \<longrightarrow> hd rest \<in> used_objects (client_pool cn') \<and>
       hd rest \<notin> set (com_list cn') \<union> set (action_list cn')) \<and>
    (\<forall>c \<in> set (action_list cn). \<forall>q.
       outcome_error (process_client_message cb penv srv ((clients cn c)\<lparr>current_phase := EXECUTING\<rparr>) q) =
         (if request_raises (clients cn c) then Some RangeException else None))"
proof -
  note l = conn_inv_lists [OF inv(1)]
  have r: "rest = from_raising cn ys"
    using rest by (simp add: l from_raising_def)
  have "writes_end (wake c)" for c using wake by blast
  from char_buffer.process_action_queue_returns [OF cb inv table, of wake, OF this, of penv p]
  obtain cn' p' xs' W' L' where
    run: "process_action_queue cb penv srv wake cn p = Some (rest = [], cn', p')"
      "conn_inv cap L' cn' xs' (tl rest) W'" "L' \<subseteq> W'" "rest \<noteq> [] \<longrightarrow> hd rest \<in> L'"
    unfolding r by blast
  have "used_objects (client_pool cn') = set xs' \<union> set (tl rest) \<union> W'" "(set xs' \<union> set (tl rest)) \<inter> W' = {}"
    using run(2) by (simp_all add: conn_inv_def conn_core_def)
  with run(3,4) conn_inv_lists [OF run(2)] have lost:
    "rest \<noteq> [] \<longrightarrow> hd rest \<in> used_objects (client_pool cn') \<and> hd rest \<notin> set (com_list cn') \<union> set (action_list cn')"
    by auto
  have "outcome_error (process_client_message cb penv srv ((clients cn c)\<lparr>current_phase := EXECUTING\<rparr>) q) =
      (if request_raises (clients cn c) then Some RangeException else None)" if "c \<in> set ys" for c q
  proof (rule char_buffer.pending_error [OF cb _ _ table])
    show "client_ok cap (clients cn c)" "pending_client (clients cn c)"
      using that inv(1) by (simp_all add: conn_inv_def conn_core_def)
  qed
  then have "\<forall>c \<in> set ys. \<forall>q.
      outcome_error (process_client_message cb penv srv ((clients cn c)\<lparr>current_phase := EXECUTING\<rparr>) q) =
        (if request_raises (clients cn c) then Some RangeException else None)" by blast
  with run(1) lost conn_inv_lists(2) [OF run(2)] show ?thesis
    unfolding l by (intro exI [of _ cn'] exI [of _ p'] conjI)
qed

text \<open>Client 23 waits with a secret of 65 bytes, client 22 with nothing wrong behind it.\<close>

definition sample_waiting :: "request_field list \<Rightarrow> nat \<Rightarrow> bounded_buffer net_client" where
  "sample_waiting kvs c =
     (let msg = encode_request kvs; n = HEADER_SIZE + length msg
      in (clients sample_start c)
           \<lparr>socket_fd := 10, current_phase := PENDING, have_header := True, io_offset := n,
            header := \<lparr>msg_type = msg_type_code FENCE_OFF, data_length = of_nat n\<rparr>,
            io_buffer := replicate HEADER_SIZE 0 @ msg @ replicate (IO_BUFFER_SIZE - n) 0\<rparr>)"

definition long_secret :: "request_field list" where
  "long_secret = [(SECRET, replicate 65 7)]"

definition sample_raising :: "bounded_buffer connector" where
  "sample_raising = sample_start
     \<lparr>clients := (clients sample_start)
        (23 := (sample_waiting long_secret 23)\<lparr>next_node := Some 22\<rparr>,
         22 := (sample_waiting sample_fields 22)\<lparr>prev_node := Some 23\<rparr>),
      action_queue := \<lparr>q_size = 2, head_node = Some 23, tail_node = Some 22\<rparr>,
      client_pool := (client_pool sample_start)\<lparr>alloc_index := 22\<rparr>\<rparr>"

lemma long_secret_ok: "\<forall>kv \<in> set long_secret. request_field_ok kv" "apply_fields long_secret vals = None"
proof -
  show "\<forall>kv \<in> set long_secret. request_field_ok kv"
    by (simp add: long_secret_def request_field_ok_def field_text_def SECRET_def ascii_def bounds_simps)
  show "apply_fields long_secret vals = None"
    by (cases vals) (simp add: long_secret_def bounds_simps)
qed

lemma sample_waiting_ok:
  assumes "HEADER_SIZE + length (encode_request kvs) \<le> IO_BUFFER_SIZE"
  shows "segment HEADER_SIZE (io_offset (sample_waiting kvs c)) (io_buffer (sample_waiting kvs c)) = encode_request kvs"
    "client_ok fst (sample_waiting kvs c)" "pending_client (sample_waiting kvs c)"
proof -
  have start: "client_ok fst (clients sample_start c)" "io_state (clients sample_start c) = NOOP"
    by (simp_all add: sample_start_def started_connector_def new_connector_def new_net_client_def
        init_client_address_def client_ok_def client_caps_def bounded_ops_def sizeof_sockaddr_def bounds_simps)
  have n: "unat (of_nat (HEADER_SIZE + length (encode_request kvs)) :: uint16) = HEADER_SIZE + length (encode_request kvs)"
    using assms by (simp add: unsigned_of_nat take_bit_nat_eq_self bounds_simps del: of_nat_add)
  show "segment HEADER_SIZE (io_offset (sample_waiting kvs c)) (io_buffer (sample_waiting kvs c)) = encode_request kvs"
    by (simp add: sample_waiting_def Let_def segment_def)
  show "client_ok fst (sample_waiting kvs c)"
    using start assms by (simp add: client_ok_def client_caps_def sample_waiting_def Let_def)
  show "pending_client (sample_waiting kvs c)"
    using start assms n
    by (simp add: pending_client_def message_complete_def sample_waiting_def Let_def valid_select_fd_def bounds_simps)
qed

lemma sample_lengths:
  "HEADER_SIZE + length (encode_request long_secret) \<le> IO_BUFFER_SIZE"
  "HEADER_SIZE + length (encode_request sample_fields) \<le> IO_BUFFER_SIZE"
  by (simp_all add: long_secret_def sample_fields_def field_text_def SECRET_def NODENAME_def ascii_def bounds_simps)

lemma sample_raising_inv: "conn_inv fst {} sample_raising [] [23, 22] {}"
proof -
  have pool: "alloc_inv (client_pool sample_raising)" "pool_size (client_pool sample_raising) = MAX_CONNECTIONS"
    "used_objects (client_pool sample_raising) = {22, 23}"
    using sample_pool by (simp_all add: sample_raising_def sample_connector_def)
  have ok: "client_ok fst (clients sample_raising c)" for c
  proof -
    have "client_ok fst (clients sample_start c)"
      by (simp add: sample_start_def started_connector_def new_connector_def new_net_client_def
          init_client_address_def client_ok_def client_caps_def bounded_ops_def sizeof_sockaddr_def bounds_simps)
    with sample_waiting_ok(2) [OF sample_lengths(1), of 23] sample_waiting_ok(2) [OF sample_lengths(2), of 22]
    show ?thesis by (simp add: sample_raising_def client_ok_def client_caps_def)
  qed
  have pending: "pending_client (clients sample_raising 23)" "pending_client (clients sample_raising 22)"
    using sample_waiting_ok(3) [OF sample_lengths(1), of 23] sample_waiting_ok(3) [OF sample_lengths(2), of 22]
    by (simp_all add: sample_raising_def pending_client_def message_complete_def)
  have "queue_links (clients sample_raising) (com_queue sample_raising) []"
    by (simp add: sample_raising_def sample_start_def started_connector_def new_connector_def
        queue_links_def new_queue_def)
  moreover have "queue_links (clients sample_raising) (action_queue sample_raising) [23, 22]"
    "size_ok (action_queue sample_raising) [23, 22]"
    by (simp_all add: sample_raising_def sample_waiting_def sample_start_def started_connector_def
        new_connector_def new_net_client_def init_client_address_def queue_links_def size_ok_def
        SIZE_MODULUS_def Let_def)
  ultimately show ?thesis using pool ok pending by (auto simp: conn_inv_def conn_core_def)
qed

theorem worker_run_returns_witness:
  "\<exists>cn' p'. process_action_queue bounded_ops sample_env sample_server (\<lambda>_. [WROTE]) sample_raising [] =
      Some (False, cn', p') \<and> action_list cn' = [22] \<and> 23 \<in> used_objects (client_pool cn') \<and>
    23 \<notin> set (com_list cn') \<union> set (action_list cn')"
proof -
  have t: "table_complete (plugin_functions sample_server)" "\<forall>c :: nat. writes_end [WROTE]"
    by (simp_all add: sample_server_def table_complete_def writes_end_def)
  have "parse_request (encode_request long_secret) ([], []) = Inl RangeException"
    by (simp add: parse_encoded [OF long_secret_ok(1)] long_secret_ok(2))
  then have "request_raises (sample_waiting long_secret 23)"
    by (simp add: request_raises_def sample_waiting_ok(1) [OF sample_lengths(1)])
      (simp add: sample_waiting_def Let_def switch_msg_type_Some)
  then have "request_raises (clients sample_raising 23)" by (simp add: sample_raising_def request_raises_def)
  then have rest: "[23, 22] = dropWhile (\<lambda>c. \<not> request_raises (clients sample_raising c)) (action_list sample_raising)"
    by (simp add: conn_inv_lists(2) [OF sample_raising_inv])
  show ?thesis
    using worker_run_returns [OF bounded.char_buffer_axioms sample_raising_inv _ t rest,
      where penv = sample_env and p = "[]"] by auto
qed

end
