(* ===== verification/Ip_Parse.thy ===== *)
theory Ip_Parse
  imports Net_Client
begin

text \<open>
  Socket addresses from their textual parts (ip_parse.h, ip_parse.cpp) and the constants of
  Shared.cpp they are made of. \<open>inet_pton\<close> is a system call and
  \<open>dsaext::parse_unsigned_int16_c_str\<close> belongs to a library that is not part of the
  repository, so both are parameters.
\<close>

section \<open>Constants\<close>

definition IPV6_LOCAL_BIND_ADDRESS :: bytes where "IPV6_LOCAL_BIND_ADDRESS = ascii ''::''"
definition IPV4_LOCAL_BIND_ADDRESS :: bytes where "IPV4_LOCAL_BIND_ADDRESS = ascii ''0.0.0.0''"

definition PROTO_IPV4 :: bytes where "PROTO_IPV4 = ascii ''IPV4''"
definition PROTO_IPV6 :: bytes where "PROTO_IPV6 = ascii ''IPV6''"

lemma proto_keywords [simp]:
  "c_string PROTO_IPV4 = PROTO_IPV4" "c_string PROTO_IPV6 = PROTO_IPV6" "PROTO_IPV4 \<noteq> PROTO_IPV6"
  by (simp_all add: PROTO_IPV4_def PROTO_IPV6_def ascii_def c_string_def)

section \<open>Addresses and the library calls\<close>

text \<open>
  The members of the address structures; ports are the two bytes in memory.
\<close>

record sockaddr_in =
  sin_family :: domain
  sin_port :: bytes
  sin_addr :: bytes

record sockaddr_in6 =
  sin6_family :: domain
  sin6_port :: bytes
  sin6_flowinfo :: "32 word"
  sin6_addr :: bytes
  sin6_scope_id :: "32 word"

datatype sockaddr = Sockaddr_In sockaddr_in | Sockaddr_In6 sockaddr_in6

definition htons :: "uint16 \<Rightarrow> bytes" where
  "htons port = [ucast (drop_bit 8 port), ucast port]"

text \<open>
  \<open>inet_pton\<close> gets the text and the memory of the address, and returns its code and what is
  in that memory afterwards. \<open>parse_uint16\<close> is \<open>None\<close> for a thrown \<open>NumberFormatException\<close>.
\<close>

record net_lib =
  inet_pton :: "domain \<Rightarrow> bytes \<Rightarrow> bytes \<Rightarrow> int \<times> bytes"
  parse_uint16 :: "bytes \<Rightarrow> nat \<Rightarrow> uint16 option"

section \<open>Parsing\<close>

definition parse_port_number :: "'b char_buffer_ops \<Rightarrow> net_lib \<Rightarrow> 'b \<Rightarrow> uint16 result" where
  "parse_port_number cb net port_string =
     (let port_number =
            (case parse_uint16 net (cb_c_str cb port_string) (cb_length cb port_string) of
               Some p \<Rightarrow> p | None \<Rightarrow> 0)
      in if port_number = 0 then Inl (InetException INVALID_PORT_NUMBER) else Inr port_number)"

definition check_inet_pton_rc :: "int \<Rightarrow> unit result" where
  "check_inet_pton_rc rc =
     (if rc = 0 then Inl (InetException INVALID_ADDRESS)
      else if rc = 1 then Inr ()
      else if rc = -1 then Inl (InetException UNSUPPORTED_AF)
      else Inl (InetException INET_UNKNOWN))"

definition parse_ipv4 ::
  "'b char_buffer_ops \<Rightarrow> net_lib \<Rightarrow> 'b \<Rightarrow> 'b \<Rightarrow> sockaddr_in \<Rightarrow> (cpp_exception, sockaddr_in) outcome" where
  "parse_ipv4 cb net ip_string port_string addr =
     (case parse_port_number cb net port_string of
        Inl e \<Rightarrow> Raised e addr
      | Inr port_number \<Rightarrow>
          (case inet_pton net AF_INET (c_string (cb_c_str cb ip_string)) (sin_addr addr) of
             (rc, written) \<Rightarrow>
               (let addr = addr\<lparr>sin_addr := written\<rparr> in
                case check_inet_pton_rc rc of
                  Inl e \<Rightarrow> Raised e addr
                | Inr _ \<Rightarrow> Normal (addr\<lparr>sin_family := AF_INET, sin_port := htons port_number\<rparr>))))"

definition parse_ipv6 ::
  "'b char_buffer_ops \<Rightarrow> net_lib \<Rightarrow> 'b \<Rightarrow> 'b \<Rightarrow> sockaddr_in6 \<Rightarrow> (cpp_exception, sockaddr_in6) outcome" where
  "parse_ipv6 cb net ip_string port_string addr =
     (case parse_port_number cb net port_string of
        Inl e \<Rightarrow> Raised e addr
      | Inr port_number \<Rightarrow>
          (case inet_pton net AF_INET6 (c_string (cb_c_str cb ip_string)) (sin6_addr addr) of
             (rc, written) \<Rightarrow>
               (let addr = addr\<lparr>sin6_addr := written\<rparr> in
                case check_inet_pton_rc rc of
                  Inl e \<Rightarrow> Raised e addr
                | Inr _ \<Rightarrow> Normal (addr\<lparr>sin6_family := AF_INET6, sin6_port := htons port_number,
                                        sin6_flowinfo := 0, sin6_scope_id := 0\<rparr>))))"

text \<open>
  The variables \<open>init_socket_address\<close> gets by reference. They keep what was stored before an
  exception. \<open>new_in\<close> and \<open>new_in6\<close> are the uninitialised structures.
\<close>

record socket_address =
  sa_domain :: domain
  sa_address :: "sockaddr option"
  sa_length :: nat

fun map_outcome :: "('a \<Rightarrow> 'c) \<Rightarrow> ('e, 'a) outcome \<Rightarrow> ('e, 'c) outcome" where
  "map_outcome f (Normal a) = Normal (f a)"
| "map_outcome f (Raised e a) = Raised e (f a)"
| "map_outcome f Undefined_Behaviour = Undefined_Behaviour"

definition init_socket_address ::
  "'b char_buffer_ops \<Rightarrow> net_lib \<Rightarrow> sockaddr_in \<Rightarrow> sockaddr_in6 \<Rightarrow> 'b \<Rightarrow> 'b \<Rightarrow> 'b \<Rightarrow>
   socket_address \<Rightarrow> (cpp_exception, socket_address) outcome" where
  "init_socket_address cb net new_in new_in6 protocol_string ip_string port_string sa =
     (let known = (if cb_equals_c_str cb protocol_string PROTO_IPV6 then Some AF_INET6
                   else if cb_equals_c_str cb protocol_string PROTO_IPV4 then Some AF_INET
                   else None)
      in case known of
           None \<Rightarrow> Raised (InetException UNKNOWN_AF) sa
         | Some d \<Rightarrow>
             (let sa = sa\<lparr>sa_domain := d, sa_length := sizeof_sockaddr d\<rparr> in
              if d = AF_INET6
              then map_outcome (\<lambda>a. sa\<lparr>sa_address := Some (Sockaddr_In6 a)\<rparr>)
                     (parse_ipv6 cb net ip_string port_string new_in6)
              else map_outcome (\<lambda>a. sa\<lparr>sa_address := Some (Sockaddr_In a)\<rparr>)
                     (parse_ipv4 cb net ip_string port_string new_in)))"

section \<open>What the result is\<close>

text \<open>
  An address fit for \<open>bind\<close> and \<open>connect\<close>: the structure, its family, the domain and the
  length agree, the port is not zero and the IPv6 extras are zero.
\<close>

fun sockaddr_ok :: "domain \<Rightarrow> sockaddr \<Rightarrow> bool" where
  "sockaddr_ok d (Sockaddr_In a) \<longleftrightarrow> d = AF_INET \<and> sin_family a = AF_INET \<and> sin_port a \<noteq> [0, 0]"
| "sockaddr_ok d (Sockaddr_In6 a) \<longleftrightarrow> d = AF_INET6 \<and> sin6_family a = AF_INET6 \<and>
     sin6_port a \<noteq> [0, 0] \<and> sin6_flowinfo a = 0 \<and> sin6_scope_id a = 0"

definition socket_address_ok :: "socket_address \<Rightarrow> bool" where
  "socket_address_ok sa \<longleftrightarrow>
     sa_length sa = sizeof_sockaddr (sa_domain sa) \<and>
     (case sa_address sa of None \<Rightarrow> False | Some a \<Rightarrow> sockaddr_ok (sa_domain sa) a)"

fun sockaddr_bytes :: "sockaddr \<Rightarrow> bytes" where
  "sockaddr_bytes (Sockaddr_In a) = sin_addr a"
| "sockaddr_bytes (Sockaddr_In6 a) = sin6_addr a"

fun sockaddr_port :: "sockaddr \<Rightarrow> bytes" where
  "sockaddr_port (Sockaddr_In a) = sin_port a"
| "sockaddr_port (Sockaddr_In6 a) = sin6_port a"

definition keyword_of :: "domain \<Rightarrow> bytes" where
  "keyword_of d = (case d of AF_INET6 \<Rightarrow> PROTO_IPV6 | AF_INET \<Rightarrow> PROTO_IPV4)"

lemma htons_0: "htons p = [0, 0] \<longleftrightarrow> p = 0"
proof
  assume h: "htons p = [0, 0]"
  show "p = 0"
  proof (rule bit_word_eqI)
    fix n assume n: "n < LENGTH(16)"
    from h have hi: "bit (ucast (drop_bit 8 p) :: byte) (n - 8) = False"
      and lo: "bit (ucast p :: byte) n = False"
      by (simp_all add: htons_def)
    show "bit p n = bit (0 :: uint16) n"
      using hi lo n by (cases "n < 8") (simp_all add: bit_simps)
  qed
qed (simp add: htons_def)

text \<open>The two parsers in one form, for any address family.\<close>

definition pton_error :: "int \<Rightarrow> inet_error_id" where
  "pton_error rc = (if rc = 0 then INVALID_ADDRESS else if rc = -1 then UNSUPPORTED_AF else INET_UNKNOWN)"

definition parsed_port :: "'b char_buffer_ops \<Rightarrow> net_lib \<Rightarrow> 'b \<Rightarrow> uint16" where
  "parsed_port cb net port =
     (case parse_uint16 net (cb_c_str cb port) (cb_length cb port) of Some p \<Rightarrow> p | None \<Rightarrow> 0)"

lemma parse_port_number_eq:
  "parse_port_number cb net port =
     (if parsed_port cb net port = 0 then Inl (InetException INVALID_PORT_NUMBER)
      else Inr (parsed_port cb net port))"
  by (simp add: parse_port_number_def parsed_port_def Let_def)

text \<open>An outcome of the parsers that fits the results of the library calls.\<close>

definition parse_result_ok ::
  "(int \<times> bytes) \<Rightarrow> uint16 \<Rightarrow> domain \<Rightarrow> (cpp_exception, sockaddr) outcome \<Rightarrow> bool" where
  "parse_result_ok pton p d r =
     (case r of
        Normal a \<Rightarrow> p \<noteq> 0 \<and> fst pton = 1 \<and> sockaddr_ok d a \<and> sockaddr_port a = htons p \<and>
                    sockaddr_bytes a = snd pton
      | Raised e a \<Rightarrow>
          (p = 0 \<and> e = InetException INVALID_PORT_NUMBER) \<or>
          (p \<noteq> 0 \<and> fst pton \<noteq> 1 \<and> e = InetException (pton_error (fst pton)))
      | Undefined_Behaviour \<Rightarrow> False)"

lemma parse_ipv4_ok:
  "parse_result_ok (inet_pton net AF_INET (c_string (cb_c_str cb ip)) (sin_addr a))
     (parsed_port cb net port) AF_INET (map_outcome Sockaddr_In (parse_ipv4 cb net ip port a))"
  by (auto simp: parse_result_ok_def parse_port_number_eq check_inet_pton_rc_def parse_ipv4_def
      parse_ipv6_def pton_error_def htons_0 split: prod.split sum.splits if_splits)

lemma parse_ipv6_ok:
  "parse_result_ok (inet_pton net AF_INET6 (c_string (cb_c_str cb ip)) (sin6_addr a))
     (parsed_port cb net port) AF_INET6 (map_outcome Sockaddr_In6 (parse_ipv6 cb net ip port a))"
  by (auto simp: parse_result_ok_def parse_port_number_eq check_inet_pton_rc_def parse_ipv4_def
      parse_ipv6_def pton_error_def htons_0 split: prod.split sum.splits if_splits)

lemma map_outcome_comp: "map_outcome f (map_outcome g r) = map_outcome (\<lambda>a. f (g a)) r"
  by (cases r) simp_all

text \<open>Both families at once: the outcome for domain \<open>d\<close> over the address memory of that family.\<close>

lemma init_socket_address_known:
  assumes cb: "char_buffer cb cap" and proto: "cb_c_str cb proto = keyword_of d"
  shows "\<exists>old r. parse_result_ok (inet_pton net d (c_string (cb_c_str cb ip)) old)
             (parsed_port cb net port) d r \<and>
           init_socket_address cb net raw_four raw_six proto ip port sa =
             map_outcome (\<lambda>a. sa\<lparr>sa_domain := d, sa_length := sizeof_sockaddr d, sa_address := Some a\<rparr>) r"
proof -
  note equals_c_str = char_buffer.equals_c_str [OF cb]
  show ?thesis
  proof (cases d)
    case AF_INET6
    with proto show ?thesis
      by (intro exI [of _ "sin6_addr raw_six"] exI [of _ "map_outcome Sockaddr_In6 (parse_ipv6 cb net ip port raw_six)"])
        (simp add: init_socket_address_def equals_c_str keyword_of_def map_outcome_comp parse_ipv6_ok)
  next
    case AF_INET
    with proto show ?thesis
      by (intro exI [of _ "sin_addr raw_four"] exI [of _ "map_outcome Sockaddr_In (parse_ipv4 cb net ip port raw_four)"])
        (simp add: init_socket_address_def equals_c_str keyword_of_def map_outcome_comp parse_ipv4_ok)
  qed
qed

lemma init_socket_address_unknown:
  assumes cb: "char_buffer cb cap" and other: "\<forall>d. cb_c_str cb proto \<noteq> keyword_of d"
  shows "init_socket_address cb net raw_four raw_six proto ip port sa = Raised (InetException UNKNOWN_AF) sa"
proof -
  from other have "cb_c_str cb proto \<noteq> PROTO_IPV6" "cb_c_str cb proto \<noteq> PROTO_IPV4"
    by (metis domain.simps(3) keyword_of_def, metis domain.simps(4) keyword_of_def)
  then show ?thesis by (simp add: init_socket_address_def char_buffer.equals_c_str [OF cb])
qed

section \<open>Property\<close>

text \<open>
  Property C18. The type of \<open>init_socket_address\<close>: it returns normally only with an address
  whose family, structure, domain and length agree, for the protocol keyword that was given,
  with the parsed port in network order and the bytes \<open>inet_pton\<close> produced; otherwise it
  throws an \<open>InetException\<close> whose identifier tells what was wrong, and never anything else.
  With an unknown protocol nothing has been changed.
\<close>

theorem init_socket_address_result:
  assumes cb: "char_buffer cb cap"
  shows "case init_socket_address cb net raw_four raw_six proto ip port sa of
       Normal sa' \<Rightarrow>
         socket_address_ok sa' \<and> cb_c_str cb proto = keyword_of (sa_domain sa') \<and>
         (\<exists>a old. sa_address sa' = Some a \<and> sockaddr_port a = htons (parsed_port cb net port) \<and>
            inet_pton net (sa_domain sa') (c_string (cb_c_str cb ip)) old = (1, sockaddr_bytes a))
     | Raised e sa' \<Rightarrow>
         (e = InetException UNKNOWN_AF \<and> (\<forall>d. cb_c_str cb proto \<noteq> keyword_of d) \<and> sa' = sa) \<or>
         (cb_c_str cb proto = keyword_of (sa_domain sa') \<and>
          sa_length sa' = sizeof_sockaddr (sa_domain sa') \<and>
          (e = InetException INVALID_PORT_NUMBER \<and> parsed_port cb net port = 0 \<or>
           (\<exists>old rc. fst (inet_pton net (sa_domain sa') (c_string (cb_c_str cb ip)) old) = rc \<and>
              rc \<noteq> 1 \<and> e = InetException (pton_error rc))))
     | Undefined_Behaviour \<Rightarrow> False"
proof (cases "\<exists>d. cb_c_str cb proto = keyword_of d")
  case True
  then obtain d where d: "cb_c_str cb proto = keyword_of d" by blast
  from init_socket_address_known [OF cb d, of net ip port raw_four raw_six sa] obtain old r
    where r: "parse_result_ok (inet_pton net d (c_string (cb_c_str cb ip)) old)
                (parsed_port cb net port) d r"
      and init: "init_socket_address cb net raw_four raw_six proto ip port sa =
        map_outcome (\<lambda>a. sa\<lparr>sa_domain := d, sa_length := sizeof_sockaddr d, sa_address := Some a\<rparr>) r"
    by blast
  show ?thesis
    unfolding init using r d
    by (cases r) (auto simp: parse_result_ok_def socket_address_ok_def prod_eq_iff)
next
  case False
  with init_socket_address_unknown [OF cb] show ?thesis by simp
qed

text \<open>A library that knows one address, for the witness.\<close>

definition sample_net :: net_lib where
  "sample_net = \<lparr>inet_pton = (\<lambda>d text old. if d = AF_INET \<and> text = IPV4_LOCAL_BIND_ADDRESS
       then (1, [0, 0, 0, 0]) else (0, old)),
     parse_uint16 = (\<lambda>text n. if text = ascii ''2301'' then Some 2301 else None)\<rparr>"

definition blank_in :: sockaddr_in where
  "blank_in = \<lparr>sin_family = AF_INET6, sin_port = [1, 1], sin_addr = [9, 9, 9, 9]\<rparr>"

definition blank_in6 :: sockaddr_in6 where
  "blank_in6 = \<lparr>sin6_family = AF_INET, sin6_port = [1, 1], sin6_flowinfo = 7,
     sin6_addr = replicate 16 9, sin6_scope_id = 7\<rparr>"

definition blank_address :: socket_address where
  "blank_address = \<lparr>sa_domain = AF_INET6, sa_address = None, sa_length = 0\<rparr>"

lemma sample_address:
  "init_socket_address bounded_ops sample_net blank_in blank_in6 (cb_of_c_str bounded_ops (ascii ''IPV4''))
     (cb_of_c_str bounded_ops (ascii ''0.0.0.0'')) (cb_of_c_str bounded_ops (ascii ''2301'')) blank_address
   = Normal \<lparr>sa_domain = AF_INET,
       sa_address = Some (Sockaddr_In \<lparr>sin_family = AF_INET, sin_port = [8, 253], sin_addr = [0, 0, 0, 0]\<rparr>),
       sa_length = 16\<rparr>"
  by code_simp

theorem init_socket_address_result_witness:
  "socket_address_ok \<lparr>sa_domain = AF_INET,
     sa_address = Some (Sockaddr_In \<lparr>sin_family = AF_INET, sin_port = [8, 253], sin_addr = [0, 0, 0, 0]\<rparr>),
     sa_length = 16\<rparr>"
  using init_socket_address_result [OF bounded.char_buffer_axioms, where net = sample_net
      and raw_four = blank_in and raw_six = blank_in6 and sa = blank_address
      and proto = "cb_of_c_str bounded_ops (ascii ''IPV4'')"
      and ip = "cb_of_c_str bounded_ops (ascii ''0.0.0.0'')"
      and port = "cb_of_c_str bounded_ops (ascii ''2301'')"]
  unfolding sample_address by (simp only: outcome.case)

end
