(* ===== verification/Client_Connector.thy ===== *)
theory Client_Connector
  imports Ip_Parse Fence_Requests Message_Framing
begin

text \<open>
  The client's side of a connection (ClientConnector.h, ClientConnector.cpp): connecting, and
  the exchange of one request and its reply over a blocking socket. The system calls are an
  environment with a state of its own, so a peer that answers can be put behind them. The
  loops around \<open>send\<close> and \<open>recv\<close> may run for ever; then the value is \<open>None\<close>.
\<close>

section \<open>The object and its environment\<close>

definition CLIENT_IO_BUFFER_SIZE :: nat where [bounds_simps]: "CLIENT_IO_BUFFER_SIZE = 1024"

record client_connector =
  cc_io_buffer :: bytes
  cc_header :: msg_header
  cc_address :: socket_address
  cc_socket :: int
  cc_closed :: "int list"

datatype connect_result =
    Connected | ConnectEADDRINUSE | ConnectEBADF | ConnectEISCONN | ConnectENETUNREACH
  | ConnectECONNREFUSED | ConnectFailed

record 'n client_os =
  net_socket :: "domain \<Rightarrow> 'n \<Rightarrow> int \<times> 'n"
  net_bind :: "int \<Rightarrow> sockaddr \<Rightarrow> nat \<Rightarrow> 'n \<Rightarrow> int \<times> 'n"
  net_connect :: "int \<Rightarrow> sockaddr option \<Rightarrow> nat \<Rightarrow> 'n \<Rightarrow> connect_result \<times> 'n"
  net_send :: "int \<Rightarrow> bytes \<Rightarrow> 'n \<Rightarrow> send_result \<times> 'n"
  net_recv :: "int \<Rightarrow> nat \<Rightarrow> 'n \<Rightarrow> recv_result \<times> 'n"

text \<open>
  The constructor; after an exception the object does not exist.
\<close>

definition construct_client_connector ::
  "'b char_buffer_ops \<Rightarrow> net_lib \<Rightarrow> sockaddr_in \<Rightarrow> sockaddr_in6 \<Rightarrow> bytes \<Rightarrow> 'b \<Rightarrow> 'b \<Rightarrow> 'b \<Rightarrow>
   (cpp_exception, client_connector) outcome" where
  "construct_client_connector cb net new_in new_in6 garbage protocol_string ip_string port_string =
     map_outcome (\<lambda>sa. \<lparr>cc_io_buffer = take CLIENT_IO_BUFFER_SIZE garbage, cc_header = new_msg_header,
                       cc_address = sa, cc_socket = FD_NONE, cc_closed = []\<rparr>)
       (init_socket_address cb net new_in new_in6 protocol_string ip_string port_string
          \<lparr>sa_domain = AF_INET6, sa_address = None, sa_length = 0\<rparr>)"

definition disconnect_from_server :: "client_connector \<Rightarrow> client_connector" where
  "disconnect_from_server c =
     (case close_fd (cc_socket c) (cc_closed c) of
        (fd, closed) \<Rightarrow> c\<lparr>cc_socket := fd, cc_closed := closed\<rparr>)"

text \<open>The destructor closes the socket in the same way.\<close>

definition destruct_client_connector :: "client_connector \<Rightarrow> client_connector" where
  "destruct_client_connector c =
     (case close_fd (cc_socket c) (cc_closed c) of
        (fd, closed) \<Rightarrow> c\<lparr>cc_socket := fd, cc_closed := closed\<rparr>)"

definition clear_client_buffer :: "client_connector \<Rightarrow> client_connector" where
  "clear_client_buffer c = c\<lparr>cc_io_buffer := zero_memory (cc_io_buffer c) CLIENT_IO_BUFFER_SIZE\<rparr>"

section \<open>Connecting\<close>

text \<open>
  The local address for \<open>bind\<close>, any port. \<open>domain\<close> has no other family, so the branch that
  throws \<open>UNKNOWN_AF\<close> cannot be reached here (the constructor has set one of the two).
\<close>

definition local_address :: "net_lib \<Rightarrow> sockaddr_in \<Rightarrow> sockaddr_in6 \<Rightarrow> domain \<Rightarrow> sockaddr result" where
  "local_address net new_in new_in6 d =
     (case d of
        AF_INET6 \<Rightarrow>
          (case inet_pton net AF_INET6 (c_string IPV6_LOCAL_BIND_ADDRESS) (sin6_addr new_in6) of
             (rc, written) \<Rightarrow>
               (case check_inet_pton_rc rc of
                  Inl e \<Rightarrow> Inl e
                | Inr _ \<Rightarrow> Inr (Sockaddr_In6 (new_in6\<lparr>sin6_addr := written, sin6_family := AF_INET6,
                             sin6_port := [0, 0], sin6_flowinfo := 0, sin6_scope_id := 0\<rparr>))))
      | AF_INET \<Rightarrow>
          (case inet_pton net AF_INET (c_string IPV4_LOCAL_BIND_ADDRESS) (sin_addr new_in) of
             (rc, written) \<Rightarrow>
               (case check_inet_pton_rc rc of
                  Inl e \<Rightarrow> Inl e
                | Inr _ \<Rightarrow> Inr (Sockaddr_In (new_in\<lparr>sin_addr := written, sin_family := AF_INET,
                             sin_port := [0, 0]\<rparr>)))))"

fun connect_error :: "connect_result \<Rightarrow> inet_error_id option" where
  "connect_error Connected = None"
| "connect_error ConnectEADDRINUSE = Some SOCKET_ERROR"
| "connect_error ConnectEBADF = Some SOCKET_ERROR"
| "connect_error ConnectEISCONN = Some SOCKET_ERROR"
| "connect_error ConnectENETUNREACH = Some NETWORK_UNREACHABLE"
| "connect_error ConnectECONNREFUSED = Some CONNECTION_REFUSED"
| "connect_error ConnectFailed = Some CONNECT_FAILED"

definition connect_to_server ::
  "net_lib \<Rightarrow> sockaddr_in \<Rightarrow> sockaddr_in6 \<Rightarrow> 'n client_os \<Rightarrow> client_connector \<Rightarrow> 'n \<Rightarrow>
   (cpp_exception, client_connector \<times> 'n) outcome" where
  "connect_to_server net new_in new_in6 os c n =
     (case net_socket os (sa_domain (cc_address c)) n of
        (fd, n) \<Rightarrow>
          (let c = c\<lparr>cc_socket := fd\<rparr> in
           if fd < 0 then Raised (InetException SOCKET_ERROR) (c, n)
           else (case local_address net new_in new_in6 (sa_domain (cc_address c)) of
                   Inl e \<Rightarrow> Raised e (c, n)
                 | Inr local \<Rightarrow>
                     (case net_bind os fd local (sizeof_sockaddr (sa_domain (cc_address c))) n of
                        (rc, n) \<Rightarrow>
                          if rc \<noteq> 0 then Raised (InetException BIND_FAILED) (c, n)
                          else (case net_connect os fd (sa_address (cc_address c)) (sa_length (cc_address c)) n of
                                  (r, n) \<Rightarrow>
                                    (case connect_error r of
                                       Some e \<Rightarrow> Raised (InetException e) (c, n)
                                     | None \<Rightarrow> Normal (c, n)))))))"

section \<open>Sending and receiving\<close>

text \<open>
  The loop of \<open>send_message\<close>. A failed call closes the socket and the loop goes on.
\<close>

partial_function (option) client_send_loop ::
  "'n client_os \<Rightarrow> client_connector \<Rightarrow> nat \<Rightarrow> nat \<Rightarrow> 'n \<Rightarrow> (nat \<times> client_connector \<times> 'n) option" where
  "client_send_loop os c off send_length n =
     (if off < send_length then
        (case net_send os (cc_socket c) (segment off send_length (cc_io_buffer c)) n of
           (r, n) \<Rightarrow>
             (case r of
                Sent write_size \<Rightarrow> client_send_loop os c (off + write_size) send_length n
              | SendWouldBlock \<Rightarrow>
                  client_send_loop os (disconnect_from_server c) off send_length n
              | SendFailed \<Rightarrow>
                  client_send_loop os (disconnect_from_server c) off send_length n))
      else Some (off, c, n))"

definition client_send_message ::
  "'n client_os \<Rightarrow> client_connector \<Rightarrow> 'n \<Rightarrow> (cpp_exception, client_connector \<times> 'n) outcome option" where
  "client_send_message os c n =
     (let send_length = min (max HEADER_SIZE (unat (data_length (cc_header c)))) CLIENT_IO_BUFFER_SIZE;
          c = c\<lparr>cc_io_buffer := serialize (cc_header c) (cc_io_buffer c)\<rparr>
      in case client_send_loop os c 0 send_length n of
           None \<Rightarrow> None
         | Some (off, c, n) \<Rightarrow>
             Some (if off < unat (data_length (cc_header c))
                   then Raised (OsException IO_ERROR) (c, n) else Normal (c, n)))"

partial_function (option) client_recv_loop ::
  "'n client_os \<Rightarrow> client_connector \<Rightarrow> bool \<Rightarrow> nat \<Rightarrow> nat \<Rightarrow> 'n \<Rightarrow>
   (bool \<times> nat \<times> client_connector \<times> 'n) option" where
  "client_recv_loop os c got_header off receive_length n =
     (if off < receive_length then
        (case net_recv os (cc_socket c) (receive_length - off) n of
           (r, n) \<Rightarrow>
             (case r of
                Received data \<Rightarrow>
                  (let c = c\<lparr>cc_io_buffer := blit (cc_io_buffer c) off data\<rparr>;
                       off = off + length data
                   in if \<not> got_header \<and> off \<ge> HEADER_SIZE then
                        (let h = deserialize (cc_header c) (cc_io_buffer c)
                         in client_recv_loop os (c\<lparr>cc_header := h\<rparr>) True off
                              (min (unat (data_length h)) CLIENT_IO_BUFFER_SIZE) n)
                      else client_recv_loop os c got_header off receive_length n)
              | EndOfStream \<Rightarrow> client_recv_loop os c got_header off receive_length n
              | RecvFailed \<Rightarrow>
                  client_recv_loop os (disconnect_from_server c) got_header off receive_length n))
      else Some (got_header, off, c, n))"

definition client_receive_message ::
  "'n client_os \<Rightarrow> client_connector \<Rightarrow> 'n \<Rightarrow> (cpp_exception, client_connector \<times> 'n) outcome option" where
  "client_receive_message os c n =
     (let c = clear_client_buffer (c\<lparr>cc_header := clear_header (cc_header c)\<rparr>)
      in case client_recv_loop os c False 0 HEADER_SIZE n of
           None \<Rightarrow> None
         | Some (got_header, off, c, n) \<Rightarrow>
             Some (if \<not> got_header \<or> off < unat (data_length (cc_header c))
                   then Raised (OsException IO_ERROR) (c, n) else Normal (c, n)))"

section \<open>Requests\<close>

text \<open>\<open>send_message\<close> and then \<open>receive_message\<close>.\<close>

definition exchange ::
  "'n client_os \<Rightarrow> client_connector \<Rightarrow> 'n \<Rightarrow> (cpp_exception, client_connector \<times> 'n) outcome option" where
  "exchange os c n =
     (case client_send_message os c n of
        Some (Normal (c, n)) \<Rightarrow> client_receive_message os c n
      | r \<Rightarrow> r)"

type_synonym 'n client_answer = "(cpp_exception, bool \<times> client_connector \<times> 'n) outcome option"

definition check_connection :: "'n client_os \<Rightarrow> client_connector \<Rightarrow> 'n \<Rightarrow> 'n client_answer" where
  "check_connection os c n =
     map_option (map_outcome (\<lambda>(c, n). (is_msg_type (cc_header c) ECHO_REPLY, c, n)))
       (exchange os (c\<lparr>cc_header := (set_msg_type (cc_header c) ECHO_REQUEST)
                                      \<lparr>data_length := of_nat HEADER_SIZE\<rparr>\<rparr>) n)"

text \<open>The two parameters as C strings.\<close>

definition request_param :: "'b char_buffer_ops \<Rightarrow> bytes \<Rightarrow> 'b \<Rightarrow> bytes" where
  "request_param cb key val =
     key @ c_string (cb_c_str cb (KEY_VALUE_SPLIT_SEQ cb)) @ c_string (cb_c_str cb val)"

definition fence_action_impl ::
  "'b char_buffer_ops \<Rightarrow> 'n client_os \<Rightarrow> MsgType \<Rightarrow> 'b \<Rightarrow> 'b \<Rightarrow> client_connector \<Rightarrow> 'n \<Rightarrow>
   'n client_answer" where
  "fence_action_impl cb os m node_name client_secret c n =
     (let c = c\<lparr>cc_header := set_msg_type (cc_header c) m\<rparr> in
      case write_field_string (cc_io_buffer c) CLIENT_IO_BUFFER_SIZE HEADER_SIZE
             (request_param cb NODENAME node_name) of
        Inl e \<Rightarrow> Some (Raised e (False, c, n))
      | Inr (buf, offset) \<Rightarrow>
          (let c = c\<lparr>cc_io_buffer := buf\<rparr> in
           case write_field_string (cc_io_buffer c) CLIENT_IO_BUFFER_SIZE offset
                  (request_param cb SECRET client_secret) of
             Inl e \<Rightarrow> Some (Raised e (False, c, n))
           | Inr (buf, offset) \<Rightarrow>
               (case exchange os (c\<lparr>cc_io_buffer := buf,
                       cc_header := (cc_header c)\<lparr>data_length := of_nat offset\<rparr>\<rparr>) n of
                  None \<Rightarrow> None
                | Some (Raised e (c, n)) \<Rightarrow> Some (Raised e (False, c, n))
                | Some Undefined_Behaviour \<Rightarrow> Some Undefined_Behaviour
                | Some (Normal (c, n)) \<Rightarrow>
                    Some (if is_msg_type (cc_header c) FENCE_SUCCESS then Normal (True, c, n)
                          else if \<not> is_msg_type (cc_header c) FENCE_FAIL
                          then Raised ProtocolException (False, c, n)
                          else Normal (False, c, n)))))"

definition client_fence_off ::
  "'b char_buffer_ops \<Rightarrow> 'n client_os \<Rightarrow> 'b \<Rightarrow> 'b \<Rightarrow> client_connector \<Rightarrow> 'n \<Rightarrow> 'n client_answer" where
  "client_fence_off cb os = fence_action_impl cb os FENCE_OFF"

definition client_fence_on ::
  "'b char_buffer_ops \<Rightarrow> 'n client_os \<Rightarrow> 'b \<Rightarrow> 'b \<Rightarrow> client_connector \<Rightarrow> 'n \<Rightarrow> 'n client_answer" where
  "client_fence_on cb os = fence_action_impl cb os FENCE_ON"

definition client_fence_reboot ::
  "'b char_buffer_ops \<Rightarrow> 'n client_os \<Rightarrow> 'b \<Rightarrow> 'b \<Rightarrow> client_connector \<Rightarrow> 'n \<Rightarrow> 'n client_answer" where
  "client_fence_reboot cb os = fence_action_impl cb os FENCE_REBOOT"

section \<open>Runs of the loops that return\<close>

text \<open>
  What every run of a loop that returns has: it holds where the loop stops, and each round
  carries it from the rest of the run to the whole of it.
\<close>

lemma send_loop_rule [consumes 1, case_names stop sent failed]:
  assumes ret: "client_send_loop os c off k n = Some r"
    and stop: "\<And>c off k n. \<not> off < k \<Longrightarrow> Q c off k n (off, c, n)"
    and sent: "\<And>c off k n m n' r. off < k \<Longrightarrow>
      net_send os (cc_socket c) (segment off k (cc_io_buffer c)) n = (Sent m, n') \<Longrightarrow>
      Q c (off + m) k n' r \<Longrightarrow> Q c off k n r"
    and failed: "\<And>c off k n n' r. off < k \<Longrightarrow> Q (disconnect_from_server c) off k n' r \<Longrightarrow> Q c off k n r"
  shows "Q c off k n r"
proof -
  let ?P = "\<lambda>os' c off k n r. os' = os \<longrightarrow> Q c off k n r"
  have "?P os c off k n r"
  proof (rule client_send_loop.raw_induct [OF _ ret, where P = ?P], rule impI)
    fix loop os' c off k n and r :: "nat \<times> client_connector \<times> 'a"
    assume IH: "\<And>os' c off k n r. loop os' c off k n = Some r \<Longrightarrow> ?P os' c off k n r" and os: "os' = os"
      and body: "(if off < k then
        (case net_send os' (cc_socket c) (segment off k (cc_io_buffer c)) n of
           (r, n) \<Rightarrow>
             (case r of
                Sent write_size \<Rightarrow> loop os' c (off + write_size) k n
              | SendWouldBlock \<Rightarrow> loop os' (disconnect_from_server c) off k n
              | SendFailed \<Rightarrow> loop os' (disconnect_from_server c) off k n))
      else Some (off, c, n)) = Some r"
    have IH: "loop os c off k n = Some r \<Longrightarrow> Q c off k n r" for c off k n r using IH by blast
    show "Q c off k n r"
      using body stop [of off k c n] unfolding os
      by (auto split: if_splits prod.splits send_result.splits dest!: IH intro: sent failed)
  qed
  then show ?thesis by simp
qed

lemma recv_loop_rule [consumes 1, case_names stop chunk header ended failed]:
  assumes ret: "client_recv_loop os c h off k n = Some r"
    and stop: "\<And>c h off k n. \<not> off < k \<Longrightarrow> Q c h off k n (h, off, c, n)"
    and chunk: "\<And>c h off k n data n' r. off < k \<Longrightarrow>
      net_recv os (cc_socket c) (k - off) n = (Received data, n') \<Longrightarrow>
      h \<or> off + length data < HEADER_SIZE \<Longrightarrow>
      Q (c\<lparr>cc_io_buffer := blit (cc_io_buffer c) off data\<rparr>) h (off + length data) k n' r \<Longrightarrow> Q c h off k n r"
    and header: "\<And>c h off k n data n' r. off < k \<Longrightarrow>
      net_recv os (cc_socket c) (k - off) n = (Received data, n') \<Longrightarrow>
      \<not> h \<Longrightarrow> HEADER_SIZE \<le> off + length data \<Longrightarrow>
      (let c = c\<lparr>cc_io_buffer := blit (cc_io_buffer c) off data\<rparr>;
           hd = deserialize (cc_header c) (cc_io_buffer c)
       in Q (c\<lparr>cc_header := hd\<rparr>) True (off + length data)
            (min (unat (data_length hd)) CLIENT_IO_BUFFER_SIZE) n' r) \<Longrightarrow> Q c h off k n r"
    and ended: "\<And>c h off k n n' r. off < k \<Longrightarrow>
      net_recv os (cc_socket c) (k - off) n = (EndOfStream, n') \<Longrightarrow> Q c h off k n' r \<Longrightarrow> Q c h off k n r"
    and failed: "\<And>c h off k n n' r. off < k \<Longrightarrow>
      net_recv os (cc_socket c) (k - off) n = (RecvFailed, n') \<Longrightarrow>
      Q (disconnect_from_server c) h off k n' r \<Longrightarrow> Q c h off k n r"
  shows "Q c h off k n r"
proof -
  let ?P = "\<lambda>os' c h off k n r. os' = os \<longrightarrow> Q c h off k n r"
  have "?P os c h off k n r"
  proof (rule client_recv_loop.raw_induct [OF _ ret, where P = ?P], rule impI)
    fix loop os' c h off k n and r :: "bool \<times> nat \<times> client_connector \<times> 'a"
    assume IH: "\<And>os' c h off k n r. loop os' c h off k n = Some r \<Longrightarrow> ?P os' c h off k n r" and os: "os' = os"
      and body: "(if off < k then (case net_recv os' (cc_socket c) (k - off) n of (r, n) \<Rightarrow>
             (case r of
                Received data \<Rightarrow>
                  (let c = c\<lparr>cc_io_buffer := blit (cc_io_buffer c) off data\<rparr>;
                       off = off + length data
                   in if \<not> h \<and> off \<ge> HEADER_SIZE then
                        (let hd = deserialize (cc_header c) (cc_io_buffer c)
                         in loop os' (c\<lparr>cc_header := hd\<rparr>) True off
                              (min (unat (data_length hd)) CLIENT_IO_BUFFER_SIZE) n)
                      else loop os' c h off k n)
              | EndOfStream \<Rightarrow> loop os' c h off k n
              | RecvFailed \<Rightarrow> loop os' (disconnect_from_server c) h off k n))
          else Some (h, off, c, n)) = Some r"
    have IH: "loop os c h off k n = Some r \<Longrightarrow> Q c h off k n r" for c h off k n r using IH by blast
    obtain s n' where call: "net_recv os (cc_socket c) (k - off) n = (s, n')" by fastforce
    show "Q c h off k n r"
    proof (cases "off < k")
      case False
      with body stop [of off k c h n] show ?thesis by simp
    next
      case True
      show ?thesis
      proof (cases s)
        case (Received data)
        with True body call os show ?thesis
          by (cases "\<not> h \<and> HEADER_SIZE \<le> off + length data")
            (auto simp: Let_def not_le dest!: IH intro: chunk header [unfolded Let_def])
      qed (use True body call os in \<open>auto dest!: IH intro: ended failed\<close>)
    qed
  qed
  then show ?thesis by simp
qed

section \<open>A stream socket\<close>

text \<open>
  What a connected blocking socket does: \<open>outgoing\<close> is what has been handed to \<open>send\<close>,
  \<open>incoming\<close> what the peer sends from now on until it closes the connection, and \<open>received\<close>
  counts the bytes \<open>recv\<close> has delivered. \<open>recv\<close> delivers some of \<open>incoming\<close>, and the end of the stream when there is no more; \<open>send\<close> takes some of the bytes.
\<close>

locale stream_socket =
  fixes os :: "'n client_os"
    and incoming :: "'n \<Rightarrow> bytes"
    and outgoing :: "'n \<Rightarrow> bytes"
    and received :: "'n \<Rightarrow> nat"
  assumes recv_data: "0 \<le> fd \<Longrightarrow> 0 < k \<Longrightarrow> incoming n \<noteq> [] \<Longrightarrow>
        \<exists>m n'. net_recv os fd k n = (Received (take m (incoming n)), n') \<and> 0 < m \<and> m \<le> k \<and>
          m \<le> length (incoming n) \<and> incoming n' = drop m (incoming n) \<and> outgoing n' = outgoing n \<and>
          received n' = received n + m"
    and recv_end: "0 \<le> fd \<Longrightarrow> 0 < k \<Longrightarrow> incoming n = [] \<Longrightarrow>
        \<exists>n'. net_recv os fd k n = (EndOfStream, n') \<and> incoming n' = [] \<and> outgoing n' = outgoing n \<and>
          received n' = received n"
    and send_data: "0 \<le> fd \<Longrightarrow> b \<noteq> [] \<Longrightarrow>
        \<exists>m n'. net_send os fd b n = (Sent m, n') \<and> 0 < m \<and> m \<le> length b \<and>
          outgoing n' = outgoing n @ take m b \<and> received n' = received n"
begin

lemma send_loop_all:
  assumes "0 \<le> cc_socket c" and "off \<le> k" and "k \<le> length (cc_io_buffer c)"
  shows "\<exists>n'. client_send_loop os c off k n = Some (k, c, n') \<and>
           outgoing n' = outgoing n @ segment off k (cc_io_buffer c) \<and> received n' = received n"
  using assms
proof (induction "k - off" arbitrary: off n rule: less_induct)
  case less
  show ?case
  proof (cases "off < k")
    case False
    with less.prems show ?thesis
      by (subst client_send_loop.simps) (simp add: segment_def)
  next
    case True
    let ?b = "segment off k (cc_io_buffer c)"
    have b: "?b \<noteq> []" "length ?b = k - off" using True less.prems(3) by (auto simp: segment_def)
    from send_data [OF less.prems(1) b(1), of n] obtain m n1
      where s: "net_send os (cc_socket c) ?b n = (Sent m, n1)" "0 < m" "m \<le> k - off"
        "outgoing n1 = outgoing n @ take m ?b" "received n1 = received n" using b(2) by auto
    have "k - (off + m) < k - off" "off + m \<le> k" using s(2,3) True by simp_all
    with less.hyps [of "off + m" n1] less.prems s obtain n'
      where n': "client_send_loop os c (off + m) k n1 = Some (k, c, n')"
        "outgoing n' = outgoing n1 @ segment (off + m) k (cc_io_buffer c)" "received n' = received n" by auto
    have "client_send_loop os c off k n = client_send_loop os c (off + m) k n1"
      using True s(1) by (subst client_send_loop.simps) simp
    with n' s(4,5) segment_split [of off k "cc_io_buffer c" m] show ?thesis by auto
  qed
qed

text \<open>At the end of the stream the loop of \<open>receive_message\<close> goes round for ever.\<close>

lemma recv_loop_eof:
  assumes "0 \<le> cc_socket c" and "off < k" and "incoming n = []"
  shows "client_recv_loop os c h off k n = None"
proof -
  have "\<not> (0 \<le> cc_socket c \<and> off < k \<and> incoming n = [])" if "client_recv_loop os c h off k n = Some r" for r
    using that
  proof (induction rule: recv_loop_rule)
    case (stop c h off k n) then show ?case by simp
  next
    case (chunk c h off k n data n' r) then show ?case using recv_end [of "cc_socket c" "k - off" n] by auto
  next
    case (header c h off k n data n' r) then show ?case using recv_end [of "cc_socket c" "k - off" n] by auto
  next
    case (ended c h off k n n' r) then show ?case using recv_end [of "cc_socket c" "k - off" n] by auto
  next
    case (failed c h off k n n' r) then show ?case using recv_end [of "cc_socket c" "k - off" n] by auto
  qed
  with assms show ?thesis by (cases "client_recv_loop os c h off k n") blast+
qed

text \<open>The rest of a message once the header is known.\<close>

lemma recv_loop_rest:
  assumes "0 \<le> cc_socket c" and "off \<le> k" and "k \<le> length (cc_io_buffer c)"
  shows "if k - off \<le> length (incoming n)
    then \<exists>n'. client_recv_loop os c True off k n =
        Some (True, k, c\<lparr>cc_io_buffer := blit (cc_io_buffer c) off (take (k - off) (incoming n))\<rparr>, n') \<and>
      incoming n' = drop (k - off) (incoming n) \<and> outgoing n' = outgoing n
    else client_recv_loop os c True off k n = None"
  using assms
proof (induction "k - off" arbitrary: off n c rule: less_induct)
  case less
  consider (whole) "off = k" | (eof) "off < k" "incoming n = []" | (more) "off < k" "incoming n \<noteq> []"
    using less.prems(2) by fastforce
  then show ?case
  proof cases
    case whole
    then show ?thesis by (subst client_recv_loop.simps) simp
  next
    case eof
    with recv_loop_eof [OF less.prems(1) eof, of True] show ?thesis by simp
  next
    case more
    let ?in = "incoming n"
    from recv_data [OF less.prems(1) _ more(2), of "k - off"] more(1) obtain m n1
      where r: "net_recv os (cc_socket c) (k - off) n = (Received (take m ?in), n1)" "0 < m"
        "m \<le> k - off" "m \<le> length ?in" "incoming n1 = drop m ?in" "outgoing n1 = outgoing n" by auto
    let ?c = "c\<lparr>cc_io_buffer := blit (cc_io_buffer c) off (take m ?in)\<rparr>"
    have fit: "off + m + (k - (off + m)) \<le> length (cc_io_buffer c)" using r less.prems by simp
    have step: "client_recv_loop os c True off k n = client_recv_loop os ?c True (off + m) k n1"
      using more(1) r(1,4) by (subst client_recv_loop.simps) (simp add: Let_def min_def)
    have len: "length (cc_io_buffer ?c) = length (cc_io_buffer c)"
      using r(3,4) less.prems by (simp add: min_def)
    have IH: "if k - (off + m) \<le> length (incoming n1)
      then \<exists>n'. client_recv_loop os ?c True (off + m) k n1 =
          Some (True, k, ?c\<lparr>cc_io_buffer := blit (cc_io_buffer ?c) (off + m)
            (take (k - (off + m)) (incoming n1))\<rparr>, n') \<and>
        incoming n' = drop (k - (off + m)) (incoming n1) \<and> outgoing n' = outgoing n1
      else client_recv_loop os ?c True (off + m) k n1 = None"
      using r(2,3) less.prems len by (intro less.hyps) auto
    show ?thesis
    proof (cases "k - off \<le> length ?in")
      case False
      then have "\<not> k - (off + m) \<le> length (incoming n1)" using r by simp
      with IH False step show ?thesis by simp
    next
      case True
      then have t: "k - (off + m) \<le> length (incoming n1)" using r by simp
      have split: "take (k - off) ?in = take m ?in @ take (k - (off + m)) (drop m ?in)"
        using r(3) by (metis diff_diff_left le_add_diff_inverse take_add)
      have "blit (blit (cc_io_buffer c) off (take m ?in)) (off + m) (take (k - (off + m)) (drop m ?in)) =
          blit (cc_io_buffer c) off (take (k - off) ?in)"
        using blit_blit [of off "take m ?in" "take (k - (off + m)) (drop m ?in)" "cc_io_buffer c"]
          r(3,4) less.prems(2,3) True by (simp add: split min_absorb2)
      moreover have "drop (k - (off + m)) (drop m ?in) = drop (k - off) ?in"
        using r(3) by (simp add: le_diff_conv2 less.prems(2) add.commute)
      ultimately show ?thesis using IH t True r(5,6) step by auto
    qed
  qed
qed

end

context stream_socket
begin

text \<open>The header: four bytes, in as many pieces as they come.\<close>

lemma recv_loop_header:
  assumes "0 \<le> cc_socket c" and "off < HEADER_SIZE" and "HEADER_SIZE \<le> length (cc_io_buffer c)"
    and "buf = blit (cc_io_buffer c) off (take (HEADER_SIZE - off) (incoming n))"
    and "hd1 = deserialize (cc_header c) buf"
  shows "if HEADER_SIZE - off \<le> length (incoming n)
    then \<exists>n'. client_recv_loop os c False off HEADER_SIZE n =
        client_recv_loop os (c\<lparr>cc_io_buffer := buf, cc_header := hd1\<rparr>) True HEADER_SIZE
          (min (unat (data_length hd1)) CLIENT_IO_BUFFER_SIZE) n' \<and>
      incoming n' = drop (HEADER_SIZE - off) (incoming n) \<and> outgoing n' = outgoing n
    else client_recv_loop os c False off HEADER_SIZE n = None"
  using assms
proof (induction "HEADER_SIZE - off" arbitrary: off n c rule: less_induct)
  case less
  show ?case
  proof (cases "incoming n = []")
    case True
    with recv_loop_eof [OF less.prems(1,2), of n False] less.prems(2) show ?thesis by simp
  next
    case False
    let ?in = "incoming n" and ?k = "HEADER_SIZE - off"
    from recv_data [OF less.prems(1) _ False, of ?k] less.prems(2) obtain m n1
      where r: "net_recv os (cc_socket c) ?k n = (Received (take m ?in), n1)" "0 < m"
        "m \<le> ?k" "m \<le> length ?in" "incoming n1 = drop m ?in" "outgoing n1 = outgoing n" by auto
    let ?c = "c\<lparr>cc_io_buffer := blit (cc_io_buffer c) off (take m ?in)\<rparr>"
    show ?thesis
    proof (cases "m = ?k")
      case True
      with r less.prems show ?thesis
        by (subst client_recv_loop.simps) (auto simp: Let_def min_absorb2)
    next
      case part: False
      then have lt: "off + m < HEADER_SIZE" using r(3) less.prems(2) by simp
      have step: "client_recv_loop os c False off HEADER_SIZE n =
          client_recv_loop os ?c False (off + m) HEADER_SIZE n1"
        using less.prems(2) lt r(1,4) by (subst client_recv_loop.simps) (simp add: Let_def min_absorb2)
      have split: "take ?k ?in = take m ?in @ take (HEADER_SIZE - (off + m)) (drop m ?in)"
        using r(3) by (metis diff_diff_left le_add_diff_inverse take_add)
      have buf: "buf = blit (cc_io_buffer ?c) (off + m) (take (HEADER_SIZE - (off + m)) (incoming n1))"
        using blit_blit [of off "take m ?in" "take (HEADER_SIZE - (off + m)) (drop m ?in)" "cc_io_buffer c"]
          r(4,5) lt less.prems(3,4) by (simp add: split min_absorb2)
      have IH: "if HEADER_SIZE - (off + m) \<le> length (incoming n1)
        then \<exists>n'. client_recv_loop os ?c False (off + m) HEADER_SIZE n1 =
            client_recv_loop os (?c\<lparr>cc_io_buffer := buf, cc_header := hd1\<rparr>) True HEADER_SIZE
              (min (unat (data_length hd1)) CLIENT_IO_BUFFER_SIZE) n' \<and>
          incoming n' = drop (HEADER_SIZE - (off + m)) (incoming n1) \<and> outgoing n' = outgoing n1
        else client_recv_loop os ?c False (off + m) HEADER_SIZE n1 = None"
        using r(2,4) lt less.prems buf by (intro less.hyps) (auto simp: min_absorb2)
      have "drop (HEADER_SIZE - (off + m)) (drop m ?in) = drop ?k ?in" using lt by (simp add: add.commute)
      with IH step r(5,6) lt show ?thesis by (auto split: if_splits)
    qed
  qed
qed

lemma recv_loop_done: "\<not> off < k \<Longrightarrow> client_recv_loop os c h off k n = Some (h, off, c, n)"
  by (subst client_recv_loop.simps) simp

lemma recv_after_header:
  assumes fd: "0 \<le> cc_socket c" and len: "length (cc_io_buffer c) = CLIENT_IO_BUFFER_SIZE"
    and tk: "take HEADER_SIZE (cc_io_buffer c) = take HEADER_SIZE bs"
    and bs: "incoming n = drop HEADER_SIZE bs" "HEADER_SIZE \<le> length bs" and k: "k \<le> CLIENT_IO_BUFFER_SIZE"
    and F: "F = max HEADER_SIZE k"
  shows "if F \<le> length bs
    then \<exists>buf n'. client_recv_loop os c True HEADER_SIZE k n = Some (True, F, c\<lparr>cc_io_buffer := buf\<rparr>, n') \<and>
      take F buf = take F bs \<and> length buf = CLIENT_IO_BUFFER_SIZE \<and>
      incoming n' = drop F bs \<and> outgoing n' = outgoing n
    else client_recv_loop os c True HEADER_SIZE k n = None"
proof (cases "HEADER_SIZE \<le> k")
  case False
  then have "client_recv_loop os c True HEADER_SIZE k n = Some (True, HEADER_SIZE, c, n)"
    by (intro recv_loop_done) simp
  with False tk bs len F show ?thesis by (auto intro!: exI [of _ "cc_io_buffer c"] exI [of _ n])
next
  case True
  then have Fk: "F = k" using F by simp
  let ?data = "take (k - HEADER_SIZE) (drop HEADER_SIZE bs)"
  let ?buf = "blit (cc_io_buffer c) HEADER_SIZE ?data"
  have rest: "if k - HEADER_SIZE \<le> length (incoming n)
    then \<exists>n'. client_recv_loop os c True HEADER_SIZE k n = Some (True, k, c\<lparr>cc_io_buffer := ?buf\<rparr>, n') \<and>
      incoming n' = drop (k - HEADER_SIZE) (incoming n) \<and> outgoing n' = outgoing n
    else client_recv_loop os c True HEADER_SIZE k n = None"
    unfolding bs(1) [symmetric] using recv_loop_rest [of c HEADER_SIZE k n] fd True len k by simp
  show ?thesis
  proof (cases "k \<le> length bs")
    case False
    with rest bs Fk True show ?thesis by (auto split: if_splits)
  next
    case all: True
    then have dl: "length ?data = k - HEADER_SIZE" using bs(2) by simp
    have "take k ?buf = take HEADER_SIZE bs @ ?data"
      using take_blit [of HEADER_SIZE "cc_io_buffer c" ?data] tk len True dl by (simp add: bounds_simps)
    also have "\<dots> = take k bs" using True by (metis le_add_diff_inverse take_add)
    finally have "take k ?buf = take k bs" .
    moreover have "length ?buf = CLIENT_IO_BUFFER_SIZE" using len True k dl by simp
    moreover have "k - HEADER_SIZE \<le> length (incoming n)" using all bs by simp
    with rest obtain n' where
      "client_recv_loop os c True HEADER_SIZE k n = Some (True, k, c\<lparr>cc_io_buffer := ?buf\<rparr>, n')"
      "incoming n' = drop (k - HEADER_SIZE) (drop HEADER_SIZE bs)" "outgoing n' = outgoing n"
      using bs(1) by auto
    moreover have "drop (k - HEADER_SIZE) (drop HEADER_SIZE bs) = drop k bs" using True by simp
    ultimately show ?thesis using Fk all by auto
  qed
qed

lemma receive_message_frame:
  assumes fd: "0 \<le> cc_socket c" and len: "length (cc_io_buffer c) = CLIENT_IO_BUFFER_SIZE"
    and F_def: "F = frame_length (incoming n)"
    and hd1_def: "hd1 = deserialize (clear_header (cc_header c)) (incoming n)"
  shows "if F \<le> length (incoming n)
    then \<exists>c' n'. client_receive_message os c n =
        Some (if CLIENT_IO_BUFFER_SIZE < unat (data_length hd1)
              then Raised (OsException IO_ERROR) (c', n') else Normal (c', n')) \<and>
      cc_header c' = hd1 \<and> cc_socket c' = cc_socket c \<and> take F (cc_io_buffer c') = take F (incoming n) \<and>
      length (cc_io_buffer c') = CLIENT_IO_BUFFER_SIZE \<and>
      incoming n' = drop F (incoming n) \<and> outgoing n' = outgoing n
    else client_receive_message os c n = None"
proof -
  let ?c0 = "clear_client_buffer (c\<lparr>cc_header := clear_header (cc_header c)\<rparr>)"
  let ?in = "incoming n" and ?k = "min (unat (data_length hd1)) CLIENT_IO_BUFFER_SIZE"
  define buf where "buf = blit (cc_io_buffer ?c0) 0 (take HEADER_SIZE ?in)"
  have c0: "cc_socket ?c0 = cc_socket c" "cc_header ?c0 = clear_header (cc_header c)"
    "length (cc_io_buffer ?c0) = CLIENT_IO_BUFFER_SIZE"
    using len by (simp_all add: clear_client_buffer_def)
  have F: "F = max HEADER_SIZE ?k"
    by (simp add: F_def frame_length_def hd1_def deserialize_def bounds_simps)
  note header = recv_loop_header [of ?c0 0 "blit (cc_io_buffer ?c0) 0 (take (HEADER_SIZE - 0) ?in)" n
      "deserialize (cc_header ?c0) (blit (cc_io_buffer ?c0) 0 (take (HEADER_SIZE - 0) ?in))"]
  show ?thesis
  proof (cases "HEADER_SIZE \<le> length ?in")
    case False
    have "client_recv_loop os ?c0 False 0 HEADER_SIZE n = None"
      using header False c0 fd by (simp add: bounds_simps)
    moreover have "\<not> F \<le> length ?in" using False F by simp
    ultimately show ?thesis by (simp add: client_receive_message_def Let_def)
  next
    case True
    have tk: "take HEADER_SIZE buf = take HEADER_SIZE ?in"
      using take_blit [of 0 "cc_io_buffer ?c0" "take HEADER_SIZE ?in"] True
      by (simp add: buf_def min_absorb2)
    have hd1: "deserialize (cc_header ?c0) buf = hd1"
      unfolding hd1_def c0(2) by (rule deserialize_take [OF tk])
    have blen: "length buf = CLIENT_IO_BUFFER_SIZE"
      using c0(3) True by (simp add: buf_def bounds_simps)
    let ?c1 = "?c0\<lparr>cc_io_buffer := buf, cc_header := hd1\<rparr>"
    from header True c0 fd hd1 obtain n1 where loop:
      "client_recv_loop os ?c0 False 0 HEADER_SIZE n = client_recv_loop os ?c1 True HEADER_SIZE ?k n1"
      "incoming n1 = drop HEADER_SIZE ?in" "outgoing n1 = outgoing n"
      by (auto simp: buf_def bounds_simps)
    have "cc_io_buffer ?c1 = buf" "cc_socket ?c1 = cc_socket c" using c0 by simp_all
    with recv_after_header [of ?c1 ?in n1 ?k F] fd blen tk loop(2) True F
    have "if F \<le> length ?in
      then \<exists>b n'. client_recv_loop os ?c1 True HEADER_SIZE ?k n1 = Some (True, F, ?c1\<lparr>cc_io_buffer := b\<rparr>, n') \<and>
        take F b = take F ?in \<and> length b = CLIENT_IO_BUFFER_SIZE \<and>
        incoming n' = drop F ?in \<and> outgoing n' = outgoing n1
      else client_recv_loop os ?c1 True HEADER_SIZE ?k n1 = None" by simp
    note body = this [folded loop(1)]
    show ?thesis
    proof (cases "F \<le> length ?in")
      case True
      with body obtain b n' where
        "client_recv_loop os ?c0 False 0 HEADER_SIZE n = Some (True, F, ?c1\<lparr>cc_io_buffer := b\<rparr>, n')"
        "take F b = take F ?in" "length b = CLIENT_IO_BUFFER_SIZE" "incoming n' = drop F ?in" "outgoing n' = outgoing n"
        using loop(3) by auto
      moreover have "F < unat (data_length hd1) \<longleftrightarrow> CLIENT_IO_BUFFER_SIZE < unat (data_length hd1)"
        using F by (auto simp: bounds_simps)
      ultimately show ?thesis using True c0 by (auto simp: client_receive_message_def Let_def)
    next
      case False
      with body show ?thesis by (simp add: client_receive_message_def Let_def)
    qed
  qed
qed

lemma send_message_all:
  assumes fd: "0 \<le> cc_socket c" and len: "length (cc_io_buffer c) = CLIENT_IO_BUFFER_SIZE"
    and dl: "HEADER_SIZE \<le> unat (data_length (cc_header c))"
      "unat (data_length (cc_header c)) \<le> CLIENT_IO_BUFFER_SIZE"
  shows "\<exists>n'. client_send_message os c n =
      Some (Normal (c\<lparr>cc_io_buffer := serialize (cc_header c) (cc_io_buffer c)\<rparr>, n')) \<and>
    outgoing n' = outgoing n @ take (unat (data_length (cc_header c))) (serialize (cc_header c) (cc_io_buffer c)) \<and>
    received n' = received n"
proof -
  let ?c = "c\<lparr>cc_io_buffer := serialize (cc_header c) (cc_io_buffer c)\<rparr>"
  let ?k = "unat (data_length (cc_header c))"
  from send_loop_all [of ?c 0 ?k n] fd len dl obtain n'
    where "client_send_loop os ?c 0 ?k n = Some (?k, ?c, n')"
      "outgoing n' = outgoing n @ take ?k (serialize (cc_header c) (cc_io_buffer c))" "received n' = received n"
    by (auto simp: segment_0)
  moreover have "min (max HEADER_SIZE ?k) CLIENT_IO_BUFFER_SIZE = ?k" using dl by simp
  ultimately show ?thesis by (simp add: client_send_message_def Let_def)
qed

end

section \<open>One request and its reply\<close>

text \<open>The bytes of a request: the header with the type and the length, and the fields.\<close>

definition request_bytes :: "MsgType \<Rightarrow> request_field list \<Rightarrow> bytes" where
  "request_bytes m kvs =
     serialize \<lparr>msg_type = msg_type_code m, data_length = of_nat (HEADER_SIZE + length (encode_request kvs))\<rparr>
       (replicate HEADER_SIZE 0 @ encode_request kvs)"

definition fence_params :: "bytes \<Rightarrow> bytes \<Rightarrow> request_field list" where
  "fence_params node_name client_secret = [(NODENAME, node_name), (SECRET, client_secret)]"

lemma serialize_header:
  assumes "HEADER_SIZE \<le> length buf" and "HEADER_SIZE \<le> length buf'"
  shows "take HEADER_SIZE (serialize h buf) = take HEADER_SIZE (serialize h buf')"
proof (rule nth_equalityI)
  fix i assume "i < length (take HEADER_SIZE (serialize h buf))"
  then have "i < 4" using assms by (simp add: bounds_simps)
  then consider "i = 0" | "i = 1" | "i = 2" | "i = 3" by linarith
  moreover have "0 < length buf" "0 < length buf'" "1 < length buf" "1 < length buf'"
    "2 < length buf" "2 < length buf'" "3 < length buf" "3 < length buf'"
    using assms by (auto simp: bounds_simps)
  ultimately show "take HEADER_SIZE (serialize h buf) ! i = take HEADER_SIZE (serialize h buf') ! i"
    by cases (simp_all add: serialize_def field_value_to_bytes_def HEADER_SIZE_def MSG_TYPE_OFFSET_def
        DATA_LENGTH_OFFSET_def Let_def nth_list_update)
qed (use assms in simp)

lemma take_serialize_body:
  assumes "take (HEADER_SIZE + k) buf = take HEADER_SIZE buf @ body" and "length body = k"
    and "HEADER_SIZE \<le> length buf"
  shows "take (HEADER_SIZE + k) (serialize h buf) = serialize h (replicate HEADER_SIZE 0 @ body)"
proof -
  have "take (HEADER_SIZE + k) (serialize h buf) =
      take HEADER_SIZE (serialize h buf) @ take k (drop HEADER_SIZE (serialize h buf))"
    by (simp add: take_add)
  also have "take k (drop HEADER_SIZE (serialize h buf)) = body"
    using assms by (simp add: drop_serialize take_add)
  also have "take HEADER_SIZE (serialize h buf) = take HEADER_SIZE (serialize h (replicate HEADER_SIZE 0 @ body))"
    using assms(3) by (intro serialize_header) simp_all
  finally show ?thesis
    using append_take_drop_id [of HEADER_SIZE "serialize h (replicate HEADER_SIZE 0 @ body)"]
    by (simp add: drop_serialize)
qed

lemma c_string_c_string [simp]: "c_string (c_string t) = c_string t"
  by (rule c_string_id) (rule c_string_no_nul)

context char_buffer
begin

lemma request_param_eq:
  "request_param cb key val = field_text (key, c_string (cb_c_str cb val))"
proof -
  have "c_string (cb_c_str cb (KEY_VALUE_SPLIT_SEQ cb)) = ascii ''=''"
    by (simp add: KEY_VALUE_SPLIT_SEQ_def of_c_str_str) (simp add: c_string_def ascii_def)
  then show ?thesis by (simp add: request_param_def field_text_def)
qed

end


text \<open>The limits the parameters' buffers set.\<close>

definition params_fit :: "'b char_buffer_ops \<Rightarrow> 'b \<Rightarrow> 'b \<Rightarrow> bool" where
  "params_fit cb node_name client_secret \<longleftrightarrow>
     length (c_string (cb_c_str cb node_name)) \<le> NODENAME_SIZE \<and>
     length (c_string (cb_c_str cb client_secret)) \<le> MAX_SECRET_LENGTH"

text \<open>How the reply decides the answer.\<close>

definition fence_answer :: "msg_header \<Rightarrow> client_connector \<Rightarrow> 'n \<Rightarrow>
    (cpp_exception, bool \<times> client_connector \<times> 'n) outcome" where
  "fence_answer h c n =
     (if CLIENT_IO_BUFFER_SIZE < unat (data_length h) then Raised (OsException IO_ERROR) (False, c, n)
      else if is_msg_type h FENCE_SUCCESS then Normal (True, c, n)
      else if is_msg_type h FENCE_FAIL then Normal (False, c, n)
      else Raised ProtocolException (False, c, n))"

lemma deserialize_any: "deserialize h buf = deserialize h' buf"
  by (simp add: deserialize_def)

locale fence_client = char_buffer cb cap + stream_socket os incoming outgoing received
  for cb :: "'b char_buffer_ops" and cap :: "'b \<Rightarrow> nat"
    and os :: "'n client_os" and incoming :: "'n \<Rightarrow> bytes" and outgoing :: "'n \<Rightarrow> bytes"
    and received :: "'n \<Rightarrow> nat"
begin

text \<open>The two fields of a request, one after the other behind the header.\<close>

lemma request_fields_written:
  assumes len: "length buf = CLIENT_IO_BUFFER_SIZE" and fit: "params_fit cb node_name client_secret"
    and kvs: "kvs = fence_params (c_string (cb_c_str cb node_name)) (c_string (cb_c_str cb client_secret))"
    and K: "K = HEADER_SIZE + length (encode_request kvs)"
    and buf2: "buf2 = blit buf HEADER_SIZE (encode_request kvs)"
  shows "K \<le> CLIENT_IO_BUFFER_SIZE \<and> length buf2 = CLIENT_IO_BUFFER_SIZE \<and>
    take K buf2 = take HEADER_SIZE buf2 @ encode_request kvs \<and>
    (\<exists>buf1 o1. write_field_string buf CLIENT_IO_BUFFER_SIZE HEADER_SIZE (request_param cb NODENAME node_name) = Inr (buf1, o1) \<and>
       write_field_string buf1 CLIENT_IO_BUFFER_SIZE o1 (request_param cb SECRET client_secret) = Inr (buf2, K))"
proof -
  let ?t1 = "request_param cb NODENAME node_name" and ?t2 = "request_param cb SECRET client_secret"
  let ?e1 = "encode_field ?t1" and ?e2 = "encode_field ?t2"
  have req: "encode_request kvs = ?e1 @ ?e2" by (simp add: kvs fence_params_def request_param_eq)
  have l: "length ?t1 \<le> 264" "length ?t2 \<le> 71"
    using fit by (simp_all add: request_param_eq field_text_def params_fit_def bounds_simps
        NODENAME_def SECRET_def)
  let ?b1 = "blit buf HEADER_SIZE ?e1" and ?o1 = "HEADER_SIZE + (length ?t1 + 2)"
  have w1: "write_field_string buf CLIENT_IO_BUFFER_SIZE HEADER_SIZE ?t1 = Inr (?b1, ?o1)"
    using l len by (subst string_codec.write_eq) (simp_all add: bounds_simps)
  have total: "?o1 + (length ?t2 + 2) = K" by (simp add: K req)
  have b2: "blit ?b1 ?o1 ?e2 = buf2"
    using blit_blit [of HEADER_SIZE ?e1 ?e2 buf] l len by (simp add: buf2 req bounds_simps)
  have "write_field_string ?b1 CLIENT_IO_BUFFER_SIZE ?o1 ?t2 = Inr (blit ?b1 ?o1 ?e2, ?o1 + (length ?t2 + 2))"
    using l len by (subst string_codec.write_eq) (simp_all add: bounds_simps)
  then have w2: "write_field_string ?b1 CLIENT_IO_BUFFER_SIZE ?o1 ?t2 = Inr (buf2, K)" unfolding b2 total .
  have fits: "K \<le> CLIENT_IO_BUFFER_SIZE" using l by (simp add: K req bounds_simps)
  have "take HEADER_SIZE buf2 = take HEADER_SIZE buf"
    using take_blit_before [of HEADER_SIZE HEADER_SIZE buf "?e1 @ ?e2"] len
    by (simp add: buf2 req bounds_simps)
  then have "take K buf2 = take HEADER_SIZE buf2 @ encode_request kvs"
    using take_blit [of HEADER_SIZE buf "?e1 @ ?e2"] len by (simp add: buf2 req K bounds_simps)
  with w1 w2 fits show ?thesis using len by (simp add: buf2 K)
qed

lemma fence_request_written:
  assumes len: "length (cc_io_buffer c) = CLIENT_IO_BUFFER_SIZE"
    and fit: "params_fit cb node_name client_secret"
    and kvs: "kvs = fence_params (c_string (cb_c_str cb node_name)) (c_string (cb_c_str cb client_secret))"
  shows "\<exists>c1. length (cc_io_buffer c1) = CLIENT_IO_BUFFER_SIZE \<and> cc_socket c1 = cc_socket c \<and>
      cc_header c1 = \<lparr>msg_type = msg_type_code m, data_length = of_nat (HEADER_SIZE + length (encode_request kvs))\<rparr> \<and>
      unat (data_length (cc_header c1)) = HEADER_SIZE + length (encode_request kvs) \<and>
      HEADER_SIZE + length (encode_request kvs) \<le> CLIENT_IO_BUFFER_SIZE \<and>
      take (HEADER_SIZE + length (encode_request kvs)) (cc_io_buffer c1) =
        take HEADER_SIZE (cc_io_buffer c1) @ encode_request kvs \<and>
      fence_action_impl cb os m node_name client_secret c n =
        (case exchange os c1 n of
           None \<Rightarrow> None
         | Some (Raised e (c, n)) \<Rightarrow> Some (Raised e (False, c, n))
         | Some Undefined_Behaviour \<Rightarrow> Some Undefined_Behaviour
         | Some (Normal (c, n)) \<Rightarrow>
             Some (if is_msg_type (cc_header c) FENCE_SUCCESS then Normal (True, c, n)
                   else if \<not> is_msg_type (cc_header c) FENCE_FAIL then Raised ProtocolException (False, c, n)
                   else Normal (False, c, n)))"
proof -
  define K where "K = HEADER_SIZE + length (encode_request kvs)"
  define buf2 where "buf2 = blit (cc_io_buffer c) HEADER_SIZE (encode_request kvs)"
  from request_fields_written [OF len fit kvs K_def buf2_def] obtain buf1 o1 where
    fits: "K \<le> CLIENT_IO_BUFFER_SIZE" and b2: "length buf2 = CLIENT_IO_BUFFER_SIZE"
      "take K buf2 = take HEADER_SIZE buf2 @ encode_request kvs"
    and w: "write_field_string (cc_io_buffer c) CLIENT_IO_BUFFER_SIZE HEADER_SIZE
        (request_param cb NODENAME node_name) = Inr (buf1, o1)"
      "write_field_string buf1 CLIENT_IO_BUFFER_SIZE o1 (request_param cb SECRET client_secret) = Inr (buf2, K)"
    by blast
  let ?c1 = "c\<lparr>cc_io_buffer := buf2, cc_header := \<lparr>msg_type = msg_type_code m, data_length = of_nat K\<rparr>\<rparr>"
  have hd1: "(set_msg_type (cc_header c) m)\<lparr>data_length := k\<rparr> =
      \<lparr>msg_type = msg_type_code m, data_length = k\<rparr>" for k
    by (cases "cc_header c") (simp add: set_msg_type_def)
  have impl: "fence_action_impl cb os m node_name client_secret c n =
        (case exchange os ?c1 n of
           None \<Rightarrow> None
         | Some (Raised e (c, n)) \<Rightarrow> Some (Raised e (False, c, n))
         | Some Undefined_Behaviour \<Rightarrow> Some Undefined_Behaviour
         | Some (Normal (c, n)) \<Rightarrow>
             Some (if is_msg_type (cc_header c) FENCE_SUCCESS then Normal (True, c, n)
                   else if \<not> is_msg_type (cc_header c) FENCE_FAIL then Raised ProtocolException (False, c, n)
                   else Normal (False, c, n)))"
  proof -
    have sel: "cc_io_buffer (c\<lparr>cc_header := h\<rparr>) = cc_io_buffer c"
      "cc_io_buffer (c\<lparr>cc_header := h, cc_io_buffer := b\<rparr>) = b"
      "c\<lparr>cc_header := h, cc_io_buffer := b, cc_io_buffer := b', cc_header := h'\<rparr> =
        c\<lparr>cc_io_buffer := b', cc_header := h'\<rparr>"
      "cc_header (c\<lparr>cc_header := h, cc_io_buffer := b\<rparr>) = h" for h h' b b'
      by simp_all
    show ?thesis
      unfolding fence_action_impl_def Let_def
      by (simp only: sel w sum.case prod.case hd1)
  qed
  have "unat (of_nat K :: uint16) = K"
    using fits by (intro unat_uint16) (simp add: CLIENT_IO_BUFFER_SIZE_def)
  with b2 show ?thesis
    unfolding K_def [symmetric] using impl fits by (intro exI [of _ ?c1]) simp
qed

end


context fence_client
begin
lemma fence_exchange:
  assumes fd: "0 \<le> cc_socket c" and len: "length (cc_io_buffer c) = CLIENT_IO_BUFFER_SIZE"
    and fit: "params_fit cb node_name client_secret"
    and kvs: "kvs = fence_params (c_string (cb_c_str cb node_name)) (c_string (cb_c_str cb client_secret))"
  shows "\<exists>n1. outgoing n1 = outgoing n @ request_bytes m kvs \<and> received n1 = received n \<and>
    (if frame_length (incoming n1) \<le> length (incoming n1)
     then \<exists>c' n'. fence_action_impl cb os m node_name client_secret c n =
            Some (fence_answer (deserialize new_msg_header (incoming n1)) c' n') \<and>
          cc_socket c' = cc_socket c \<and> cc_header c' = deserialize new_msg_header (incoming n1) \<and>
          incoming n' = drop (frame_length (incoming n1)) (incoming n1) \<and> outgoing n' = outgoing n1
     else fence_action_impl cb os m node_name client_secret c n = None)"
proof -
  let ?K = "HEADER_SIZE + length (encode_request kvs)"
  from fence_request_written [OF len fit kvs, of m n] obtain c1 where
    c1: "length (cc_io_buffer c1) = CLIENT_IO_BUFFER_SIZE" "cc_socket c1 = cc_socket c"
      "cc_header c1 = \<lparr>msg_type = msg_type_code m, data_length = of_nat ?K\<rparr>"
      "unat (data_length (cc_header c1)) = ?K" "?K \<le> CLIENT_IO_BUFFER_SIZE"
      "take ?K (cc_io_buffer c1) = take HEADER_SIZE (cc_io_buffer c1) @ encode_request kvs"
    and impl: "fence_action_impl cb os m node_name client_secret c n =
        (case exchange os c1 n of
           None \<Rightarrow> None
         | Some (Raised e (c, n)) \<Rightarrow> Some (Raised e (False, c, n))
         | Some Undefined_Behaviour \<Rightarrow> Some Undefined_Behaviour
         | Some (Normal (c, n)) \<Rightarrow>
             Some (if is_msg_type (cc_header c) FENCE_SUCCESS then Normal (True, c, n)
                   else if \<not> is_msg_type (cc_header c) FENCE_FAIL then Raised ProtocolException (False, c, n)
                   else Normal (False, c, n)))" by blast
  let ?c2 = "c1\<lparr>cc_io_buffer := serialize (cc_header c1) (cc_io_buffer c1)\<rparr>"
  have "take ?K (serialize (cc_header c1) (cc_io_buffer c1)) = request_bytes m kvs"
    using take_serialize_body [OF c1(6) refl] c1(1,3) by (simp add: request_bytes_def bounds_simps)
  with send_message_all [of c1 n] c1 fd obtain n1 where
    sent: "client_send_message os c1 n = Some (Normal (?c2, n1))"
      "outgoing n1 = outgoing n @ request_bytes m kvs" "received n1 = received n" by auto
  have c2: "0 \<le> cc_socket ?c2" "length (cc_io_buffer ?c2) = CLIENT_IO_BUFFER_SIZE"
    using c1 fd by simp_all
  have ex: "exchange os c1 n = client_receive_message os ?c2 n1" by (simp add: exchange_def sent(1))
  let ?hd1 = "deserialize new_msg_header (incoming n1)"
  from receive_message_frame [OF c2 refl refl, of n1]
  have "if frame_length (incoming n1) \<le> length (incoming n1)
     then \<exists>c' n'. fence_action_impl cb os m node_name client_secret c n =
            Some (fence_answer ?hd1 c' n') \<and>
          cc_socket c' = cc_socket c \<and> cc_header c' = ?hd1 \<and>
          incoming n' = drop (frame_length (incoming n1)) (incoming n1) \<and> outgoing n' = outgoing n1
     else fence_action_impl cb os m node_name client_secret c n = None"
    unfolding deserialize_any [of "clear_header (cc_header ?c2)" "incoming n1" new_msg_header]
    using c1(2) by (auto simp: impl ex fence_answer_def split: if_splits)
  with sent(2,3) show ?thesis by blast
qed

end

section \<open>After a failure\<close>

text \<open>
  Once \<open>send\<close> or \<open>recv\<close> has failed the socket is closed, its number is \<open>-1\<close>, and every later
  call fails. The loops do not look at that: they never end.
\<close>

definition calls_fail_on_closed :: "'n client_os \<Rightarrow> bool" where
  "calls_fail_on_closed os \<longleftrightarrow>
     (\<forall>b n. fst (net_send os FD_NONE b n) = SendFailed) \<and>
     (\<forall>k n. fst (net_recv os FD_NONE k n) = RecvFailed)"

lemma calls_fail_closed:
  assumes "calls_fail_on_closed os"
  shows "net_send os FD_NONE b n \<noteq> (Sent m, n')" and "net_recv os FD_NONE k n = (s, n') \<Longrightarrow> s = RecvFailed"
  using assms by (metis calls_fail_on_closed_def fst_conv send_result.distinct(3),
      metis calls_fail_on_closed_def fst_conv)

lemma disconnect_closed [simp]:
  "cc_socket c = FD_NONE \<Longrightarrow> disconnect_from_server c = c"
  by (simp add: disconnect_from_server_def close_fd_def FD_NONE_def)

lemma disconnect_open:
  "0 \<le> cc_socket c \<Longrightarrow> cc_socket (disconnect_from_server c) = FD_NONE"
  by (simp add: disconnect_from_server_def close_fd_def)

lemma disconnect_header [simp]: "cc_header (disconnect_from_server c) = cc_header c"
  by (simp add: disconnect_from_server_def split: prod.splits)

lemma disconnect_socket: "FD_NONE \<le> cc_socket c \<Longrightarrow> cc_socket (disconnect_from_server c) = FD_NONE"
  using disconnect_open [of c] disconnect_closed [of c] by (cases "0 \<le> cc_socket c") (simp_all add: FD_NONE_def)

text \<open>So whatever a loop returns, it returns on the socket it started with.\<close>

lemma send_loop_returns:
  assumes closed: "calls_fail_on_closed os"
    and ret: "client_send_loop os c off k n = Some r" and fd: "FD_NONE \<le> cc_socket c"
  shows "(off < k \<longrightarrow> cc_socket c \<noteq> FD_NONE) \<and> k \<le> fst r \<and>
    cc_socket (fst (snd r)) = cc_socket c \<and> cc_header (fst (snd r)) = cc_header c"
  using ret fd
proof (induction rule: send_loop_rule)
  case (sent c off k n m n' r)
  then have "cc_socket c \<noteq> FD_NONE" using calls_fail_closed(1) [OF closed] by fastforce
  with sent show ?case by simp
qed (auto simp: disconnect_socket)

lemma recv_loop_returns:
  assumes closed: "calls_fail_on_closed os"
    and ret: "client_recv_loop os c h off k n = Some r" and fd: "FD_NONE \<le> cc_socket c"
    and inv: "if h then k = min (unat (data_length (cc_header c))) CLIENT_IO_BUFFER_SIZE
              else off < HEADER_SIZE \<and> k = HEADER_SIZE"
  shows "(off < k \<longrightarrow> cc_socket c \<noteq> FD_NONE) \<and> fst r \<and>
    cc_socket (fst (snd (snd r))) = cc_socket c \<and>
    min (unat (data_length (cc_header (fst (snd (snd r)))))) CLIENT_IO_BUFFER_SIZE \<le> fst (snd r)"
  using ret fd inv
proof (induction rule: recv_loop_rule)
  case (chunk c h off k n data n' r)
  then have "cc_socket c \<noteq> FD_NONE" using calls_fail_closed(2) [OF closed] by fastforce
  with chunk show ?case by (auto split: if_splits)
next
  case (header c h off k n data n' r)
  then have "cc_socket c \<noteq> FD_NONE" using calls_fail_closed(2) [OF closed] by fastforce
  with header show ?case by simp
next
  case (ended c h off k n n' r)
  then have "cc_socket c \<noteq> FD_NONE" using calls_fail_closed(2) [OF closed] by fastforce
  with ended show ?case by simp
qed (auto simp: disconnect_socket split: if_splits)

section \<open>A peer behind the socket\<close>

text \<open>
  The reference environment: the peer's bytes are a function of the bytes sent to it, and
  each call transfers a number of bytes that an arbitrary list chooses (one byte when the
  list is used up).
\<close>

record peer_state =
  ps_sent :: bytes
  ps_read :: nat
  ps_chunks :: "nat list"

definition peer_incoming :: "(bytes \<Rightarrow> bytes) \<Rightarrow> peer_state \<Rightarrow> bytes" where
  "peer_incoming peer n = drop (ps_read n) (peer (ps_sent n))"

fun chunk :: "nat list \<Rightarrow> nat" where
  "chunk [] = 1"
| "chunk (m # _) = max 1 m"

definition peer_os :: "(bytes \<Rightarrow> bytes) \<Rightarrow> peer_state client_os" where
  "peer_os peer =
     \<lparr>net_socket = \<lambda>_ n. (3, n), net_bind = \<lambda>_ _ _ n. (0, n), net_connect = \<lambda>_ _ _ n. (Connected, n),
      net_send = \<lambda>fd b n. if fd < 0 then (SendFailed, n)
        else (let m = min (chunk (ps_chunks n)) (length b)
              in (Sent m, n\<lparr>ps_sent := ps_sent n @ take m b, ps_chunks := drop 1 (ps_chunks n)\<rparr>)),
      net_recv = \<lambda>fd k n. if fd < 0 then (RecvFailed, n)
        else if peer_incoming peer n = [] then (EndOfStream, n)
        else (let m = min (chunk (ps_chunks n)) (min k (length (peer_incoming peer n)))
              in (Received (take m (peer_incoming peer n)),
                  n\<lparr>ps_read := ps_read n + m, ps_chunks := drop 1 (ps_chunks n)\<rparr>))\<rparr>"

lemma chunk_pos [simp]: "0 < chunk ms"
  by (cases ms) simp_all

interpretation peer_stream: stream_socket "peer_os peer" "peer_incoming peer" ps_sent ps_read for peer
proof (unfold_locales, goal_cases)
  case (1 fd k n)
  then show ?case
    by (intro exI [of _ "min (chunk (ps_chunks n)) (min k (length (peer_incoming peer n)))"])
      (auto simp: peer_os_def Let_def peer_incoming_def add.commute)
next
  case (3 fd b n)
  then show ?case
    by (intro exI [of _ "min (chunk (ps_chunks n)) (length b)"]) (auto simp: peer_os_def Let_def)
qed (simp add: peer_os_def)

interpretation peer_client: fence_client bounded_ops fst "peer_os peer" "peer_incoming peer" ps_sent ps_read for peer
  by unfold_locales

lemma peer_calls_fail: "calls_fail_on_closed (peer_os peer)"
  by (simp add: calls_fail_on_closed_def peer_os_def FD_NONE_def)

section \<open>Properties\<close>

text \<open>
  Property C12. A fencing request of the client on a connected stream: whatever pieces the
  socket transfers, exactly the request is sent, the header with its length and the two
  parameters, and the reply decides the answer. A complete reply gives true for
  \<open>FENCE_SUCCESS\<close>, false for \<open>FENCE_FAIL\<close>, a \<open>ProtocolException\<close> for every other type and
  an input/output error when its length field exceeds the buffer; when the peer ends the
  stream before the reply is complete, the call does not return.
\<close>

theorem client_fence_exchange:
  assumes cb: "char_buffer cb cap" and sock: "stream_socket os incoming outgoing received"
    and fd: "0 \<le> cc_socket c" and len: "length (cc_io_buffer c) = CLIENT_IO_BUFFER_SIZE"
    and fit: "params_fit cb node_name client_secret"
    and kvs: "kvs = fence_params (c_string (cb_c_str cb node_name)) (c_string (cb_c_str cb client_secret))"
  shows "\<exists>n1. outgoing n1 = outgoing n @ request_bytes m kvs \<and> received n1 = received n \<and>
    (let reply = incoming n1; h = deserialize new_msg_header reply in
     if frame_length reply \<le> length reply
     then \<exists>c' n'. fence_action_impl cb os m node_name client_secret c n = Some (
              if CLIENT_IO_BUFFER_SIZE < unat (data_length h) then Raised (OsException IO_ERROR) (False, c', n')
              else if is_msg_type h FENCE_SUCCESS then Normal (True, c', n')
              else if is_msg_type h FENCE_FAIL then Normal (False, c', n')
              else Raised ProtocolException (False, c', n')) \<and>
            cc_socket c' = cc_socket c \<and> cc_header c' = h \<and>
            incoming n' = drop (frame_length reply) reply \<and> outgoing n' = outgoing n1
     else fence_action_impl cb os m node_name client_secret c n = None)"
  using fence_client.fence_exchange [OF fence_client.intro [OF cb sock] fd len fit kvs, of n m]
  unfolding Let_def fence_answer_def .

definition sample_client_connector :: client_connector where
  "sample_client_connector = \<lparr>cc_io_buffer = replicate CLIENT_IO_BUFFER_SIZE 0, cc_header = new_msg_header,
     cc_address = \<lparr>sa_domain = AF_INET, sa_address = None, sa_length = 0\<rparr>, cc_socket = 3, cc_closed = []\<rparr>"

definition sample_peer :: peer_state where
  "sample_peer = \<lparr>ps_sent = [], ps_read = 0, ps_chunks = [3, 1, 7]\<rparr>"

text \<open>A peer that answers \<open>FENCE_SUCCESS\<close>, and one that closes after the header's first half.\<close>

lemma sample_fits:
  "params_fit bounded_ops (cb_of_c_str bounded_ops (ascii ''n1'')) (cb_of_c_str bounded_ops (ascii ''s''))"
  by (simp add: params_fit_def bounded_ops_def ascii_def c_string_def bounds_simps)

lemma frame_length_ge: "HEADER_SIZE \<le> frame_length stream"
  by (simp add: frame_length_def)

lemma sample_reply:
  "frame_length [0, 0xA0, 0, 4] = 4"
  "is_msg_type (deserialize new_msg_header [0, 0xA0, 0, 4]) FENCE_SUCCESS"
  "unat (data_length (deserialize new_msg_header [0, 0xA0, 0, 4])) = 4"
  by code_simp+

theorem client_fence_exchange_witness:
  "(\<exists>c' n'. fence_action_impl bounded_ops (peer_os (\<lambda>_. [0, 0xA0, 0, 4])) FENCE_OFF
      (cb_of_c_str bounded_ops (ascii ''n1'')) (cb_of_c_str bounded_ops (ascii ''s'')) sample_client_connector sample_peer =
      Some (Normal (True, c', n'))) \<and>
   fence_action_impl bounded_ops (peer_os (\<lambda>_. [0, 0xA0])) FENCE_OFF
      (cb_of_c_str bounded_ops (ascii ''n1'')) (cb_of_c_str bounded_ops (ascii ''s'')) sample_client_connector sample_peer = None"
proof -
  have c: "0 \<le> cc_socket sample_client_connector" "length (cc_io_buffer sample_client_connector) = CLIENT_IO_BUFFER_SIZE"
    by (simp_all add: sample_client_connector_def)
  note run = client_fence_exchange [OF bounded.char_buffer_axioms peer_stream.stream_socket_axioms c sample_fits refl,
      where n = sample_peer and m = FENCE_OFF]
  have all: "ps_read n = ps_read sample_peer \<Longrightarrow> peer_incoming peer n = peer (ps_sent n)" for peer n
    by (simp add: peer_incoming_def sample_peer_def)
  note success = run [of "\<lambda>_. [0, 0xA0, 0, 4]"] and closed = run [of "\<lambda>_. [0, 0xA0]"]
  show ?thesis
    using success closed frame_length_ge [of "[0, 0xA0]"]
    by (auto simp: Let_def sample_reply all bounds_simps split: if_splits)
qed

text \<open>A failed call in either loop: the socket is closed and the loop does not end.\<close>

lemma send_loop_failed:
  assumes closed: "calls_fail_on_closed os" and fd: "FD_NONE \<le> cc_socket c" and lt: "off < k"
    and failed: "fst (net_send os (cc_socket c) (segment off k (cc_io_buffer c)) n) \<in> {SendWouldBlock, SendFailed}"
  shows "client_send_loop os c off k n = None"
proof -
  obtain s n' where call: "net_send os (cc_socket c) (segment off k (cc_io_buffer c)) n = (s, n')" by fastforce
  with failed lt have "client_send_loop os c off k n = client_send_loop os (disconnect_from_server c) off k n'"
    by (subst client_send_loop.simps) auto
  moreover have "client_send_loop os (disconnect_from_server c) off k n' \<noteq> Some r" for r
    using send_loop_returns [OF closed, of "disconnect_from_server c" off k n' r] lt
    by (auto simp: disconnect_socket [OF fd])
  ultimately show ?thesis by (metis option.exhaust)
qed

text \<open>What the loop around \<open>recv\<close> waits for: the header, or the length the header gives.\<close>

definition wanted :: "bool \<Rightarrow> msg_header \<Rightarrow> nat" where
  "wanted got_header h =
     (if got_header then min (unat (data_length h)) CLIENT_IO_BUFFER_SIZE else HEADER_SIZE)"

lemma recv_loop_failed:
  assumes closed: "calls_fail_on_closed os" and fd: "FD_NONE \<le> cc_socket c"
    and lt: "off < wanted got (cc_header c)"
    and failed: "fst (net_recv os (cc_socket c) (wanted got (cc_header c) - off) n) = RecvFailed"
  shows "client_recv_loop os c got off (wanted got (cc_header c)) n = None"
proof -
  let ?k = "wanted got (cc_header c)" and ?c = "disconnect_from_server c"
  obtain n' where call: "net_recv os (cc_socket c) (?k - off) n = (RecvFailed, n')"
    using failed by (metis prod.collapse)
  with lt have "client_recv_loop os c got off ?k n = client_recv_loop os ?c got off ?k n'"
    by (subst client_recv_loop.simps) simp
  moreover have "client_recv_loop os ?c got off ?k n' \<noteq> Some r" for r
  proof
    assume ret: "client_recv_loop os ?c got off ?k n' = Some r"
    have "cc_header ?c = cc_header c" by (simp add: disconnect_from_server_def split: prod.splits)
    with lt have "if got then ?k = min (unat (data_length (cc_header ?c))) CLIENT_IO_BUFFER_SIZE
      else off < HEADER_SIZE \<and> ?k = HEADER_SIZE" by (cases got) (simp_all add: wanted_def)
    from recv_loop_returns [OF closed ret _ this] lt show False by (simp add: disconnect_socket [OF fd])
  qed
  ultimately show ?thesis by (metis option.exhaust)
qed

lemma send_message_returns:
  assumes closed: "calls_fail_on_closed os" and fd: "FD_NONE \<le> cc_socket c"
    and ret: "client_send_message os c n = Some r"
  shows "\<exists>c' n'. cc_socket c' = cc_socket c \<and> (r = Normal (c', n') \<or>
    r = Raised (OsException IO_ERROR) (c', n') \<and> CLIENT_IO_BUFFER_SIZE < unat (data_length (cc_header c)))"
proof -
  let ?c = "c\<lparr>cc_io_buffer := serialize (cc_header c) (cc_io_buffer c)\<rparr>"
  let ?k = "min (max HEADER_SIZE (unat (data_length (cc_header c)))) CLIENT_IO_BUFFER_SIZE"
  from ret obtain off c' n' where loop: "client_send_loop os ?c 0 ?k n = Some (off, c', n')"
    and r: "r = (if off < unat (data_length (cc_header c')) then Raised (OsException IO_ERROR) (c', n') else Normal (c', n'))"
    by (auto simp: client_send_message_def Let_def split: option.splits)
  from send_loop_returns [OF closed loop] fd
  have "?k \<le> off" "cc_socket c' = cc_socket c" "cc_header c' = cc_header c" by simp_all
  then show ?thesis by (intro exI [of _ c'] exI [of _ n']) (auto simp: r)
qed

lemma receive_message_returns:
  assumes closed: "calls_fail_on_closed os" and fd: "FD_NONE \<le> cc_socket c"
    and ret: "client_receive_message os c n = Some r"
  shows "\<exists>c' n'. cc_socket c' = cc_socket c \<and> (r = Normal (c', n') \<or>
    r = Raised (OsException IO_ERROR) (c', n') \<and> CLIENT_IO_BUFFER_SIZE < unat (data_length (cc_header c')))"
proof -
  let ?c = "clear_client_buffer (c\<lparr>cc_header := clear_header (cc_header c)\<rparr>)"
  from ret obtain got off c' n' where loop: "client_recv_loop os ?c False 0 HEADER_SIZE n = Some (got, off, c', n')"
    and r: "r = (if \<not> got \<or> off < unat (data_length (cc_header c'))
                 then Raised (OsException IO_ERROR) (c', n') else Normal (c', n'))"
    by (auto simp: client_receive_message_def Let_def split: option.splits)
  have "cc_socket ?c = cc_socket c" by (simp add: clear_client_buffer_def)
  with recv_loop_returns [OF closed loop] fd
  have "got" "min (unat (data_length (cc_header c'))) CLIENT_IO_BUFFER_SIZE \<le> off" "cc_socket c' = cc_socket c"
    by (simp_all add: bounds_simps)
  then show ?thesis by (intro exI [of _ c'] exI [of _ n']) (auto simp: r)
qed

text \<open>
  Property C26. After a failed \<open>send\<close> or \<open>recv\<close> (the call reports an error, and every call on
  the closed socket fails): the loop closes the socket and then never ends, so the caller gets
  no exception. Whenever \<open>send_message\<close> or \<open>receive_message\<close> does return, the socket is still
  the one it started with, and the exception \<open>IO_ERROR\<close> only reports a length field larger
  than the buffer.
\<close>

theorem client_failure_hangs:
  assumes closed: "calls_fail_on_closed os" and fd: "FD_NONE \<le> cc_socket c"
  shows "(\<forall>off k n. off < k \<longrightarrow>
      fst (net_send os (cc_socket c) (segment off k (cc_io_buffer c)) n) \<in> {SendWouldBlock, SendFailed} \<longrightarrow>
      client_send_loop os c off k n = None) \<and>
    (\<forall>got off n. off < wanted got (cc_header c) \<longrightarrow>
      fst (net_recv os (cc_socket c) (wanted got (cc_header c) - off) n) = RecvFailed \<longrightarrow>
      client_recv_loop os c got off (wanted got (cc_header c)) n = None) \<and>
    (\<forall>n r. client_send_message os c n = Some r \<longrightarrow>
      (\<exists>c' n'. cc_socket c' = cc_socket c \<and> (r = Normal (c', n') \<or>
        r = Raised (OsException IO_ERROR) (c', n') \<and> CLIENT_IO_BUFFER_SIZE < unat (data_length (cc_header c))))) \<and>
    (\<forall>n r. client_receive_message os c n = Some r \<longrightarrow>
      (\<exists>c' n'. cc_socket c' = cc_socket c \<and> (r = Normal (c', n') \<or>
        r = Raised (OsException IO_ERROR) (c', n') \<and> CLIENT_IO_BUFFER_SIZE < unat (data_length (cc_header c')))))"
  using send_loop_failed [OF closed fd] recv_loop_failed [OF closed fd]
    send_message_returns [OF closed fd] receive_message_returns [OF closed fd] by blast

definition broken_os :: "peer_state client_os" where
  "broken_os = (peer_os (\<lambda>_. []))\<lparr>net_send := \<lambda>_ _ n. (SendFailed, n), net_recv := \<lambda>_ _ n. (RecvFailed, n)\<rparr>"

theorem client_failure_hangs_witness:
  "client_send_loop broken_os sample_client_connector 0 4 sample_peer = None \<and>
   client_recv_loop broken_os sample_client_connector False 0 HEADER_SIZE sample_peer = None"
proof -
  have closed: "calls_fail_on_closed broken_os" by (simp add: calls_fail_on_closed_def broken_os_def)
  have fd: "FD_NONE \<le> cc_socket sample_client_connector" by (simp add: sample_client_connector_def FD_NONE_def)
  have fails: "fst (net_send broken_os f b n) = SendFailed" "fst (net_recv broken_os f k n) = RecvFailed"
    for f b k n by (simp_all add: broken_os_def)
  have w: "wanted False (cc_header sample_client_connector) = HEADER_SIZE" by (simp add: wanted_def)
  note hang = client_failure_hangs [OF closed fd]
  have "client_send_loop broken_os sample_client_connector 0 4 sample_peer = None"
    using hang [THEN conjunct1, rule_format, of 0 4 sample_peer] by (simp add: fails)
  moreover have "client_recv_loop broken_os sample_client_connector False 0 HEADER_SIZE sample_peer = None"
    using hang [THEN conjunct2, THEN conjunct1, rule_format, of 0 False sample_peer]
    by (simp add: fails w bounds_simps)
  ultimately show ?thesis by simp
qed

end
