(* ===== verification/End_To_End.thy ===== *)
theory End_To_End
  imports Client_Connector
begin

text \<open>
  The two programs together: the client's request over a stream socket whose peer is one
  connection of the server.
\<close>

section \<open>The server's side of one connection\<close>

text \<open>
  What the server makes of the bytes of a connection: the calls of \<open>receive_message\<close> until the
  message is complete, its execution by a worker, and the calls of \<open>send_message\<close>. \<open>ks\<close> and
  \<open>js\<close> say how many bytes each call transfers. The result is what the client gets back, and
  the state of the plugin.
\<close>

definition serve_connection ::
  "'b char_buffer_ops \<Rightarrow> 'p plugin_env \<Rightarrow> fence_server \<Rightarrow> nat list \<Rightarrow> nat list \<Rightarrow> 'b net_client \<Rightarrow> 'p \<Rightarrow>
   bytes \<Rightarrow> bytes \<times> 'p" where
  "serve_connection cb penv srv ks js cl p stream =
     (case receive_all cl ks stream of
        (False, _, _) \<Rightarrow> ([], p)
      | (True, cl, _) \<Rightarrow>
          (case process_client_message cb penv srv (cl\<lparr>current_phase := EXECUTING\<rparr>) p of
             Normal (cl, p) \<Rightarrow>
               if current_phase cl = SEND then (case send_all cl js of (_, _, out) \<Rightarrow> (out, p)) else ([], p)
           | Raised _ (_, p) \<Rightarrow> ([], p)
           | Undefined_Behaviour \<Rightarrow> ([], p)))"

lemma request_bytes_sel:
  assumes "HEADER_SIZE + length (encode_request kvs) \<le> IO_BUFFER_SIZE"
  shows "length (request_bytes m kvs) = HEADER_SIZE + length (encode_request kvs)"
    "drop HEADER_SIZE (request_bytes m kvs) = encode_request kvs"
    "deserialize h (request_bytes m kvs) =
       \<lparr>msg_type = msg_type_code m, data_length = of_nat (HEADER_SIZE + length (encode_request kvs))\<rparr>"
    "frame_length (request_bytes m kvs) = length (request_bytes m kvs)"
proof -
  let ?K = "HEADER_SIZE + length (encode_request kvs)"
  show len: "length (request_bytes m kvs) = ?K" by (simp add: request_bytes_def)
  show "drop HEADER_SIZE (request_bytes m kvs) = encode_request kvs"
    by (simp add: request_bytes_def drop_serialize)
  have d: "deserialize h (request_bytes m kvs) = \<lparr>msg_type = msg_type_code m, data_length = of_nat ?K\<rparr>" for h
    by (simp add: request_bytes_def deserialize_serialize)
  show "deserialize h (request_bytes m kvs) = \<lparr>msg_type = msg_type_code m, data_length = of_nat ?K\<rparr>" by (rule d)
  have "unat (of_nat ?K :: uint16) = ?K" using assms by (intro unat_uint16) (simp add: IO_BUFFER_SIZE_def)
  with frame_length_header [of "request_bytes m kvs" new_msg_header] assms
  show "frame_length (request_bytes m kvs) = length (request_bytes m kvs)"
    unfolding len d by (simp add: cap_data_length_sel)
qed

lemma fence_params_ok:
  assumes "length node_name \<le> NODENAME_SIZE" and "length client_secret \<le> MAX_SECRET_LENGTH"
  shows "HEADER_SIZE + length (encode_request (fence_params node_name client_secret)) \<le> IO_BUFFER_SIZE"
    "\<forall>kv \<in> set (fence_params node_name client_secret). request_field_ok kv"
    "apply_fields (fence_params node_name client_secret) ([], []) = Some (node_name, client_secret)"
  using assms
  by (simp_all add: fence_params_def request_field_ok_def field_text_def bounds_simps)
    (simp_all add: NODENAME_def SECRET_def ascii_def)

lemma receive_all_same:
  assumes "receive_all cl ks stream = (complete, cl', rest)"
  shows "nodename cl' = nodename cl \<and> secret cl' = secret cl \<and> key_buffer cl' = key_buffer cl \<and>
    value_buffer cl' = value_buffer cl"
  using assms
proof (induction ks arbitrary: cl stream)
  case (Cons k ks)
  let ?n = "min (Suc k) (req_read_size cl)"
  obtain full cl1 where rb: "receive_bytes cl (take ?n stream) = (full, cl1)" by fastforce
  note same = receive_bytes_sel(9-12) [OF rb]
  with Cons rb same show ?case by (auto simp: Let_def split: if_splits bool.splits)
qed simp

context char_buffer
begin

lemma serve_request:
  assumes cl: "length (io_buffer cl) = IO_BUFFER_SIZE" "io_offset cl = 0" "\<not> have_header cl"
      "client_caps cap cl" "cb_c_str cb (nodename cl) = []" "cb_c_str cb (secret cl) = []"
    and lens: "length node \<le> NODENAME_SIZE" "length pass \<le> MAX_SECRET_LENGTH" and node: "node \<noteq> []"
    and f: "fence_function m (plugin_functions srv) = Some f"
    and call: "call_fence penv f (plugin_context srv) node (length node) p = (ok, p')"
    and ks: "IO_BUFFER_SIZE \<le> length ks" and js: "HEADER_SIZE \<le> length js"
  shows "\<exists>reply. serve_connection cb penv srv ks js cl p (request_bytes m (fence_params node pass)) = (reply, p') \<and>
    length reply = HEADER_SIZE \<and> deserialize h reply =
      \<lparr>msg_type = msg_type_code (if ok then FENCE_SUCCESS else FENCE_FAIL), data_length = of_nat HEADER_SIZE\<rparr>"
proof -
  let ?kvs = "fence_params node pass"
  let ?stream = "request_bytes m ?kvs"
  note params = fence_params_ok [OF lens]
  note req = request_bytes_sel [OF params(1)]
  have len: "length ?stream \<le> IO_BUFFER_SIZE" using params(1) by (simp add: req(1))
  have "recv_inv cl" "has_read cl ?stream"
    using cl(1-3) by (simp_all add: recv_inv_def has_read_def bounds_simps)
  from receive_all_frame [OF this refl, of ks] cl(2) ks len req(4) obtain cl1 where
    r: "receive_all cl ks ?stream = (True, cl1, [])" "message_complete cl1" "has_read cl1 ?stream"
      "io_offset cl1 = length ?stream" by auto
  let ?cl = "cl1\<lparr>current_phase := EXECUTING\<rparr>"
  have same: "client_caps cap ?cl" "cb_c_str cb (nodename ?cl) = []" "cb_c_str cb (secret ?cl) = []"
    using receive_all_same [OF r(1)] cl(4-6) by (simp_all add: client_caps_def)
  have hd: "msg_type (header ?cl) = msg_type_code m"
    using r(2,3) by (auto simp: message_complete_def has_read_def cap_data_length_sel req(3))
  have "take (length ?stream) (io_buffer cl1) = ?stream" using r(3,4) by (simp add: has_read_def)
  then have "segment HEADER_SIZE (io_offset ?cl) (io_buffer ?cl) = encode_request ?kvs"
    using r(4) by (simp add: segment_def drop_take [symmetric] req(2))
  then have in_buffer: "request_in_buffer ?cl ?kvs"
    using r(2,4) len params(2) by (simp add: request_in_buffer_def message_complete_def req(1))
  have ap: "apply_fields ?kvs (cb_c_str cb (nodename ?cl), cb_c_str cb (secret ?cl)) = Some (node, pass)"
    unfolding same(2,3) by (rule params(3))
  let ?fence = "\<lambda>n s p. Some (call_fence penv f (plugin_context srv) (cb_c_str cb n) (cb_length cb n) p)"
  from fence_action_ok [OF same(1) in_buffer ap node, of ?fence p] call
  obtain cl2 where act: "fence_action cb ?fence ?cl p = Normal (fence_reply ok cl2, p')"
    and cl2: "io_offset cl2 = 0" "\<not> have_header cl2" "length (io_buffer cl2) = length (io_buffer cl1)"
    by (auto simp: length_str)
  let ?cl3 = "fence_reply ok cl2"
  let ?h = "\<lparr>msg_type = msg_type_code (if ok then FENCE_SUCCESS else FENCE_FAIL), data_length = of_nat HEADER_SIZE\<rparr>"
  have cl3: "length (io_buffer ?cl3) = IO_BUFFER_SIZE" "io_offset ?cl3 = 0" "\<not> have_header ?cl3"
    "HEADER_SIZE = max HEADER_SIZE (min (unat (data_length (header ?cl3))) IO_BUFFER_SIZE)"
    "current_phase ?cl3 = SEND" "msg_type (header ?cl3) = msg_type ?h"
    using cl2 r(2) by (simp_all add: fence_reply_def message_complete_def bounds_simps)
  from send_all_reply [OF cl3(1-4) js] obtain cl4 where
    sent: "send_all ?cl3 js = (True, cl4, take HEADER_SIZE (serialize ?h (io_buffer ?cl3)))"
    unfolding cl3(6) by auto
  have "serve_connection cb penv srv ks js cl p ?stream = (take HEADER_SIZE (serialize ?h (io_buffer ?cl3)), p')"
    using process_fence_message [OF f hd, of cb penv p] act cl3(5)
    by (simp add: serve_connection_def r(1) sent)
  moreover have "deserialize h (take HEADER_SIZE (serialize ?h (io_buffer ?cl3))) = ?h"
    using deserialize_take [of "take HEADER_SIZE (serialize ?h (io_buffer ?cl3))" "serialize ?h (io_buffer ?cl3)" h]
      cl3(1) by (simp add: deserialize_serialize bounds_simps)
  ultimately show ?thesis using cl3(1) by (simp add: bounds_simps)
qed

end

section \<open>Properties\<close>

text \<open>
  Property C5. The client and the server together do what the plugin does: a fencing request
  over any stream socket whose peer is a fresh connection of the server, with bytes cut into
  any pieces on both sides, returns the answer of the plugin function for that action, called
  once with the node name the client was given; the exchange ends, on the same socket.
\<close>

theorem client_server_end_to_end:
  assumes cb: "char_buffer cb cap" and sock: "stream_socket os incoming outgoing received"
    and link: "\<And>n. incoming n =
      drop (received n) (fst (serve_connection cb penv srv ks js (clear_client cb cl) p (outgoing n)))"
    and start: "outgoing n = []" "received n = 0"
    and client: "0 \<le> cc_socket c" "length (cc_io_buffer c) = CLIENT_IO_BUFFER_SIZE"
    and fit: "params_fit cb node_name client_secret"
    and node: "node = c_string (cb_c_str cb node_name)" "node \<noteq> []"
    and server: "length (io_buffer cl) = IO_BUFFER_SIZE" "client_caps cap cl"
      "fence_function m (plugin_functions srv) = Some f"
    and call: "call_fence penv f (plugin_context srv) node (length node) p = (ok, p')"
    and calls: "IO_BUFFER_SIZE \<le> length ks" "HEADER_SIZE \<le> length js"
  shows "\<exists>c' n'. fence_action_impl cb os m node_name client_secret c n = Some (Normal (ok, c', n')) \<and>
    cc_socket c' = cc_socket c \<and> incoming n' = [] \<and>
    snd (serve_connection cb penv srv ks js (clear_client cb cl) p (outgoing n')) = p'"
proof -
  let ?pass = "c_string (cb_c_str cb client_secret)"
  let ?cl = "clear_client cb cl"
  let ?request = "request_bytes m (fence_params node ?pass)"
  have lens: "length node \<le> NODENAME_SIZE" "length ?pass \<le> MAX_SECRET_LENGTH"
    using fit by (simp_all add: params_fit_def node(1))
  have fresh: "length (io_buffer ?cl) = IO_BUFFER_SIZE" "io_offset ?cl = 0" "\<not> have_header ?cl"
    "client_caps cap ?cl" "cb_c_str cb (nodename ?cl) = []" "cb_c_str cb (secret ?cl) = []"
    using server(1,2) char_buffer.cap_simps [OF cb] char_buffer.str_simps [OF cb]
    by (simp_all add: clear_client_def client_caps_def)
  from char_buffer.serve_request [OF cb fresh lens node(2) server(3) call calls, of new_msg_header]
  obtain reply where reply: "serve_connection cb penv srv ks js ?cl p ?request = (reply, p')"
    "length reply = HEADER_SIZE" "deserialize new_msg_header reply =
      \<lparr>msg_type = msg_type_code (if ok then FENCE_SUCCESS else FENCE_FAIL), data_length = of_nat HEADER_SIZE\<rparr>"
    by blast
  have frame: "frame_length reply = HEADER_SIZE"
    unfolding frame_length_header [of reply new_msg_header] reply(3)
    by (simp add: cap_data_length_sel bounds_simps)
  have answer: "fence_answer (deserialize new_msg_header reply) c' n' = Normal (ok, c', n')"
    for c' n'
    unfolding reply(3) by (simp add: fence_answer_def is_msg_type_def bounds_simps)
  from fence_client.fence_exchange [OF fence_client.intro [OF cb sock] client fit refl, of n m]
  obtain n1 where n1: "outgoing n1 = ?request" "received n1 = 0"
    and run: "if frame_length (incoming n1) \<le> length (incoming n1)
     then \<exists>c' n'. fence_action_impl cb os m node_name client_secret c n =
            Some (fence_answer (deserialize new_msg_header (incoming n1)) c' n') \<and>
          cc_socket c' = cc_socket c \<and> cc_header c' = deserialize new_msg_header (incoming n1) \<and>
          incoming n' = drop (frame_length (incoming n1)) (incoming n1) \<and> outgoing n' = outgoing n1
     else fence_action_impl cb os m node_name client_secret c n = None"
    unfolding start node(1) by auto
  have "incoming n1 = reply" using link [of n1] n1 reply(1) by simp
  with run frame reply(2) n1(1) reply(1) show ?thesis by (auto simp: answer)
qed

definition sample_peer_bytes :: "bytes \<Rightarrow> bytes" where
  "sample_peer_bytes s = fst (serve_connection bounded_ops sample_env sample_server (replicate 1024 2)
     [0, 1, 0, 0] (clear_client bounded_ops (new_net_client bounded_ops (replicate 1024 5))) [] s)"

theorem client_server_end_to_end_witness:
  "\<exists>c' n'. fence_action_impl bounded_ops (peer_os sample_peer_bytes) FENCE_OFF
      (255, ascii ''n1'') (64, ascii ''s'') sample_client_connector sample_peer = Some (Normal (True, c', n')) \<and>
    snd (serve_connection bounded_ops sample_env sample_server (replicate 1024 2) [0, 1, 0, 0]
      (clear_client bounded_ops (new_net_client bounded_ops (replicate 1024 5))) [] (ps_sent n')) =
      [(13, Some 9, ascii ''n1'')]"
proof -
  let ?cl = "new_net_client bounded_ops (replicate 1024 5)"
  have link: "peer_incoming sample_peer_bytes n = drop (ps_read n) (fst (serve_connection bounded_ops sample_env
      sample_server (replicate 1024 2) [0, 1, 0, 0] (clear_client bounded_ops ?cl) [] (ps_sent n)))" for n
    by (simp add: peer_incoming_def sample_peer_bytes_def)
  have start: "ps_sent sample_peer = []" "ps_read sample_peer = 0" by (simp_all add: sample_peer_def)
  have c: "0 \<le> cc_socket sample_client_connector"
    "length (cc_io_buffer sample_client_connector) = CLIENT_IO_BUFFER_SIZE"
    by (simp_all add: sample_client_connector_def)
  have fit: "params_fit bounded_ops (255, ascii ''n1'') (64, ascii ''s'')"
    by (simp add: params_fit_def bounded_ops_def ascii_def c_string_def bounds_simps)
  have node: "ascii ''n1'' = c_string (cb_c_str bounded_ops (255, ascii ''n1''))" "ascii ''n1'' \<noteq> []"
    by (simp_all add: ascii_def c_string_def)
  have server: "length (io_buffer ?cl) = IO_BUFFER_SIZE" "client_caps fst ?cl"
    "fence_function FENCE_OFF (plugin_functions sample_server) = Some 13"
    by (simp_all add: new_net_client_def client_caps_def bounded_ops_def sample_server_def bounds_simps)
  have call: "call_fence sample_env 13 (plugin_context sample_server) (ascii ''n1'')
      (length (ascii ''n1'')) [] = (True, [(13, Some 9, ascii ''n1'')])"
    by (simp add: sample_env_def sample_server_def)
  have calls: "IO_BUFFER_SIZE \<le> length (replicate 1024 (2 :: nat))" "HEADER_SIZE \<le> length [0, 1, 0, 0 :: nat]"
    by (simp_all add: bounds_simps)
  from client_server_end_to_end [OF bounded.char_buffer_axioms peer_stream.stream_socket_axioms link start c fit
      node server call calls]
  show ?thesis by blast
qed

end
