(* ===== verification/Server_Traffic.thy ===== *)
theory Server_Traffic
  imports Server_System End_To_End Request_Parsing
begin

text \<open>
  What travels over the server's connections in any run: every reply that goes out is the
  answer to the request that came in on the same connection. The runs of Server_System are
  observed by a record of the bytes each connection has received and sent and of the call the
  request led to.
\<close>

section \<open>Requests and their answers\<close>

text \<open>A message without contents.\<close>

abbreviation bare_message :: "MsgType \<Rightarrow> bytes" where
  "bare_message m \<equiv> request_bytes m []"

definition well_formed :: "request_field list \<Rightarrow> bool" where
  "well_formed kvs \<longleftrightarrow> HEADER_SIZE + length (encode_request kvs) \<le> IO_BUFFER_SIZE \<and>
     (\<forall>kv \<in> set kvs. request_field_ok kv)"

text \<open>
  The reply answers the request: an echo reply to an echo request, which leaves the plugin
  alone; or the result of the plugin function that the request's type stands for, called once,
  for the node name that the request gives in the language of Request_Parsing.
\<close>

definition names_node :: "bytes \<Rightarrow> bytes \<Rightarrow> bool" where
  "names_node req node \<longleftrightarrow> node \<noteq> [] \<and>
     (\<exists>pass. parse_request (drop HEADER_SIZE req) ([], []) = Inr (node, pass))"

lemma names_request:
  assumes "well_formed kvs" and "apply_fields kvs ([], []) = Some (node, pass)"
  shows "names_node (request_bytes m kvs) node' \<longleftrightarrow> node' = node \<and> node \<noteq> []"
proof -
  have "drop HEADER_SIZE (request_bytes m kvs) = encode_request kvs"
    using request_bytes_sel(2) [of kvs m] assms(1) by (simp add: well_formed_def)
  with parse_encoded [of kvs "([], [])"] assms show ?thesis
    by (auto simp: names_node_def well_formed_def)
qed

definition answers ::
  "'p plugin_env \<Rightarrow> fence_server \<Rightarrow> bytes \<Rightarrow> 'p \<times> 'p \<Rightarrow> bytes \<Rightarrow> bool" where
  "answers penv srv req calls reply \<longleftrightarrow>
     (case switch_msg_type (bytes_to_field_value req MSG_TYPE_OFFSET) of
        None \<Rightarrow> False
      | Some ECHO_REQUEST \<Rightarrow> reply = bare_message ECHO_REPLY \<and> snd calls = fst calls
      | Some m \<Rightarrow> \<exists>f node ok. fence_function m (plugin_functions srv) = Some f \<and> names_node req node \<and>
          call_fence penv f (plugin_context srv) node (length node) (fst calls) = (ok, snd calls) \<and>
          reply = bare_message (if ok then FENCE_SUCCESS else FENCE_FAIL))"

lemma answers_fenceI:
  assumes "switch_msg_type (bytes_to_field_value req MSG_TYPE_OFFSET) = Some m"
    and f: "fence_function m (plugin_functions srv) = Some f"
    and "names_node req node"
    and "call_fence penv f (plugin_context srv) node (length node) p = (ok, p')"
  shows "answers penv srv req (p, p') (bare_message (if ok then FENCE_SUCCESS else FENCE_FAIL))"
proof -
  have "\<exists>f node ok'. fence_function m (plugin_functions srv) = Some f \<and> names_node req node \<and>
      call_fence penv f (plugin_context srv) node (length node) p = (ok', p') \<and>
      bare_message (if ok then FENCE_SUCCESS else FENCE_FAIL) =
        bare_message (if ok' then FENCE_SUCCESS else FENCE_FAIL)"
    using assms by blast
  moreover have "m \<in> {FENCE_OFF, FENCE_ON, FENCE_REBOOT}" using f by (cases m) simp_all
  ultimately show ?thesis using assms(1) unfolding answers_def by (elim insertE) simp_all
qed

text \<open>The bytes a client with a reply will send.\<close>

definition pending_reply :: "'b net_client \<Rightarrow> bytes" where
  "pending_reply cl = take (length_field (prepare_send cl)) (io_buffer (prepare_send cl))"

lemma pending_reply_prepare [simp]: "pending_reply (prepare_send cl) = pending_reply cl"
proof -
  have "have_header (prepare_send cl)" by (simp add: prepare_send_def Let_def)
  then show ?thesis by (simp add: pending_reply_def prepare_send_have_header)
qed

lemma pending_reply_bare:
  assumes "\<not> have_header cl" and "length (io_buffer cl) = IO_BUFFER_SIZE"
    and "header cl = \<lparr>msg_type = msg_type_code m, data_length = of_nat HEADER_SIZE\<rparr>"
  shows "pending_reply cl = bare_message m"
proof -
  have len: "unat (of_nat HEADER_SIZE :: uint16) = HEADER_SIZE" by (simp add: bounds_simps)
  then have "pending_reply cl = take HEADER_SIZE (serialize (header cl) (io_buffer cl))"
    using assms by (simp add: pending_reply_def prepare_send_def Let_def bounds_simps)
  also have "\<dots> = serialize (header cl) (replicate HEADER_SIZE 0)"
    using take_serialize_body [of 0 "io_buffer cl" "[]" "header cl"] assms(2) by (simp add: bounds_simps)
  finally show ?thesis using assms(3) by (simp add: request_bytes_def)
qed

section \<open>Executing a request\<close>

text \<open>What a client has received so far, while its texts are still empty.\<close>

definition heard_ok :: "'b char_buffer_ops \<Rightarrow> 'b net_client \<Rightarrow> bytes \<Rightarrow> bool" where
  "heard_ok cb cl h \<longleftrightarrow> has_read cl h \<and> io_offset cl = length h \<and>
     cb_c_str cb (nodename cl) = [] \<and> cb_c_str cb (secret cl) = []"

lemma heard_ok_phase [simp]:
  "heard_ok cb (cl\<lparr>current_phase := ph, io_state := op\<rparr>) h = heard_ok cb cl h"
  "heard_ok cb (cl\<lparr>current_phase := ph\<rparr>) h = heard_ok cb cl h"
  by (simp_all add: heard_ok_def has_read_def)

lemma message_complete_phase [simp]:
  "message_complete (cl\<lparr>current_phase := ph, io_state := op\<rparr>) = message_complete cl"
  "message_complete (cl\<lparr>current_phase := ph\<rparr>) = message_complete cl"
  by (simp_all add: message_complete_def)

lemma heard_request:
  assumes h: "heard_ok cb cl h" and mc: "message_complete cl"
  shows "msg_type (header cl) = bytes_to_field_value h MSG_TYPE_OFFSET"
    "well_formed kvs \<Longrightarrow> h = request_bytes m kvs \<Longrightarrow> request_in_buffer cl kvs"
proof -
  show "msg_type (header cl) = bytes_to_field_value h MSG_TYPE_OFFSET"
    using h mc by (auto simp: heard_ok_def has_read_def message_complete_def cap_data_length_sel deserialize_def)
  assume kvs: "well_formed kvs" "h = request_bytes m kvs"
  then have req: "drop HEADER_SIZE h = encode_request kvs"
    using request_bytes_sel(2) [of kvs m] by (simp add: well_formed_def)
  have "take (length h) (io_buffer cl) = h" using h by (auto simp: heard_ok_def has_read_def)
  then have "segment HEADER_SIZE (io_offset cl) (io_buffer cl) = encode_request kvs"
    using h req by (simp add: heard_ok_def segment_def drop_take [symmetric])
  with mc kvs(1) show "request_in_buffer cl kvs"
    by (auto simp: request_in_buffer_def message_complete_def well_formed_def)
qed

lemma heard_body:
  assumes h: "heard_ok cb cl h" and mc: "message_complete cl"
  shows "drop HEADER_SIZE h = segment HEADER_SIZE (io_offset cl) (io_buffer cl)"
    "HEADER_SIZE \<le> io_offset cl" "io_offset cl \<le> length (io_buffer cl)"
proof -
  show le: "HEADER_SIZE \<le> io_offset cl" "io_offset cl \<le> length (io_buffer cl)"
    using mc by (auto simp: message_complete_def bounds_simps)
  have "take (length h) (io_buffer cl) = h" using h by (auto simp: heard_ok_def has_read_def)
  then show "drop HEADER_SIZE h = segment HEADER_SIZE (io_offset cl) (io_buffer cl)"
    using h by (metis heard_ok_def segment_def drop_take)
qed

context char_buffer begin

lemma fence_action_answers:
  assumes caps: "client_caps cap cl" and h: "heard_ok cb cl h" and mc: "message_complete cl"
    and act: "fence_action cb fence cl p = Normal (cl', p')" and ready: "reply_ready cl'"
    and phase: "current_phase cl = EXECUTING"
  shows "\<exists>n s ok. names_node h (cb_c_str cb n) \<and> fence n s p = Some (ok, p') \<and>
    pending_reply cl' = bare_message (if ok then FENCE_SUCCESS else FENCE_FAIL) \<and>
    next_phase cl' = CANCELED"
proof -
  from fence_fields_safe [OF caps, of HEADER_SIZE] obtain cl1 where
    f: "outcome_state (fence_fields cb cl HEADER_SIZE) = Some cl1" "same_but_buffers cl cl1" by blast
  have norm: "fence_fields cb cl HEADER_SIZE = Normal cl1"
    using f act ready
    by (cases "fence_fields cb cl HEADER_SIZE") (auto simp: fence_action_def reply_ready_def split: if_splits)
  let ?cl = "(clear_io_buffer cl1)\<lparr>header := clear_header (header cl1)\<rparr>"
  have c1: "current_phase cl1 = EXECUTING" "length (io_buffer cl1) = IO_BUFFER_SIZE"
    using same_but_buffersD [OF f(2)] phase mc by (simp_all add: message_complete_def)
  have n: "cb_length cb (nodename cl1) > 0"
  proof (rule ccontr)
    assume "\<not> ?thesis"
    with act norm have "cl' = ?cl" by (simp add: fence_action_def)
    with ready c1(1) show False by (simp add: reply_ready_def)
  qed
  obtain ok where call: "fence (nodename cl1) (secret cl1) p = Some (ok, p')" and cl': "cl' = fence_reply ok ?cl"
    using act norm n by (auto simp: fence_action_def split: option.splits prod.splits)
  have texts: "cb_c_str cb (nodename cl) = []" "cb_c_str cb (secret cl) = []"
    using h by (simp_all add: heard_ok_def)
  from fence_fields_parsed [OF caps heard_body(2,3) [OF h mc] heard_body(1) [OF h mc] refl]
  have "names_node h (cb_c_str cb (nodename cl1))"
    using n by (auto simp: names_node_def length_str texts norm split: sum.splits prod.splits)
  moreover have "pending_reply cl' = bare_message (if ok then FENCE_SUCCESS else FENCE_FAIL)"
    by (rule pending_reply_bare) (use c1(2) in \<open>simp_all add: cl' fence_reply_def bounds_simps\<close>)
  moreover have "next_phase cl' = CANCELED" by (simp add: cl' fence_reply_def)
  ultimately show ?thesis using call by blast
qed

lemma process_answers:
  assumes caps: "client_caps cap cl" and h: "heard_ok cb cl h" and mc: "message_complete cl"
    and act: "process_client_message cb penv srv cl p = Normal (cl', p')" and ready: "reply_ready cl'"
    and phase: "current_phase cl = EXECUTING" and table: "table_complete (plugin_functions srv)"
  shows "answers penv srv h (p, p') (pending_reply cl') \<and>
    (next_phase cl' = RECV \<longrightarrow> cb_c_str cb (nodename cl') = [] \<and> cb_c_str cb (secret cl') = [])"
proof -
  note ty = heard_request(1) [OF h mc]
  show ?thesis
  proof (cases "switch_msg_type (msg_type (header cl))")
    case None
    with act ready show ?thesis by (auto simp: process_client_message_def reply_ready_def)
  next
    case (Some m)
    then have code: "msg_type (header cl) = msg_type_code m" by (simp add: switch_msg_type_Some)
    have fencing: ?thesis if f: "fence_function m (plugin_functions srv) = Some f" for f
    proof -
      note pm = process_fence_message [OF f code, of cb penv p]
      from fence_action_answers [OF caps h mc act [unfolded pm] ready phase]
      obtain n s ok where r: "names_node h (cb_c_str cb n)"
        "call_fence penv f (plugin_context srv) (cb_c_str cb n) (cb_length cb n) p = (ok, p')"
        "pending_reply cl' = bare_message (if ok then FENCE_SUCCESS else FENCE_FAIL)" "next_phase cl' = CANCELED"
        by auto
      have "answers penv srv h (p, p') (pending_reply cl')"
        unfolding r(3) by (rule answers_fenceI [OF Some [unfolded ty] f r(1) r(2) [unfolded length_str]])
      with r(4) show ?thesis by simp
    qed
    consider (echo) "m = ECHO_REQUEST" | (fence) f where "fence_function m (plugin_functions srv) = Some f"
      | (other) "m \<in> {ECHO_REPLY, VERSION_REQUEST, FENCE_SUCCESS, FENCE_FAIL}"
      using table by (cases m) (auto simp: table_complete_def)
    then show ?thesis
    proof cases
      case echo
      with Some act have cl': "cl' = echo_reply cl" "p' = p" by (simp_all add: process_client_message_def)
      have "pending_reply cl' = bare_message ECHO_REPLY"
        by (rule pending_reply_bare)
          (use mc in \<open>simp_all add: cl' echo_reply_def Let_def message_complete_def bounds_simps\<close>)
      with h Some echo show ?thesis
        by (simp add: answers_def ty [symmetric] cl'(2)) (simp add: cl' echo_reply_def heard_ok_def)
    next
      case other
      with Some act ready phase show ?thesis
        by (auto simp: process_client_message_def reply_ready_def)
    qed (rule fencing)
  qed
qed

end

section \<open>Observing a run\<close>

text \<open>
  The record of a run: for each client of the pool what it has received of its current message,
  the plugin's states around the call its request led to, and what it has sent of the reply;
  and the exchanges that are complete. It only grows by what the calls of \<open>recv\<close> and \<open>send\<close>
  return.
\<close>

record 'p traffic =
  heard :: "nat \<Rightarrow> bytes"
  called :: "nat \<Rightarrow> 'p \<times> 'p"
  said :: "nat \<Rightarrow> bytes"
  exchanges :: "(bytes \<times> ('p \<times> 'p) \<times> bytes) list"

definition silence :: "'p \<Rightarrow> 'p traffic" where
  "silence p = \<lparr>heard = (\<lambda>c. []), called = (\<lambda>c. (p, p)), said = (\<lambda>c. []), exchanges = []\<rparr>"

definition note_received :: "nat \<Rightarrow> bytes \<Rightarrow> 'p traffic \<Rightarrow> 'p traffic" where
  "note_received c data t = t\<lparr>heard := (heard t)(c := heard t c @ data)\<rparr>"

definition note_sent :: "nat \<Rightarrow> bytes \<Rightarrow> 'p traffic \<Rightarrow> 'p traffic" where
  "note_sent c data t = t\<lparr>said := (said t)(c := said t c @ data)\<rparr>"

definition fresh_traffic :: "nat \<Rightarrow> 'p traffic \<Rightarrow> 'p traffic" where
  "fresh_traffic c t = t\<lparr>heard := (heard t)(c := []), said := (said t)(c := [])\<rparr>"

definition note_exchange :: "nat \<Rightarrow> 'p traffic \<Rightarrow> 'p traffic" where
  "note_exchange c t =
     fresh_traffic c (t\<lparr>exchanges := exchanges t @ [(heard t c, called t c, said t c)]\<rparr>)"

text \<open>One client's turn in the pass over the com queue.\<close>

definition turn_traffic ::
  "os_env \<Rightarrow> fd_set \<Rightarrow> fd_set \<Rightarrow> nat \<Rightarrow> 'b net_client \<Rightarrow> 'p traffic \<Rightarrow> 'p traffic" where
  "turn_traffic env rd wr c cl t =
     (if socket_fd cl \<in> rd then
        (case os_recv env (socket_fd cl) (req_read_size cl) of
           Received data \<Rightarrow> note_received c data t
         | _ \<Rightarrow> t)
      else if socket_fd cl \<in> wr then
        (case os_send env (socket_fd cl) (send_buffer (prepare_send cl)) of
           Sent n \<Rightarrow>
             (let t = note_sent c (take n (send_buffer (prepare_send cl))) t
              in if fst (sent_bytes (prepare_send cl) n) then note_exchange c t else t)
         | _ \<Rightarrow> t)
      else t)"

fun pass_traffic ::
  "'b char_buffer_ops \<Rightarrow> os_env \<Rightarrow> fd_set \<Rightarrow> fd_set \<Rightarrow> nat list \<Rightarrow> 'b connector \<Rightarrow> 'p traffic \<Rightarrow> 'p traffic" where
  "pass_traffic cb env rd wr [] cn t = t"
| "pass_traffic cb env rd wr (c # cs) cn t =
     (case client_io cb env rd wr cn c of
        None \<Rightarrow> t
      | Some cn' \<Rightarrow> pass_traffic cb env rd wr cs cn' (turn_traffic env rd wr c (clients cn c) t))"

text \<open>An iteration of the selector: a client that has joined the com queue starts anew.\<close>

definition serve_traffic ::
  "'b char_buffer_ops \<Rightarrow> iteration \<Rightarrow> fd_set \<Rightarrow> fd_set \<Rightarrow> 'b connector \<Rightarrow> 'p traffic \<Rightarrow> 'p traffic" where
  "serve_traffic cb it rd wr cn t =
     (let cn' = draining rd (accepting cb it rd cn);
          new = filter (\<lambda>c. c \<notin> set (com_list cn)) (com_list cn')
      in pass_traffic cb (os_env.truncate it) rd wr (com_list cn') cn' (fold fresh_traffic new t))"

inductive recorded_step ::
  "'b char_buffer_ops \<Rightarrow> 'p plugin_env \<Rightarrow> fence_server \<Rightarrow> ('b, 'p) server_system \<times> 'p traffic \<Rightarrow>
   ('b, 'p) server_system \<times> 'p traffic \<Rightarrow> bool" for cb penv srv where
  serve: "selected s = Some (rd, wr) \<Longrightarrow> env_ok (os_env.truncate it) \<Longrightarrow>
     accepted_ok (conn s) (used_objects (client_pool (conn s))) (os_accept it) \<Longrightarrow>
     after_select cb it rd wr (conn s) = Some cn' \<Longrightarrow>
     recorded_step cb penv srv (s, t)
       (s\<lparr>conn := cn', selected := None\<rparr>, serve_traffic cb it rd wr (conn s) t)"
| execute: "c \<in> taken s \<Longrightarrow> worker_execute cb penv srv (conn s) c (plugin s) = Normal (cn', p') \<Longrightarrow>
     recorded_step cb penv srv (s, t)
       (s\<lparr>conn := cn', taken := taken s - {c}, executed := insert c (executed s), plugin := p'\<rparr>,
        t\<lparr>called := (called t)(c := (plugin s, p'))\<rparr>)"
| other: "server_step cb penv srv s s' \<Longrightarrow> selected s = None \<or> selected s' \<noteq> None \<Longrightarrow>
     executed s' \<subseteq> executed s \<Longrightarrow> recorded_step cb penv srv (s, t) (s', t)"

section \<open>What the record says of a client\<close>

definition com_traffic ::
  "'b char_buffer_ops \<Rightarrow> 'p plugin_env \<Rightarrow> fence_server \<Rightarrow> 'b net_client \<Rightarrow> 'p traffic \<Rightarrow> nat \<Rightarrow> bool" where
  "com_traffic cb penv srv cl t c \<longleftrightarrow>
     (if io_state cl = READ then heard_ok cb cl (heard t c) \<and> said t c = []
      else said t c = take (io_offset cl) (pending_reply cl) \<and>
        answers penv srv (heard t c) (called t c) (pending_reply cl) \<and>
        (next_phase cl = RECV \<longrightarrow> cb_c_str cb (nodename cl) = [] \<and> cb_c_str cb (secret cl) = []))"

definition waiting_traffic :: "'b char_buffer_ops \<Rightarrow> 'b net_client \<Rightarrow> 'p traffic \<Rightarrow> nat \<Rightarrow> bool" where
  "waiting_traffic cb cl t c \<longleftrightarrow> heard_ok cb cl (heard t c) \<and> message_complete cl \<and> said t c = []"

definition exchanges_ok :: "'p plugin_env \<Rightarrow> fence_server \<Rightarrow> 'p traffic \<Rightarrow> bool" where
  "exchanges_ok penv srv t \<longleftrightarrow> (\<forall>(req, calls, reply) \<in> set (exchanges t). answers penv srv req calls reply)"

definition same_record :: "nat \<Rightarrow> 'p traffic \<Rightarrow> 'p traffic \<Rightarrow> bool" where
  "same_record c t t' \<longleftrightarrow> heard t' c = heard t c \<and> called t' c = called t c \<and> said t' c = said t c"

lemma heard_more: "link.more cl' = link.more cl \<Longrightarrow> heard_ok cb cl' h = heard_ok cb cl h"
  by (cases cl; cases cl') (simp add: heard_ok_def has_read_def)

lemma pending_reply_more: "link.more cl' = link.more cl \<Longrightarrow> pending_reply cl' = pending_reply cl"
  by (cases cl; cases cl') (simp add: pending_reply_def prepare_send_def Let_def)

lemma reply_ready_more: "link.more cl' = link.more cl \<Longrightarrow> reply_ready cl' = reply_ready cl"
  for cl :: "'b net_client"
  by (cases cl; cases cl') (simp add: reply_ready_def)

lemma com_traffic_cong:
  assumes "link.more cl' = link.more cl" and "same_record c t t'"
  shows "com_traffic cb penv srv cl' t' c = com_traffic cb penv srv cl t c"
proof -
  have "io_state cl' = io_state cl" "io_offset cl' = io_offset cl" "next_phase cl' = next_phase cl"
    "nodename cl' = nodename cl" "secret cl' = secret cl"
    using assms(1) by (cases cl; cases cl'; simp)+
  with assms(2) heard_more [OF assms(1)] pending_reply_more [OF assms(1)] show ?thesis
    by (simp add: com_traffic_def same_record_def)
qed

lemma waiting_traffic_cong:
  assumes "link.more cl' = link.more cl" and "same_record c t t'"
  shows "waiting_traffic cb cl' t' c = waiting_traffic cb cl t c"
proof -
  have "message_complete cl' = message_complete cl"
    using assms(1) by (cases cl; cases cl') (simp add: message_complete_def)
  with assms(2) heard_more [OF assms(1)] show ?thesis
    by (simp add: waiting_traffic_def same_record_def)
qed

lemma notes_other [simp]:
  "x \<noteq> c \<Longrightarrow> same_record x t (note_received c data t)" "x \<noteq> c \<Longrightarrow> same_record x t (note_sent c data t)"
  "x \<noteq> c \<Longrightarrow> same_record x t (fresh_traffic c t)" "x \<noteq> c \<Longrightarrow> same_record x t (note_exchange c t)"
  "same_record x t t"
  by (simp_all add: same_record_def note_received_def note_sent_def fresh_traffic_def note_exchange_def)

lemma same_record_trans: "same_record c t t1 \<Longrightarrow> same_record c t1 t2 \<Longrightarrow> same_record c t t2"
  by (simp add: same_record_def)

lemma turn_traffic_other: "x \<noteq> c \<Longrightarrow> same_record x t (turn_traffic env rd wr c cl t)"
  unfolding turn_traffic_def Let_def
  by (auto split: recv_result.splits send_result.splits
      intro: same_record_trans [OF notes_other(2) notes_other(4)])

text \<open>The effect of the pieces of a turn on the client.\<close>

lemma closed_nowhere:
  "\<not> com_client (clients (close_connection cb cn c) c)"
  "\<not> pending_client (clients (close_connection cb cn c) c)"
  by (simp_all add: com_client_def pending_client_def closed_fd valid_select_fd_def FD_NONE_def)

lemma finish_receive_more:
  assumes "next_phase (clients cn c) = PENDING"
  shows "link.more (clients (finish_receive cb cn c) c) =
    link.more ((clients cn c)\<lparr>current_phase := PENDING, io_state := NOOP\<rparr>)"
proof -
  let ?cn = "set_client c ((clients cn c)\<lparr>current_phase := PENDING\<rparr>) cn"
  obtain h q where r: "remove_node (clients ?cn) (com_queue ?cn) c = (h, q)" by fastforce
  let ?h = "h(c := (h c)\<lparr>io_state := NOOP\<rparr>)"
  obtain h2 aq where a: "add_last ?h (action_queue cn) c = (h2, aq)" by fastforce
  have "link.more (h c) = link.more (clients ?cn c)"
    using same_payload_remove_node [of "clients ?cn" "com_queue ?cn" c] r by (simp add: same_payload_def)
  from more_io_state [OF this, of NOOP]
  have "link.more (?h c) = link.more ((clients cn c)\<lparr>current_phase := PENDING, io_state := NOOP\<rparr>)" by simp
  moreover have "link.more (h2 c) = link.more (?h c)"
    using same_payload_add_last [of ?h "action_queue cn" c] a by (simp add: same_payload_def)
  ultimately show ?thesis using r a by (simp add: finish_receive_pending [OF assms] Let_def)
qed

lemma has_read_append:
  assumes inv: "recv_inv cl" and h: "heard_ok cb cl h"
  shows "has_read cl (h @ later)"
proof -
  have off: "io_offset cl = length h" using h by (simp add: heard_ok_def)
  have "take HEADER_SIZE (h @ later) = take HEADER_SIZE h" if "have_header cl"
    using inv that off by (simp add: recv_inv_def)
  then have "\<exists>g'. header cl = cap_data_length (deserialize g' (h @ later))"
    if "have_header cl" "header cl = cap_data_length (deserialize g h)" for g
    using that deserialize_take [of "h @ later" h] by metis
  with h off show ?thesis by (auto simp: heard_ok_def has_read_def)
qed

lemma receive_bytes_heard:
  assumes inv: "recv_inv cl" and h: "heard_ok cb cl h" and len: "length data \<le> req_read_size cl"
    and eq: "receive_bytes cl data = (complete, cl')"
  shows "heard_ok cb cl' (h @ data)"
proof -
  have off: "io_offset cl = length h" using h by (simp add: heard_ok_def)
  from receive_bytes_has_read [OF inv has_read_append [OF inv h, of data] len] eq off
  have "has_read cl' (h @ data)" "io_offset cl' = length h + length data" by simp_all
  with h receive_bytes_sel(9,10) [OF eq] show ?thesis by (simp add: heard_ok_def)
qed

lemma sent_bytes_reply:
  assumes inv: "send_inv cl" "have_header cl" and n: "n \<le> length (send_buffer cl)"
    and eq: "sent_bytes cl n = (complete, cl')"
  shows "pending_reply cl' = pending_reply cl"
    "take (io_offset cl') (pending_reply cl) = take (io_offset cl) (pending_reply cl) @ take n (send_buffer cl)"
    "complete \<Longrightarrow> take (io_offset cl') (pending_reply cl) = pending_reply cl"
proof -
  note s = sent_bytes_inv [OF inv n eq]
  have p: "prepare_send cl = cl" "prepare_send cl' = cl'"
    using s inv by (simp_all add: prepare_send_have_header)
  show "pending_reply cl' = pending_reply cl" using s by (simp add: pending_reply_def p)
  have buf: "send_buffer cl = drop (io_offset cl) (pending_reply cl)"
    by (simp add: send_buffer_eq [OF inv] pending_reply_def p segment_def drop_take)
  show "take (io_offset cl') (pending_reply cl) = take (io_offset cl) (pending_reply cl) @ take n (send_buffer cl)"
    using s unfolding buf by (simp add: take_add)
  show "complete \<Longrightarrow> take (io_offset cl') (pending_reply cl) = pending_reply cl"
    using s by (simp add: pending_reply_def p)
qed

section \<open>A turn keeps the record right\<close>

text \<open>Where a client is after its turn, and what the record then says of it.\<close>

definition turn_ok ::
  "'b char_buffer_ops \<Rightarrow> 'p plugin_env \<Rightarrow> fence_server \<Rightarrow> 'b net_client \<Rightarrow> 'p traffic \<Rightarrow> nat \<Rightarrow> bool" where
  "turn_ok cb penv srv cl t c \<longleftrightarrow> (com_client cl \<longrightarrow> com_traffic cb penv srv cl t c) \<and>
     (pending_client cl \<longrightarrow> waiting_traffic cb cl t c) \<and> exchanges_ok penv srv t"

lemma turn_ok_closed: "exchanges_ok penv srv t \<Longrightarrow> turn_ok cb penv srv (clients (close_connection cb cn c) c) t c"
  by (simp add: turn_ok_def closed_nowhere)

lemma receive_turn_traffic:
  assumes env: "env_ok env" and rd: "reading (clients cn c)" "socket_fd (clients cn c) \<in> rd"
    and tr: "com_traffic cb penv srv (clients cn c) t c" and ex: "exchanges_ok penv srv t"
    and eq: "receive_message cb (os_recv env) cn c = (complete, cn1)"
  shows "turn_ok cb penv srv (clients (if complete then finish_receive cb cn1 c else cn1) c)
    (turn_traffic env rd wr c (clients cn c) t) c"
proof -
  let ?cl = "clients cn c"
  have h: "heard_ok cb ?cl (heard t c)" "said t c = []"
    using tr rd(1) by (simp_all add: com_traffic_def reading_def)
  show ?thesis
  proof (cases "os_recv env (socket_fd ?cl) (req_read_size ?cl)")
    case (Received data)
    have len: "data \<noteq> []" "length data \<le> req_read_size ?cl"
      using env Received [symmetric] by (auto simp: env_ok_def recv_allowed_def split: recv_result.splits)
    let ?t = "note_received c data t"
    have t: "turn_traffic env rd wr c ?cl t = ?t" using rd(2) Received by (simp add: turn_traffic_def)
    have exn: "exchanges_ok penv srv ?t" using ex by (simp add: exchanges_ok_def note_received_def)
    obtain f cl' where rb: "receive_bytes ?cl data = (f, cl')" by fastforce
    with eq Received len have cn1: "complete = f" "cn1 = set_client c cl' cn"
      by (auto simp: receive_message_def Let_def)
    note sel = receive_bytes_sel [OF rb]
    have inv: "recv_inv ?cl" using rd(1) by (simp add: reading_def)
    have h': "heard_ok cb cl' (heard ?t c)" "said ?t c = []"
      using receive_bytes_heard [OF inv h(1) len(2) rb] h(2) by (simp_all add: note_received_def)
    show ?thesis
    proof (cases f)
      case False
      have "io_state cl' = READ" using rd(1) by (simp add: reading_def sel)
      with False cn1 h' exn show ?thesis
        unfolding t by (simp add: turn_ok_def com_traffic_def pending_client_def)
    next
      case True
      have np: "next_phase (clients cn1 c) = PENDING" using rd(1) by (simp add: cn1 reading_def sel)
      let ?new = "cl'\<lparr>current_phase := PENDING, io_state := NOOP\<rparr>"
      have more: "link.more (clients (finish_receive cb cn1 c) c) = link.more ?new"
        using finish_receive_more [OF np, of cb] by (simp add: cn1)
      have "message_complete cl'" using receive_bytes_inv [OF inv len(2) rb] True by simp
      with h' have "waiting_traffic cb ?new ?t c"
        by (simp add: waiting_traffic_def)
      then have "waiting_traffic cb (clients (finish_receive cb cn1 c) c) ?t c"
        using waiting_traffic_cong [OF more notes_other(5)] by blast
      moreover have "\<not> com_client (clients (finish_receive cb cn1 c) c)"
        unfolding state_more_cong(2) [OF more] by (simp add: com_client_def reading_def writing_def)
      ultimately show ?thesis using True cn1(1) exn unfolding t by (simp add: turn_ok_def)
    qed
  qed (use eq rd(2) ex turn_ok_closed in \<open>auto simp: receive_message_def Let_def turn_traffic_def\<close>)
qed

text \<open>The reply is out: the exchange is complete.\<close>

lemma finish_send_traffic:
  assumes cl: "next_phase (clients cn c) \<in> {RECV, CANCELED}" "valid_select_fd (socket_fd (clients cn c))"
    and texts: "next_phase (clients cn c) = RECV \<Longrightarrow>
      cb_c_str cb (nodename (clients cn c)) = [] \<and> cb_c_str cb (secret (clients cn c)) = []"
    and t: "exchanges_ok penv srv t" "answers penv srv (heard t c) (called t c) (said t c)"
  shows "turn_ok cb penv srv (clients (finish_send cb cn c) c) (note_exchange c t) c"
proof -
  have ex: "exchanges_ok penv srv (note_exchange c t)"
    using t by (auto simp: exchanges_ok_def note_exchange_def fresh_traffic_def)
  show ?thesis
  proof (cases "next_phase (clients cn c) = CANCELED")
    case True
    with turn_ok_closed [OF ex] show ?thesis by (simp add: finish_send_def Let_def)
  next
    case False
    then have n: "next_phase (clients cn c) = RECV" using cl by simp
    with texts ex show ?thesis
      by (simp add: turn_ok_def finish_send_def Let_def com_traffic_def heard_ok_def has_read_def
          note_exchange_def fresh_traffic_def pending_client_def)
  qed
qed

lemma sent_turn_traffic:
  assumes wr: "writing cl" and fd: "valid_select_fd (socket_fd cl)"
    and tr: "com_traffic cb penv srv cl t c" and ex: "exchanges_ok penv srv t"
    and n: "n \<le> length (send_buffer (prepare_send cl))" and sb: "sent_bytes (prepare_send cl) n = (complete, cl')"
    and cn1: "cn1 = set_client c cl' cn"
  shows "turn_ok cb penv srv (clients (if complete then finish_send cb cn1 c else cn1) c)
    (if complete then note_exchange c (note_sent c (take n (send_buffer (prepare_send cl))) t)
     else note_sent c (take n (send_buffer (prepare_send cl))) t) c"
proof -
  let ?p = "prepare_send cl"
  have state: "io_state cl = WRITE" "next_phase cl \<in> {RECV, CANCELED}" using wr by (simp_all add: writing_def)
  have inv: "send_inv ?p" "have_header ?p" using wr prepare_send_inv by (auto simp: writing_def)
  have off: "io_offset ?p = io_offset cl" "nodename ?p = nodename cl" "secret ?p = secret cl"
    by (simp_all add: prepare_send_def Let_def)
  have com: "said t c = take (io_offset ?p) (pending_reply ?p)"
    "answers penv srv (heard t c) (called t c) (pending_reply ?p)"
    "next_phase cl = RECV \<Longrightarrow> cb_c_str cb (nodename cl) = [] \<and> cb_c_str cb (secret cl) = []"
    using tr state by (simp_all add: com_traffic_def off)
  let ?t = "note_sent c (take n (send_buffer ?p)) t"
  note reply = sent_bytes_reply [OF inv n sb]
  have sel: "next_phase cl' = next_phase cl" "socket_fd cl' = socket_fd cl" "io_state cl' = WRITE"
    "nodename cl' = nodename cl" "secret cl' = secret cl"
    using sb state by (auto simp: sent_bytes_sel [OF sb] prepare_send_sel)
      (auto simp: sent_bytes_def Let_def off)
  have "said ?t c = said t c @ take n (send_buffer ?p)" by (simp add: note_sent_def)
  then have said: "said ?t c = take (io_offset cl') (pending_reply ?p)" unfolding reply(2) com(1) .
  have rest: "heard ?t c = heard t c" "called ?t c = called t c" "exchanges_ok penv srv ?t"
    using ex by (simp_all add: note_sent_def exchanges_ok_def)
  show ?thesis
  proof (cases complete)
    case True
    have "turn_ok cb penv srv (clients (finish_send cb cn1 c) c) (note_exchange c ?t) c"
      by (rule finish_send_traffic)
        (use state(2) com(2,3) fd said rest reply(3) [OF True] in \<open>simp_all add: cn1 sel\<close>)
    with True show ?thesis by simp
  next
    case False
    with com(2,3) said rest reply(1) sel cn1 show ?thesis
      by (simp add: turn_ok_def com_traffic_def pending_client_def)
  qed
qed

lemma send_turn_traffic:
  assumes env: "env_ok env" and wr: "writing (clients cn c)" "socket_fd (clients cn c) \<in> wr"
    "socket_fd (clients cn c) \<notin> rd" and fd: "valid_select_fd (socket_fd (clients cn c))"
    and tr: "com_traffic cb penv srv (clients cn c) t c" and ex: "exchanges_ok penv srv t"
    and eq: "send_message cb (os_send env) cn c = (complete, cn1)"
  shows "turn_ok cb penv srv (clients (if complete then finish_send cb cn1 c else cn1) c)
    (turn_traffic env rd wr c (clients cn c) t) c"
proof -
  let ?cl = "clients cn c"
  let ?p = "prepare_send ?cl"
  note sent = sent_turn_traffic [OF wr(1) fd tr ex, where cn = cn]
  have inv: "send_inv ?p" "have_header ?p" using wr(1) prepare_send_inv by (auto simp: writing_def)
  have post: "send_allowed (length (send_buffer ?p)) (os_send env (socket_fd ?cl) (send_buffer ?p))"
    using env by (simp add: env_ok_def)
  have sfd: "socket_fd ?p = socket_fd ?cl" by (rule prepare_send_sel)
  show ?thesis
  proof (cases "os_send env (socket_fd ?cl) (send_buffer ?p)")
    case (Sent n)
    then have n: "n \<le> length (send_buffer ?p)" using post by (simp add: send_allowed_def)
    obtain f cl' where sb: "sent_bytes ?p n = (f, cl')" by fastforce
    with eq Sent have "complete = f" "cn1 = set_client c cl' cn" by (simp_all add: send_message_def Let_def sfd)
    with sent [OF n, of complete cl'] sb wr(2,3) Sent show ?thesis
      by (auto simp: turn_traffic_def Let_def split: if_splits)
  next
    case SendWouldBlock
    obtain f cl' where sb: "sent_bytes ?p 0 = (f, cl')" by fastforce
    with eq SendWouldBlock have cn1: "complete = f" "cn1 = set_client c cl' cn"
      by (simp_all add: send_message_def Let_def sfd)
    have "\<not> f" using sent_bytes_inv [OF inv _ sb] inv by (auto simp: send_inv_def)
    moreover have "note_sent c [] t = t" by (simp add: note_sent_def)
    ultimately show ?thesis
      using sent [of 0 complete cl'] sb cn1 wr(2,3) SendWouldBlock
      by (auto simp: turn_traffic_def split: if_splits)
  next
    case SendFailed
    with eq turn_ok_closed [OF ex] wr(2,3) show ?thesis
      by (auto simp: send_message_def Let_def sfd turn_traffic_def)
  qed
qed

section \<open>An iteration keeps the record right\<close>

definition conn_traffic ::
  "'b char_buffer_ops \<Rightarrow> 'p plugin_env \<Rightarrow> fence_server \<Rightarrow> 'b connector \<Rightarrow> 'p traffic \<Rightarrow> nat list \<Rightarrow> nat list \<Rightarrow> bool" where
  "conn_traffic cb penv srv cn t xs ys \<longleftrightarrow>
     (\<forall>x \<in> set xs. com_traffic cb penv srv (clients cn x) t x) \<and>
     (\<forall>y \<in> set ys. waiting_traffic cb (clients cn y) t y) \<and> exchanges_ok penv srv t"

lemma conn_traffic_turn:
  assumes inv: "conn_inv cap L cn xs ys W" and inv': "conn_inv cap L cn' xs' ys' W" and c: "c \<in> set xs"
    and res: "turn_result c xs ys xs' ys'" "only_client c cn cn'"
    and tr: "conn_traffic cb penv srv cn t xs ys"
    and turn: "turn_ok cb penv srv (clients cn' c) t' c" and other: "\<And>x. x \<noteq> c \<Longrightarrow> same_record x t t'"
  shows "conn_traffic cb penv srv cn' t' xs' ys'"
proof -
  have more: "link.more (clients cn' x) = link.more (clients cn x)" if "x \<noteq> c" for x
    using res(2) that by (simp add: only_client_def)
  have "com_traffic cb penv srv (clients cn' x) t' x" if x: "x \<in> set xs'" for x
  proof (cases "x = c")
    case True
    with turn x inv' show ?thesis by (auto simp: turn_ok_def conn_inv_def)
  next
    case False
    have "x \<in> set xs" using res(1) x by (auto simp: turn_result_def dest: set_mp [OF set_remove1_subset])
    with tr com_traffic_cong [OF more [OF False] other [OF False]] show ?thesis by (simp add: conn_traffic_def)
  qed
  moreover have "waiting_traffic cb (clients cn' y) t' y" if y: "y \<in> set ys'" for y
  proof (cases "y = c")
    case True
    with turn y inv' show ?thesis by (auto simp: turn_ok_def conn_inv_def)
  next
    case False
    have "y \<in> set ys" using res(1) y False by (auto simp: turn_result_def)
    with tr waiting_traffic_cong [OF more [OF False] other [OF False]] show ?thesis by (simp add: conn_traffic_def)
  qed
  ultimately show ?thesis using turn by (simp add: conn_traffic_def turn_ok_def)
qed

lemma client_io_traffic:
  assumes inv: "conn_inv cap L cn xs ys W" and c: "c \<in> set xs" and env: "env_ok env"
    and sets: "sets_match cn (c # rest) rd wr" and tr: "conn_traffic cb penv srv cn t xs ys"
    and io: "client_io cb env rd wr cn c = Some cn'"
  shows "turn_ok cb penv srv (clients cn' c) (turn_traffic env rd wr c (clients cn c) t) c"
proof -
  let ?cl = "clients cn c"
  have com: "valid_select_fd (socket_fd ?cl)" "reading ?cl \<or> writing ?cl" and ctr: "com_traffic cb penv srv ?cl t c"
    and ex: "exchanges_ok penv srv t"
    using inv c tr by (auto simp: conn_inv_def com_client_def conn_traffic_def)
  then have phase: "current_phase ?cl \<noteq> CANCELED" by (auto simp: reading_def writing_def)
  consider (rd) "socket_fd ?cl \<in> rd" | (wr) "socket_fd ?cl \<notin> rd" "socket_fd ?cl \<in> wr"
    | (idle) "socket_fd ?cl \<notin> rd" "socket_fd ?cl \<notin> wr" by blast
  then show ?thesis
  proof cases
    case rd
    with sets com have r: "reading ?cl" by (auto simp: sets_match_def writing_def)
    obtain f cn1 where m: "receive_message cb (os_recv env) cn c = (f, cn1)" by fastforce
    with io rd phase com have "cn' = (if f then finish_receive cb cn1 c else cn1)"
      by (simp add: client_io_def Let_def FD_ISSET_def)
    with receive_turn_traffic [OF env r rd ctr ex m] show ?thesis by metis
  next
    case wr
    with sets com have w: "writing ?cl" by (auto simp: sets_match_def reading_def)
    obtain f cn1 where m: "send_message cb (os_send env) cn c = (f, cn1)" by fastforce
    with io wr phase com have "cn' = (if f then finish_send cb cn1 c else cn1)"
      by (simp add: client_io_def Let_def FD_ISSET_def)
    with send_turn_traffic [OF env w wr(2,1) com(1) ctr ex m] show ?thesis by metis
  next
    case idle
    with io phase com have "cn' = cn" by (simp add: client_io_def Let_def FD_ISSET_def)
    moreover have "\<not> pending_client ?cl" using com by (auto simp: pending_client_def reading_def writing_def)
    ultimately show ?thesis using idle ctr ex by (simp add: turn_ok_def turn_traffic_def)
  qed
qed

context char_buffer begin

lemma pass_traffic_ok:
  assumes "conn_inv cap L cn xs ys W" and "env_ok env" and "distinct rest" and "set rest \<subseteq> set xs"
    and "sets_match cn rest rd wr" and "conn_traffic cb penv srv cn t xs ys"
    and "serve_all cb env rd wr rest cn = Some cn'" and "conn_inv cap L cn' xs' ys' W"
  shows "conn_traffic cb penv srv cn' (pass_traffic cb env rd wr rest cn t) xs' ys' \<and>
    (\<forall>x. x \<notin> set rest \<longrightarrow> same_record x t (pass_traffic cb env rd wr rest cn t))"
  using assms
proof (induction rest arbitrary: cn xs ys t)
  case Nil
  then have "cn' = cn" by simp
  with conn_inv_lists [OF Nil.prems(1)] conn_inv_lists [OF Nil.prems(8)] have "xs' = xs" "ys' = ys" by simp_all
  with Nil show ?case by simp
next
  case (Cons c rest)
  note inv = Cons.prems(1)
  have c: "c \<in> set xs" "c \<notin> set rest" "distinct rest" using Cons.prems(3,4) by auto
  from client_io_turn [OF inv c(1) Cons.prems(2,5)] obtain cn1 xs1 ys1 where
    io: "client_io cb env rd wr cn c = Some cn1" and inv1: "conn_inv cap L cn1 xs1 ys1 W"
    and t: "turn_result c xs ys xs1 ys1" "only_client c cn cn1" by blast
  let ?t = "turn_traffic env rd wr c (clients cn c) t"
  note turn = client_io_traffic [OF inv c(1) Cons.prems(2,5,6) io]
  have tr1: "conn_traffic cb penv srv cn1 ?t xs1 ys1"
    by (rule conn_traffic_turn [OF inv inv1 c(1) t Cons.prems(6) turn turn_traffic_other])
  have sub: "set rest \<subseteq> set xs1"
  proof
    fix x assume "x \<in> set rest"
    then have "x \<in> set xs" "x \<noteq> c" using Cons.prems(4) c(2) by auto
    with t(1) show "x \<in> set xs1" by (auto simp: turn_result_def)
  qed
  have m1: "sets_match cn1 rest rd wr" by (rule sets_match_turn [OF Cons.prems(5) t(2) c(2)])
  have s1: "serve_all cb env rd wr rest cn1 = Some cn'" using Cons.prems(7) io by simp
  from Cons.IH [OF inv1 Cons.prems(2) c(3) sub m1 tr1 s1 Cons.prems(8)] io
  show ?case by (auto intro: same_record_trans [OF turn_traffic_other])
qed

end

section \<open>Every step keeps the record right\<close>

definition traffic_inv ::
  "'b char_buffer_ops \<Rightarrow> 'p plugin_env \<Rightarrow> fence_server \<Rightarrow> ('b, 'p) server_system \<Rightarrow> 'p traffic \<Rightarrow> bool" where
  "traffic_inv cb penv srv s t \<longleftrightarrow>
     conn_traffic cb penv srv (conn s) t (com_list (conn s)) (action_list (conn s)) \<and>
     (\<forall>c \<in> taken s. waiting_traffic cb (clients (conn s) c) t c) \<and>
     (\<forall>c \<in> executed s. reply_ready (clients (conn s) c) \<longrightarrow>
        com_traffic cb penv srv (clients (conn s) c) t c)"

lemma fold_fresh:
  "x \<notin> set cs \<Longrightarrow> same_record x t (fold fresh_traffic cs t)"
  "x \<in> set cs \<Longrightarrow> heard (fold fresh_traffic cs t) x = [] \<and> said (fold fresh_traffic cs t) x = []"
  "exchanges (fold fresh_traffic cs t) = exchanges t"
proof -
  show "x \<notin> set cs \<Longrightarrow> same_record x t (fold fresh_traffic cs t)"
    by (induction cs arbitrary: t) (auto intro: same_record_trans [OF notes_other(3)])
  have keep: "heard t x = [] \<and> said t x = [] \<Longrightarrow>
      heard (fold fresh_traffic cs t) x = [] \<and> said (fold fresh_traffic cs t) x = []" for cs and t :: "'a traffic"
    by (induction cs arbitrary: t) (auto simp: fresh_traffic_def)
  show "x \<in> set cs \<Longrightarrow> heard (fold fresh_traffic cs t) x = [] \<and> said (fold fresh_traffic cs t) x = []"
  proof (induction cs arbitrary: t)
    case (Cons c cs)
    show ?case
    proof (cases "x = c")
      case True
      then have "heard (fresh_traffic c t) x = [] \<and> said (fresh_traffic c t) x = []"
        by (simp add: fresh_traffic_def)
      from keep [OF this] True show ?thesis by simp
    qed (use Cons in auto)
  qed simp
  show "exchanges (fold fresh_traffic cs t) = exchanges t"
    by (induction cs arbitrary: t) (auto simp: fresh_traffic_def)
qed

context char_buffer begin

lemma new_client_traffic:
  assumes "link.more cl' = link.more (new_client cb r d cl)" and "heard t c = []" "said t c = []"
  shows "com_traffic cb penv srv cl' t c"
proof -
  let ?new = "new_client cb r d cl"
  have "io_offset ?new = 0" "\<not> have_header ?new" "io_state ?new = READ"
    "nodename ?new = cb_wipe cb (nodename cl)" "secret ?new = cb_wipe cb (secret cl)"
    by (simp_all add: new_client_def accept_into_def clear_client_def split: accept_result.splits)
  then have "com_traffic cb penv srv ?new t c"
    using assms(2,3) by (simp add: com_traffic_def heard_ok_def has_read_def str_simps)
  then show ?thesis using com_traffic_cong [OF assms(1) notes_other(5)] by blast
qed

lemma accept_traffic:
  assumes tr: "conn_traffic cb penv srv cn t xs ys" and new: "set new \<inter> (set xs \<union> set ys) = {}"
    and old: "\<forall>x. x \<notin> set new \<longrightarrow> link.more (clients cn1 x) = link.more (clients cn x)"
    and fresh: "\<forall>x \<in> set new. link.more (clients cn1 x) = link.more (new_client cb r d (clients cn x))"
  shows "conn_traffic cb penv srv cn1 (fold fresh_traffic new t) (xs @ new) ys"
proof -
  let ?t = "fold fresh_traffic new t"
  have same: "same_record x t ?t" if "x \<notin> set new" for x by (rule fold_fresh(1) [OF that])
  have com: "com_traffic cb penv srv (clients cn1 x) ?t x" if x: "x \<in> set (xs @ new)" for x
  proof (cases "x \<in> set new")
    case True
    with new_client_traffic fold_fresh(2) [OF True] fresh show ?thesis by blast
  next
    case False
    with x tr have "com_traffic cb penv srv (clients cn x) t x" by (simp add: conn_traffic_def)
    then show ?thesis using com_traffic_cong [OF old [rule_format, OF False] same [OF False]] by blast
  qed
  have wait: "waiting_traffic cb (clients cn1 y) ?t y" if "y \<in> set ys" for y
  proof -
    have "y \<notin> set new" using new that by blast
    from waiting_traffic_cong [OF old [rule_format, OF this] same [OF this]] tr that show ?thesis
      by (simp add: conn_traffic_def)
  qed
  have "exchanges_ok penv srv ?t" using tr by (simp add: conn_traffic_def exchanges_ok_def fold_fresh(3))
  with com wait show ?thesis unfolding conn_traffic_def by blast
qed

lemma traffic_inv_workers:
  assumes tr: "traffic_inv cb penv srv s t"
    and res: "conn_traffic cb penv srv cn' t' (com_list cn') (action_list cn')"
    and keep: "\<forall>w \<in> taken s \<union> executed s. link.more (clients cn' w) = link.more (clients (conn s) w) \<and> same_record w t t'"
  shows "traffic_inv cb penv srv (s\<lparr>conn := cn', selected := None\<rparr>) t'"
proof -
  have more: "link.more (clients cn' w) = link.more (clients (conn s) w)" "same_record w t t'"
    if "w \<in> taken s \<union> executed s" for w using keep that by blast+
  have ready: "reply_ready (clients cn' w) = reply_ready (clients (conn s) w)" if "w \<in> taken s \<union> executed s" for w
    by (rule reply_ready_more [OF more(1) [OF that]])
  have "waiting_traffic cb (clients cn' w) t' w" if "w \<in> taken s" for w
    using tr that waiting_traffic_cong [OF more [of w]] unfolding traffic_inv_def by blast
  moreover have "com_traffic cb penv srv (clients cn' w) t' w"
    if "w \<in> executed s" "reply_ready (clients cn' w)" for w
    using tr that ready [of w] com_traffic_cong [OF more [of w]] unfolding traffic_inv_def by blast
  ultimately show ?thesis using res unfolding traffic_inv_def by simp
qed

lemma serve_step_record:
  assumes inv: "system_inv cap s xs ys W L" and tr: "traffic_inv cb penv srv s t"
    and sel: "selected s = Some (rd, wr)" and it: "env_ok (os_env.truncate it)"
      "accepted_ok (conn s) (used_objects (client_pool (conn s))) (os_accept it)"
    and eq: "after_select cb it rd wr (conn s) = Some cn'"
  shows "conn_traffic cb penv srv cn' (serve_traffic cb it rd wr (conn s) t) (com_list cn') (action_list cn')"
    "\<forall>x \<in> set (action_list (conn s)) \<union> W. same_record x t (serve_traffic cb it rd wr (conn s) t)"
    "\<forall>w \<in> W. link.more (clients cn' w) = link.more (clients (conn s) w)"
proof -
  let ?cn = "conn s"
  define cn1 where "cn1 = draining rd (accepting cb it rd ?cn)"
  have c: "conn_inv cap L ?cn xs ys W" using inv by (simp add: system_inv_def)
  obtain new where
    a: "conn_inv cap L cn1 (xs @ new) ys W" "sets_match cn1 (xs @ new) rd wr" "set new \<inter> (set xs \<union> set ys \<union> W) = {}"
    and old: "\<forall>x. x \<notin> set new \<longrightarrow> link.more (clients cn1 x) = link.more (clients ?cn x)"
    and fresh: "\<forall>x \<in> set new. link.more (clients cn1 x) =
       link.more (new_client cb (os_accept it) (server_domain ?cn) (clients ?cn x))"
    and pass: "after_select cb it rd wr ?cn = io_pass cb (os_env.truncate it) rd wr cn1"
    by (rule serve_accepts [OF inv sel it(2) cn1_def]) blast
  let ?t1 = "fold fresh_traffic new t"
  have lists: "com_list ?cn = xs" "action_list ?cn = ys" "com_list cn1 = xs @ new"
    using conn_inv_lists [OF c] conn_inv_lists(1) [OF a(1)] by simp_all
  have dist: "distinct (xs @ new)" using a(1) conn_core_distinct unfolding conn_inv_def by blast
  have "filter (\<lambda>c. c \<notin> set xs) (xs @ new) = new"
    using a(3) by (auto simp: filter_empty_conv filter_id_conv)
  then have st: "serve_traffic cb it rd wr ?cn t = pass_traffic cb (os_env.truncate it) rd wr (xs @ new) cn1 ?t1"
    by (simp add: serve_traffic_def Let_def lists cn1_def [symmetric])
  have tr0: "conn_traffic cb penv srv ?cn t xs ys" using tr by (simp add: traffic_inv_def lists)
  have new: "set new \<inter> (set xs \<union> set ys) = {}" using a(3) by blast
  have tr1: "conn_traffic cb penv srv cn1 ?t1 (xs @ new) ys" by (rule accept_traffic [OF tr0 new old fresh])
  from io_pass_serves [OF a(1) it(1) a(2)] obtain cn2 xs' ys' where
    p: "io_pass cb (os_env.truncate it) rd wr cn1 = Some cn2"
      "serve_all cb (os_env.truncate it) rd wr (xs @ new) cn1 = Some cn2" "conn_inv cap L cn2 xs' ys' W"
      "pass_result cn1 cn2 (xs @ new) ys xs' ys'" by blast
  have cn2: "cn2 = cn'" using eq p(1) unfolding pass by simp
  from pass_traffic_ok [OF a(1) it(1) dist subset_refl a(2) tr1 p(2,3)]
  have res: "conn_traffic cb penv srv cn' (serve_traffic cb it rd wr ?cn t) xs' ys'"
    "\<And>x. x \<notin> set (xs @ new) \<Longrightarrow> same_record x ?t1 (serve_traffic cb it rd wr ?cn t)"
    unfolding st cn2 by blast+
  have lists': "com_list cn' = xs'" "action_list cn' = ys'"
    using conn_inv_lists [OF p(3)] unfolding cn2 by blast+
  show "conn_traffic cb penv srv cn' (serve_traffic cb it rd wr ?cn t) (com_list cn') (action_list cn')"
    using res(1) unfolding lists' .
  have disj: "set (xs @ new) \<inter> (set ys \<union> W) = {}"
    using a(1,3) c unfolding conn_inv_def conn_core_def by auto
  show "\<forall>x \<in> set (action_list ?cn) \<union> W. same_record x t (serve_traffic cb it rd wr ?cn t)"
  proof
    fix x assume "x \<in> set (action_list ?cn) \<union> W"
    then have x: "x \<notin> set (xs @ new)" "x \<notin> set new" using disj lists(2) by auto
    show "same_record x t (serve_traffic cb it rd wr ?cn t)"
      by (rule same_record_trans [OF fold_fresh(1) [OF x(2)] res(2) [OF x(1)]])
  qed
  show "\<forall>w \<in> W. link.more (clients cn' w) = link.more (clients ?cn w)"
  proof
    fix w assume "w \<in> W"
    then have "w \<notin> set (xs @ new)" "w \<notin> set new" using disj by auto
    then show "link.more (clients cn' w) = link.more (clients ?cn w)"
      using p(4) old unfolding pass_result_def cn2 by metis
  qed
qed

lemma serve_step_traffic:
  assumes inv: "system_inv cap s xs ys W L" and tr: "traffic_inv cb penv srv s t"
    and sel: "selected s = Some (rd, wr)" and it: "env_ok (os_env.truncate it)"
      "accepted_ok (conn s) (used_objects (client_pool (conn s))) (os_accept it)"
    and eq: "after_select cb it rd wr (conn s) = Some cn'"
  shows "traffic_inv cb penv srv (s\<lparr>conn := cn', selected := None\<rparr>) (serve_traffic cb it rd wr (conn s) t)"
proof -
  have "taken s \<union> executed s \<subseteq> W" using inv by (auto simp: system_inv_def)
  with serve_step_record [OF assms] show ?thesis by (intro traffic_inv_workers [OF tr]) blast+
qed

end

text \<open>Steps that transfer nothing: clients only move to where less is claimed of them.\<close>

lemma traffic_inv_frame:
  assumes tr: "traffic_inv cb penv srv s t"
    and more: "\<And>x. x \<in> set (com_list (conn s')) \<union> set (action_list (conn s')) \<union> taken s' \<union> executed s' \<Longrightarrow>
      link.more (clients (conn s') x) = link.more (clients (conn s) x)"
    and sub: "set (com_list (conn s')) \<subseteq> set (com_list (conn s)) \<union>
        {c \<in> executed s. reply_ready (clients (conn s) c)}"
      "set (action_list (conn s')) \<union> taken s' \<subseteq> set (action_list (conn s)) \<union> taken s"
      "executed s' \<subseteq> executed s"
  shows "traffic_inv cb penv srv s' t"
proof -
  have "com_traffic cb penv srv (clients (conn s') x) t x" if x: "x \<in> set (com_list (conn s'))" for x
  proof -
    have "com_traffic cb penv srv (clients (conn s) x) t x"
      using tr sub(1) x unfolding traffic_inv_def conn_traffic_def by blast
    with com_traffic_cong [OF more notes_other(5), of x] x show ?thesis by blast
  qed
  moreover have "waiting_traffic cb (clients (conn s') x) t x" if x: "x \<in> set (action_list (conn s')) \<union> taken s'" for x
  proof -
    have "waiting_traffic cb (clients (conn s) x) t x"
      using tr sub(2) x unfolding traffic_inv_def conn_traffic_def by blast
    with waiting_traffic_cong [OF more notes_other(5), of x] x show ?thesis by blast
  qed
  moreover have "com_traffic cb penv srv (clients (conn s') x) t x"
    if x: "x \<in> executed s'" "reply_ready (clients (conn s') x)" for x
  proof -
    have m: "link.more (clients (conn s') x) = link.more (clients (conn s) x)" using more x by blast
    then have "com_traffic cb penv srv (clients (conn s) x) t x"
      using tr sub(3) x reply_ready_more [OF m] unfolding traffic_inv_def by blast
    with com_traffic_cong [OF m notes_other(5)] show ?thesis by blast
  qed
  ultimately show ?thesis using tr unfolding traffic_inv_def conn_traffic_def by blast
qed

context char_buffer begin

lemma take_traffic:
  assumes inv: "system_inv cap s xs ys W L" and tr: "traffic_inv cb penv srv s t"
    and eq: "worker_take (conn s) = (Some c, cn')"
  shows "traffic_inv cb penv srv (s\<lparr>conn := cn', taken := insert c (taken s)\<rparr>) t"
proof -
  have conn: "conn_inv cap L (conn s) xs ys W" and L: "L \<subseteq> W" using inv by (simp_all add: system_inv_def)
  obtain zs where ys: "ys = c # zs"
    and w: "conn_inv cap L cn' xs zs (insert c W)" "only_client c (conn s) cn'"
      "link.more (clients cn' c) = link.more (clients (conn s) c)"
    using worker_take_inv [OF conn L] eq by (auto split: list.splits)
  have "link.more (clients cn' x) = link.more (clients (conn s) x)" for x
    using w(2,3) by (cases "x = c") (simp_all add: only_client_def)
  with conn_inv_lists [OF conn] conn_inv_lists [OF w(1)] ys show ?thesis
    by (intro traffic_inv_frame [OF tr]) auto
qed

lemma execute_step_cases:
  assumes inv: "system_inv cap s xs ys W L" and c: "c \<in> taken s" and table: "table_complete (plugin_functions srv)"
    and eq: "worker_execute cb penv srv (conn s) c (plugin s) \<in> {Normal (cn', p'), Raised e (cn', p')}"
  obtains cl where "cn' = set_client c cl (conn s)" "com_list cn' = com_list (conn s)"
    "action_list cn' = action_list (conn s)"
    "c \<notin> set (com_list (conn s)) \<union> set (action_list (conn s)) \<union> executed s"
proof -
  have conn: "conn_inv cap L (conn s) xs ys W" and te: "taken s \<union> executed s = W - L" "taken s \<inter> executed s = {}"
    using inv by (simp_all add: system_inv_def)
  have cW: "c \<in> W - L" using te c by blast
  from worker_execute_inv [OF conn cW table, of penv "plugin s"] obtain cl p1 where
    "worker_execute cb penv srv (conn s) c (plugin s) \<in>
      {Normal (set_client c cl (conn s), p1), Raised RangeException (set_client c cl (conn s), p1)}"
    and i: "conn_inv cap L (set_client c cl (conn s)) xs ys W" by blast
  with eq have "cn' = set_client c cl (conn s)" by auto
  moreover have "c \<notin> set xs \<union> set ys \<union> executed s"
    using conn cW c te by (auto simp: conn_inv_def conn_core_def)
  ultimately show ?thesis using that conn_inv_lists [OF conn] conn_inv_lists [OF i] by metis
qed

lemma execute_traffic:
  assumes inv: "system_inv cap s xs ys W L" and tr: "traffic_inv cb penv srv s t" and c: "c \<in> taken s"
    and table: "table_complete (plugin_functions srv)"
    and eq: "worker_execute cb penv srv (conn s) c (plugin s) = Normal (cn', p')"
  shows "traffic_inv cb penv srv
    (s\<lparr>conn := cn', taken := taken s - {c}, executed := insert c (executed s), plugin := p'\<rparr>)
    (t\<lparr>called := (called t)(c := (plugin s, p'))\<rparr>)"
proof -
  obtain cl where cl: "cn' = set_client c cl (conn s)" "com_list cn' = com_list (conn s)"
    "action_list cn' = action_list (conn s)"
    "c \<notin> set (com_list (conn s)) \<union> set (action_list (conn s)) \<union> executed s"
    using execute_step_cases [OF inv c table, of penv cn' p' RangeException] eq by blast
  let ?cl = "(clients (conn s) c)\<lparr>current_phase := EXECUTING\<rparr>"
  let ?t = "t\<lparr>called := (called t)(c := (plugin s, p'))\<rparr>"
  obtain cl2 where r: "process_client_message cb penv srv ?cl (plugin s) = Normal (cl2, p')"
    "cn' = set_client c cl2 (conn s)"
    using eq by (auto simp: worker_execute_def split: outcome.splits)
  have "clients cn' c = cl2" by (simp add: r(2))
  then have act: "process_client_message cb penv srv ?cl (plugin s) = Normal (cl, p')"
    using r(1) by (simp add: cl(1))
  have ok: "client_ok cap (clients (conn s) c)"
    using inv by (simp add: system_inv_def conn_inv_def conn_core_def)
  then have caps: "client_caps cap ?cl" by (simp add: client_ok_def client_caps_def)
  have w: "waiting_traffic cb (clients (conn s) c) t c" using tr c by (simp add: traffic_inv_def)
  then have h: "heard_ok cb ?cl (heard t c)" "message_complete ?cl" "said t c = []"
    by (simp_all add: waiting_traffic_def)
  have new: "com_traffic cb penv srv cl ?t c" if r: "reply_ready cl"
    using process_answers [OF caps h(1,2) act r _ table] h(3) r
    by (simp add: com_traffic_def reply_ready_def)
  have keep: "com_traffic cb penv srv (clients cn' x) ?t x = com_traffic cb penv srv (clients (conn s) x) t x"
    "waiting_traffic cb (clients cn' x) ?t x = waiting_traffic cb (clients (conn s) x) t x"
    "clients cn' x = clients (conn s) x" if "x \<noteq> c" for x
  proof -
    have r: "same_record x t ?t" using that by (simp add: same_record_def)
    show same: "clients cn' x = clients (conn s) x" using that by (simp add: cl(1))
    show "com_traffic cb penv srv (clients cn' x) ?t x = com_traffic cb penv srv (clients (conn s) x) t x"
      unfolding same by (rule com_traffic_cong [OF refl r])
    show "waiting_traffic cb (clients cn' x) ?t x = waiting_traffic cb (clients (conn s) x) t x"
      unfolding same by (rule waiting_traffic_cong [OF refl r])
  qed
  have off: "x \<noteq> c" if "x \<in> set (com_list (conn s)) \<union> set (action_list (conn s)) \<union> (taken s - {c}) \<union> executed s" for x
    using that cl(4) by auto
  have "exchanges_ok penv srv ?t" using tr by (simp add: traffic_inv_def conn_traffic_def exchanges_ok_def)
  then have "conn_traffic cb penv srv cn' ?t (com_list cn') (action_list cn')"
    using tr off keep(1,2) unfolding traffic_inv_def conn_traffic_def cl(2,3) by blast
  moreover have "\<forall>x \<in> taken s - {c}. waiting_traffic cb (clients cn' x) ?t x"
    using tr off keep(2) unfolding traffic_inv_def by blast
  moreover have "reply_ready (clients cn' x) \<longrightarrow> com_traffic cb penv srv (clients cn' x) ?t x"
    if "x \<in> insert c (executed s)" for x
  proof (cases "x = c")
    case True
    with new show ?thesis by (simp add: cl(1))
  next
    case False
    with that tr keep [OF False] show ?thesis unfolding traffic_inv_def by simp
  qed
  ultimately show ?thesis by (simp add: traffic_inv_def)
qed

lemma execute_throws_traffic:
  assumes inv: "system_inv cap s xs ys W L" and tr: "traffic_inv cb penv srv s t" and c: "c \<in> taken s"
    and table: "table_complete (plugin_functions srv)"
    and eq: "worker_execute cb penv srv (conn s) c (plugin s) = Raised e (cn', p')"
  shows "traffic_inv cb penv srv (s\<lparr>conn := cn', taken := taken s - {c}, plugin := p'\<rparr>) t"
proof -
  obtain cl where cl: "cn' = set_client c cl (conn s)" "com_list cn' = com_list (conn s)"
    "action_list cn' = action_list (conn s)"
    "c \<notin> set (com_list (conn s)) \<union> set (action_list (conn s)) \<union> executed s"
    using execute_step_cases [OF inv c table, of penv cn' p' e] eq by blast
  then show ?thesis by (intro traffic_inv_frame [OF tr]) auto
qed

lemma finish_traffic:
  assumes inv: "system_inv cap s xs ys W L" and tr: "traffic_inv cb penv srv s t" and c: "c \<in> executed s"
    and rs: "writes_end rs" and eq: "worker_finish cb rs (conn s) c = Some cn'"
  shows "traffic_inv cb penv srv (s\<lparr>conn := cn', executed := executed s - {c}\<rparr>) t"
proof -
  have conn: "conn_inv cap L (conn s) xs ys W" and L: "L \<subseteq> W"
    and te: "taken s \<union> executed s = W - L" "taken s \<inter> executed s = {}"
    and ans: "answered (clients (conn s) c)"
    using inv c by (simp_all add: system_inv_def)
  have cW: "c \<in> W - L" "c \<notin> taken s" using te c by blast+
  then have nc: "c \<notin> set ys" using conn by (auto simp: conn_inv_def conn_core_def)
  show ?thesis
  proof (cases "reply_ready (clients (conn s) c) \<and> \<not> is_signaled (stop_signal (conn s))")
    case True
    with worker_requeue_inv [OF conn cW(1) _ _ rs] eq have
      w: "conn_inv cap L cn' (xs @ [c]) ys (W - {c})" "only_client c (conn s) cn'"
        "link.more (clients cn' c) = link.more (clients (conn s) c)" by auto
    have "link.more (clients cn' x) = link.more (clients (conn s) x)" for x
      using w(2,3) by (cases "x = c") (simp_all add: only_client_def)
    with conn_inv_lists [OF conn] conn_inv_lists [OF w(1)] True c show ?thesis
      by (intro traffic_inv_frame [OF tr]) auto
  next
    case False
    then have cn': "cn' = close_connection cb (conn s) c"
      using ans eq by (auto simp: worker_finish_def answered_def reply_ready_def)
    note close = worker_close_inv [OF conn cW(1) L]
    have "link.more (clients cn' x) = link.more (clients (conn s) x)" if "x \<noteq> c" for x
      using close(2) that by (simp add: only_client_def cn')
    moreover have lists: "com_list cn' = []" "action_list cn' = action_list (conn s)" "c \<notin> set (action_list cn')"
      using conn_inv_lists [OF conn] conn_inv_lists [OF close(1)] nc by (simp_all add: cn')
    ultimately have "link.more (clients cn' x) = link.more (clients (conn s) x)"
      if "x \<in> set (com_list cn') \<union> set (action_list cn') \<union> taken s \<union> (executed s - {c})" for x
      using that cW(2) by (metis DiffD2 Un_iff insertI1 list.set(1) empty_iff)
    with lists show ?thesis by (intro traffic_inv_frame [OF tr]) auto
  qed
qed

lemma recorded_step_traffic:
  assumes step: "recorded_step cb penv srv (s, t) (s', t')" and table: "table_complete (plugin_functions srv)"
    and inv: "system_inv cap s xs ys W L" and tr: "traffic_inv cb penv srv s t"
  shows "traffic_inv cb penv srv s' t'"
  using step
proof cases
  case (serve rd wr it cn')
  with serve_step_traffic [OF inv tr] show ?thesis by blast
next
  case (execute c cn' p')
  with execute_traffic [OF inv tr _ table] show ?thesis by blast
next
  case other
  have nte: "taken s \<inter> executed s = {}" using inv by (simp add: system_inv_def)
  from other(2) show ?thesis
  proof cases
    case (execute c cn' p')
    with other nte show ?thesis by auto
  next
    case (take c cn')
    with take_traffic [OF inv tr] other(1) show ?thesis by blast
  next
    case (execute_throws c e cn' p')
    with execute_throws_traffic [OF inv tr _ table] other(1) show ?thesis by blast
  next
    case (finish c rs cn')
    with finish_traffic [OF inv tr] other(1) show ?thesis by blast
  next
    case stop
    then have "traffic_inv cb penv srv s' t"
      by (intro traffic_inv_frame [OF tr]) (auto simp: com_list_def action_list_def)
    with other(1) show ?thesis by simp
  next
    case (select rd wr m rd' wr')
    then have "traffic_inv cb penv srv s' t" by (intro traffic_inv_frame [OF tr]) auto
    with other(1) show ?thesis by simp
  qed (use other in auto)
qed

end

section \<open>Recorded runs\<close>

abbreviation recorded_run ::
  "'b char_buffer_ops \<Rightarrow> 'p plugin_env \<Rightarrow> fence_server \<Rightarrow> ('b, 'p) server_system \<times> 'p traffic \<Rightarrow>
   ('b, 'p) server_system \<times> 'p traffic \<Rightarrow> bool" where
  "recorded_run cb penv srv \<equiv> (recorded_step cb penv srv)\<^sup>*\<^sup>*"

text \<open>The record only observes: it neither adds nor removes steps.\<close>

lemma recorded_step_erase: "recorded_step cb penv srv st st' \<Longrightarrow> server_step cb penv srv (fst st) (fst st')"
  by (induction rule: recorded_step.induct) (auto intro: server_step.serve server_step.execute)

lemma server_step_recorded:
  assumes "server_step cb penv srv s s'"
  shows "\<exists>t'. recorded_step cb penv srv (s, t) (s', t')"
proof -
  have other: ?thesis if "selected s = None \<or> selected s' \<noteq> None" "executed s' \<subseteq> executed s"
    using recorded_step.other [OF assms that] by blast
  from assms show ?thesis
  proof cases
    case (serve rd wr it cn')
    show ?thesis unfolding serve(1) using recorded_step.serve [OF serve(2-5)] by blast
  next
    case (execute c cn' p')
    show ?thesis unfolding execute(1) using recorded_step.execute [OF execute(2,3)] by blast
  qed (rule other; cases "selected s"; force)+
qed

lemma recorded_run_erase: "recorded_run cb penv srv st st' \<Longrightarrow> (server_step cb penv srv)\<^sup>*\<^sup>* (fst st) (fst st')"
  by (induction rule: rtranclp_induct) (auto dest: recorded_step_erase intro: rtranclp.rtrancl_into_rtrancl)

lemma server_run_recorded:
  "(server_step cb penv srv)\<^sup>*\<^sup>* s s' \<Longrightarrow> \<exists>t'. recorded_run cb penv srv (s, t) (s', t')"
proof (induction rule: rtranclp_induct)
  case (step s1 s2)
  then obtain t1 where "recorded_run cb penv srv (s, t) (s1, t1)" by blast
  with server_step_recorded [OF step.hyps(2), of t1] show ?case
    by (blast intro: rtranclp.rtrancl_into_rtrancl)
qed blast

text \<open>A state in which everything is as it should be, and its record.\<close>

definition recorded_inv ::
  "('b \<Rightarrow> nat) \<Rightarrow> 'b char_buffer_ops \<Rightarrow> 'p plugin_env \<Rightarrow> fence_server \<Rightarrow>
   ('b, 'p) server_system \<times> 'p traffic \<Rightarrow> bool" where
  "recorded_inv cap cb penv srv st \<longleftrightarrow> (\<exists>xs ys W L. system_inv cap (fst st) xs ys W L) \<and>
     traffic_inv cb penv srv (fst st) (snd st)"

context char_buffer begin

lemma recorded_run_inv:
  assumes run: "recorded_run cb penv srv st st'" and table: "table_complete (plugin_functions srv)"
    and inv: "recorded_inv cap cb penv srv st"
  shows "recorded_inv cap cb penv srv st'"
  using run inv
proof (induction rule: rtranclp_induct)
  case (step st1 st2)
  then obtain xs ys W L where i: "system_inv cap (fst st1) xs ys W L" "traffic_inv cb penv srv (fst st1) (snd st1)"
    by (auto simp: recorded_inv_def)
  from recorded_step_traffic [of penv srv "fst st1" "snd st1" "fst st2" "snd st2"] step.hyps(2) i table
  have "traffic_inv cb penv srv (fst st2) (snd st2)" by simp
  with server_step_inv [OF recorded_step_erase [OF step.hyps(2)] table i(1)] show ?case
    by (auto simp: recorded_inv_def)
qed

end

lemma start_recorded:
  assumes "char_buffer cb cap" and "IO_BUFFER_SIZE \<le> length garbage"
    and "valid_select_fd sfd" "valid_select_fd rfd" "sfd \<noteq> rfd"
  shows "recorded_inv cap cb penv srv (start_system (started_connector cb garbage d sh sfd rfd wfd) p, silence p')"
proof -
  note inv = start_system_inv [OF assms, of d sh wfd p]
  note lists = system_inv_lost(2,3) [OF inv]
  have "traffic_inv cb penv srv (start_system (started_connector cb garbage d sh sfd rfd wfd) p) (silence p')"
    unfolding traffic_inv_def lists
    by (simp add: conn_traffic_def exchanges_ok_def start_system_def silence_def)
  with inv show ?thesis unfolding recorded_inv_def fst_conv snd_conv by blast
qed

end
