(* ===== verification/Request_Served.thy ===== *)
theory Request_Served
  imports Server_Traffic
begin

text \<open>
  A request can always be served: the run that accepts a connection, reads the request, has a
  worker execute it and sends the reply, from any state in which no stop is requested, the
  action queue is empty and the pool has an object, whatever the other clients are at.
\<close>

section \<open>Iterations in which one descriptor is ready\<close>

text \<open>The iteration around a set of transfers; its other members do not matter.\<close>

definition quiet_iteration :: "os_env \<Rightarrow> int \<Rightarrow> iteration" where
  "quiet_iteration env fd =
     \<lparr>os_recv = os_recv env, os_send = os_send env, os_select = (\<lambda>rd wr. SelectEINTR),
      os_accept = Accepted fd [] 0, os_signal = False\<rparr>"

lemma quiet_iteration_env [simp]: "os_env.truncate (quiet_iteration env fd) = env"
  by (simp add: quiet_iteration_def os_env.defs)

lemma quiet_iteration_accept [simp]: "os_accept (quiet_iteration env fd) = Accepted fd [] 0"
  by (simp add: quiet_iteration_def)

text \<open>The peer has sent \<open>rest\<close>, and \<open>send\<close> takes everything.\<close>

definition feeding :: "bytes \<Rightarrow> os_env" where
  "feeding rest =
     \<lparr>os_recv = (\<lambda>fd n. if take n rest = [] then EndOfStream else Received (take n rest)),
      os_send = (\<lambda>fd buf. Sent (length buf))\<rparr>"

lemma feeding_ok [simp]: "env_ok (feeding rest)"
  by (simp add: env_ok_def feeding_def recv_allowed_def send_allowed_def)

text \<open>There are more descriptors than connections.\<close>

lemma fresh_descriptor:
  assumes "conn_inv cap L cn xs ys W"
  shows "\<exists>fd. accepted_ok cn (used_objects (client_pool cn)) (Accepted fd [] 0)"
proof -
  let ?S = "used_objects (client_pool cn)"
  let ?U = "insert (server_fd cn) (insert (trigger_read_fd cn) ((\<lambda>x. socket_fd (clients cn x)) ` ?S))"
  have S: "?S \<subseteq> {..<MAX_CONNECTIONS}"
    using conn_core_used [of cap cn xs ys W] assms by (simp add: conn_inv_def conn_core_def)
  then have fin: "finite ?S" by (rule finite_subset) simp
  have "card ?S \<le> MAX_CONNECTIONS" using card_mono [OF _ S] by simp
  then have "card ?U \<le> MAX_CONNECTIONS + 2"
    using card_insert_le_m1 card_image_le [OF fin, of "\<lambda>x. socket_fd (clients cn x)"] fin
    by (auto simp: card_insert_if)
  moreover have "card {0 ..< FD_SETSIZE} = nat FD_SETSIZE" by simp
  ultimately have "card ?U < card {0 ..< FD_SETSIZE}" by (simp add: bounds_simps)
  then have "\<not> {0 ..< FD_SETSIZE} \<subseteq> ?U" using card_mono [of ?U "{0 ..< FD_SETSIZE}"] fin by auto
  then obtain fd where "fd \<in> {0 ..< FD_SETSIZE}" "fd \<notin> ?U" by blast
  then show ?thesis by (intro exI [of _ fd]) (auto simp: accepted_ok_def valid_select_fd_def)
qed

text \<open>A client whose descriptor is not ready is passed over.\<close>

definition idle_client :: "fd_set \<Rightarrow> fd_set \<Rightarrow> 'b net_client \<Rightarrow> bool" where
  "idle_client rd wr cl \<longleftrightarrow> valid_select_fd (socket_fd cl) \<and> socket_fd cl \<notin> rd \<and>
     socket_fd cl \<notin> wr \<and> current_phase cl \<noteq> CANCELED"

lemma idle_more: "link.more cl' = link.more cl \<Longrightarrow> idle_client rd wr cl' = idle_client rd wr cl"
  using state_more_cong(4,6) [of cl' cl] by (simp add: idle_client_def)

lemma idle_turn:
  assumes "idle_client rd wr (clients cn c)"
  shows "client_io cb env rd wr cn c = Some cn" "turn_traffic env rd wr c (clients cn c) t = t"
  using assms by (simp_all add: idle_client_def client_io_def Let_def FD_ISSET_def turn_traffic_def)

lemma serve_all_idle:
  "\<forall>x \<in> set cs. idle_client rd wr (clients cn x) \<Longrightarrow>
   serve_all cb env rd wr cs cn = Some cn \<and> pass_traffic cb env rd wr cs cn t = t"
  by (induction cs) (simp_all add: idle_turn)

lemma serve_all_only:
  assumes "distinct cs" and "c \<in> set cs" and "\<forall>x \<in> set cs - {c}. idle_client rd wr (clients cn x)"
    and io: "client_io cb env rd wr cn c = Some cn'" "only_client c cn cn'"
  shows "serve_all cb env rd wr cs cn = Some cn' \<and>
    pass_traffic cb env rd wr cs cn t = turn_traffic env rd wr c (clients cn c) t"
  using assms(1-3)
proof (induction cs)
  case (Cons x cs)
  show ?case
  proof (cases "x = c")
    case True
    have "idle_client rd wr (clients cn' y)" if y: "y \<in> set cs" for y
    proof -
      have "y \<noteq> c" using Cons.prems(1) True y by auto
      with io(2) idle_more [of "clients cn' y" "clients cn y"] Cons.prems(3) y show ?thesis
        by (simp add: only_client_def)
    qed
    with serve_all_idle [of cs rd wr cn'] io(1) True show ?thesis by simp
  next
    case False
    then have "idle_client rd wr (clients cn x)" using Cons.prems(3) by simp
    note turn = idle_turn [OF this]
    have "distinct cs" "c \<in> set cs" "\<forall>y \<in> set cs - {c}. idle_client rd wr (clients cn y)"
      using Cons.prems False by auto
    from Cons.IH [OF this] show ?thesis by (simp add: turn)
  qed
qed simp

lemma three_steps: "r a b \<Longrightarrow> r b c \<Longrightarrow> r c d \<Longrightarrow> r\<^sup>*\<^sup>* a d"
  by (meson converse_rtranclp_into_rtranclp r_into_rtranclp)

lemma com_client_phase: "com_client cl \<Longrightarrow> current_phase cl \<noteq> CANCELED"
  by (auto simp: com_client_def reading_def writing_def)

context char_buffer begin

text \<open>Selecting and serving are two steps of the system.\<close>

lemma iteration_run:
  assumes sel: "selected s = None" and on: "\<not> is_signaled (stop_signal (conn s))"
    and b: "build_fd_sets (conn s) = Some (RD, WR, m)" "rd \<subseteq> RD" "wr \<subseteq> WR" and env: "env_ok env"
    and fd: "accepted_ok (conn s) (used_objects (client_pool (conn s))) (Accepted fd [] 0)"
    and as: "after_select cb (quiet_iteration env fd) rd wr (conn s) = Some cn'"
    and tr: "serve_traffic cb (quiet_iteration env fd) rd wr (conn s) t = t'"
  shows "recorded_run cb penv srv (s, t) (s\<lparr>conn := cn', selected := None\<rparr>, t')"
proof -
  let ?it = "quiet_iteration env fd" and ?s1 = "s\<lparr>selected := Some (rd, wr)\<rparr>"
  have "server_step cb penv srv s ?s1" by (rule server_step.select [OF sel on b])
  then have step1: "recorded_step cb penv srv (s, t) (?s1, t)"
    by (rule recorded_step.other) simp_all
  have "recorded_step cb penv srv (?s1, t) (?s1\<lparr>conn := cn', selected := None\<rparr>, serve_traffic cb ?it rd wr (conn ?s1) t)"
    by (rule recorded_step.serve) (use env fd as in simp_all)
  then have "recorded_step cb penv srv (?s1, t) (s\<lparr>conn := cn', selected := None\<rparr>, t')" by (simp add: tr)
  with step1 show ?thesis by (meson converse_rtranclp_into_rtranclp rtranclp.rtrancl_refl)
qed

text \<open>The selector serves one client of the com queue and nobody else.\<close>

lemma others_idle:
  assumes conn: "conn_inv cap L cn xs ys W" and f: "fds_ok cn (set xs \<union> set ys \<union> W)" and c: "c \<in> set xs"
    and rw: "rd \<subseteq> {socket_fd (clients cn c)}" "wr \<subseteq> {socket_fd (clients cn c)}"
  shows "\<forall>x \<in> set xs - {c}. idle_client rd wr (clients cn x)"
proof
  fix x assume x: "x \<in> set xs - {c}"
  then have "com_client (clients cn x)" using conn by (simp add: conn_inv_def)
  moreover have "socket_fd (clients cn x) \<noteq> socket_fd (clients cn c)"
    using f c x by (auto simp: fds_ok_def inj_on_def)
  ultimately show "idle_client rd wr (clients cn x)"
    using com_client_phase [of "clients cn x"] rw by (auto simp: idle_client_def com_client_def)
qed

lemma solo_turn:
  assumes inv: "system_inv cap s xs ys W L" and sel: "selected s = None"
    and on: "\<not> is_signaled (stop_signal (conn s))" and c: "c \<in> set xs" and env: "env_ok env"
    and rw: "rd = (if io_state (clients (conn s) c) = READ then {socket_fd (clients (conn s) c)} else {})"
      "wr = (if io_state (clients (conn s) c) = WRITE then {socket_fd (clients (conn s) c)} else {})"
    and io: "client_io cb env rd wr (conn s) c = Some cn'" "only_client c (conn s) cn'"
  shows "recorded_run cb penv srv (s, t)
    (s\<lparr>conn := cn', selected := None\<rparr>, turn_traffic env rd wr c (clients (conn s) c) t)"
proof -
  let ?cn = "conn s"
  have conn: "conn_inv cap L ?cn xs ys W" and f: "fds_ok ?cn (set xs \<union> set ys \<union> W)"
    using inv by (simp_all add: system_inv_def)
  from build_fd_sets_eq [OF conn f] obtain RD WR m where
    b: "build_fd_sets ?cn = Some (RD, WR, m)" "rd \<subseteq> RD" "wr \<subseteq> WR"
    using c rw by (auto simp: fds_of_def)
  obtain fd where fd: "accepted_ok ?cn (used_objects (client_pool ?cn)) (Accepted fd [] 0)"
    using fresh_descriptor [OF conn] by blast
  let ?it = "quiet_iteration env fd"
  have v: "valid_select_fd (server_fd ?cn)" "valid_select_fd (trigger_read_fd ?cn)"
    "server_fd ?cn \<notin> rd" "trigger_read_fd ?cn \<notin> rd"
    using f c rw(1) by (auto simp: fds_ok_def)
  have idle: "\<forall>x \<in> set xs - {c}. idle_client rd wr (clients ?cn x)"
    by (rule others_idle [OF conn f c]) (simp_all add: rw)
  have d: "distinct xs" using conn conn_core_distinct [of cap ?cn xs ys W] by (simp add: conn_inv_def)
  note pass = serve_all_only [OF d c idle io]
  have match: "sets_match ?cn xs rd wr"
    using f c rw by (auto simp: sets_match_def fds_ok_def inj_on_def)
  from io_pass_serves [OF conn env match] have iop: "io_pass cb env rd wr ?cn = Some cn'"
    by (auto simp: pass)
  have stay: "accepting cb ?it rd ?cn = ?cn" "draining rd ?cn = ?cn" using v by (simp_all add: draining_def)
  have as: "after_select cb ?it rd wr ?cn = Some cn'"
    using after_select_pass [of ?cn rd ?it wr] v iop unfolding stay by simp
  have "serve_traffic cb ?it rd wr ?cn t = turn_traffic env rd wr c (clients ?cn c) t"
    using conn_inv_lists(1) [OF conn] unfolding serve_traffic_def Let_def stay by (simp add: pass)
  then show ?thesis by (rule iteration_run [OF sel on b env fd as])
qed

end

section \<open>Accepting and reading a request\<close>

context char_buffer begin

text \<open>The selector accepts a connection and serves nobody.\<close>

lemma accepted_idle:
  assumes conn: "conn_inv cap L cn1 (xs @ [c]) ys W" "only_client c cn cn1"
    and f: "fds_ok cn (set xs \<union> set ys \<union> W)" and c: "socket_fd (clients cn1 c) \<noteq> server_fd cn"
  shows "\<forall>x \<in> set (xs @ [c]). idle_client {server_fd cn} {} (clients cn1 x)"
proof
  fix x assume x: "x \<in> set (xs @ [c])"
  then have com: "com_client (clients cn1 x)" using conn(1) unfolding conn_inv_def by blast
  have "socket_fd (clients cn1 x) \<noteq> server_fd cn"
  proof (cases "x = c")
    case False
    with x have "x \<in> set xs" by simp
    then show ?thesis using f only_client_preds(4) [OF conn(2) False] by (auto simp: fds_ok_def)
  qed (use c in simp)
  with com com_client_phase [OF com] show "idle_client {server_fd cn} {} (clients cn1 x)"
    by (simp add: idle_client_def com_client_def)
qed

lemma solo_accept:
  assumes inv: "system_inv cap s xs ys W L" and sel: "selected s = None"
    and on: "\<not> is_signaled (stop_signal (conn s))" and free: "get_free_count (client_pool (conn s)) \<ge> 1"
  shows "\<exists>cn' c t'. recorded_run cb penv srv (s, t) (s\<lparr>conn := cn', selected := None\<rparr>, t') \<and>
    com_list cn' = xs @ [c] \<and> action_list cn' = ys \<and> reading (clients cn' c) \<and> heard t' c = [] \<and>
    exchanges t' = exchanges t \<and> same_descriptors (conn s) cn'"
proof -
  let ?cn = "conn s"
  let ?rd = "{server_fd ?cn}"
  have conn: "conn_inv cap L ?cn xs ys W" and f: "fds_ok ?cn (set xs \<union> set ys \<union> W)"
    using inv by (simp_all add: system_inv_def)
  from build_fd_sets_eq [OF conn f] obtain RD WR m where
    b: "build_fd_sets ?cn = Some (RD, WR, m)" "?rd \<subseteq> RD" "{} \<subseteq> WR"
    using free by auto
  obtain fd where fd: "accepted_ok ?cn (used_objects (client_pool ?cn)) (Accepted fd [] 0)"
    using fresh_descriptor [OF conn] by blast
  let ?it = "quiet_iteration (feeding []) fd"
  have it: "os_accept ?it = Accepted fd [] 0" by simp
  have fd': "valid_select_fd fd" "fd \<noteq> server_fd ?cn" using fd by (auto simp: accepted_ok_def)
  have al: "alloc_index (client_pool ?cn) > 0" using free by (simp add: get_free_count_def)
  from accept_connection_inv [OF conn it _ fd'(1) al] obtain c where
    c: "c \<notin> set xs \<union> set ys \<union> W" "conn_inv cap L (accepting cb ?it ?rd ?cn) (xs @ [c]) ys W"
      "only_client c ?cn (accepting cb ?it ?rd ?cn)" "socket_fd (clients (accepting cb ?it ?rd ?cn) c) = fd"
      "link.more (clients (accepting cb ?it ?rd ?cn) c) =
        link.more (new_client cb (os_accept ?it) (server_domain ?cn) (clients ?cn c))"
      "same_descriptors ?cn (accepting cb ?it ?rd ?cn)"
    by auto
  define cn1 where "cn1 = accepting cb ?it ?rd ?cn"
  note c = c [folded cn1_def]
  have v: "valid_select_fd (server_fd ?cn)" "valid_select_fd (trigger_read_fd ?cn)"
    "trigger_read_fd ?cn \<notin> ?rd" "trigger_read_fd cn1 = trigger_read_fd ?cn"
    using f c(6) by (simp_all add: fds_ok_def same_descriptors_def)
  have stay: "draining ?rd cn1 = cn1" unfolding draining_def v(4) by (rule if_not_P [OF v(3)])
  have "socket_fd (clients cn1 c) \<noteq> server_fd ?cn" using c(4) fd'(2) by simp
  note idle = accepted_idle [OF c(2,3) f this]
  note pass = serve_all_idle [OF idle]
  have match: "sets_match cn1 (xs @ [c]) ?rd {}"
    using idle by (simp add: sets_match_def idle_client_def)
  from io_pass_serves [OF c(2) feeding_ok [of "[]"] match] have "io_pass cb (feeding []) ?rd {} cn1 = Some cn1"
    by (auto simp: pass)
  then have as: "after_select cb ?it ?rd {} ?cn = Some cn1"
    using after_select_pass [of ?cn ?rd ?it "{}"] v unfolding cn1_def [symmetric] stay by simp
  note lists = conn_inv_lists [OF conn] conn_inv_lists [OF c(2)]
  let ?t' = "fresh_traffic c t"
  have "filter (\<lambda>x. x \<notin> set xs) (xs @ [c]) = [c]" using c(1) by (simp add: filter_empty_conv)
  then have tr: "serve_traffic cb ?it ?rd {} ?cn t = ?t'"
    unfolding serve_traffic_def Let_def cn1_def [symmetric] stay lists by (simp add: pass)
  have run: "recorded_run cb penv srv (s, t) (s\<lparr>conn := cn1, selected := None\<rparr>, ?t')"
    by (rule iteration_run [OF sel on b feeding_ok fd as tr])
  have "com_client (clients cn1 c)" using c(2) unfolding conn_inv_def by simp
  moreover have "io_state (clients cn1 c) = READ"
    unfolding state_more_cong(5) [OF c(5)] by (simp add: new_client_def)
  ultimately have "reading (clients cn1 c)" by (auto simp: com_client_def writing_def)
  then show ?thesis
    using run lists c(6) by (intro exI [of _ cn1] exI [of _ c] exI [of _ ?t']) (simp add: fresh_traffic_def)
qed

text \<open>What one call of \<open>recv\<close> makes of the rest of a request.\<close>

lemma receive_rest:
  assumes inv: "recv_inv cl" and h: "heard_ok cb cl bs" and req: "bs @ rest = req" "rest \<noteq> []"
      "frame_length req = length req"
    and rb: "receive_bytes cl (take (req_read_size cl) rest) = (f, cl')"
  shows "if f then drop (req_read_size cl) rest = [] else drop (req_read_size cl) rest \<noteq> [] \<and> recv_inv cl'"
proof -
  let ?n = "req_read_size cl" and ?data = "take (req_read_size cl) rest"
  have data: "?data \<noteq> []" using req_read_size_bounds(1) [OF inv] req(2) by simp
  have rb': "receive_bytes cl (take (length ?data) (drop (io_offset cl) req)) = (f, cl')"
  proof -
    have "drop (io_offset cl) req = rest" using h req(1) by (auto simp: heard_ok_def)
    moreover have "take (length ?data) rest = ?data" by (cases "?n \<le> length rest") simp_all
    ultimately show ?thesis using rb by simp
  qed
  have "has_read cl req" unfolding req(1) [symmetric] by (rule has_read_append [OF inv h])
  from receive_bytes_has_read [OF inv this _ _ rb'] h req(1) have
    hr: "has_read cl' req" "io_offset cl' = length (bs @ ?data)"
    by (auto simp: heard_ok_def)
  have split: "(bs @ ?data) @ drop ?n rest = req" using req(1) by simp
  show ?thesis
  proof (cases f)
    case True
    then have mc: "message_complete cl'" using receive_bytes_inv [OF inv _ rb] data by simp
    with hr(1) obtain g where "header cl' = cap_data_length (deserialize g req)"
      by (auto simp: has_read_def message_complete_def)
    with mc frame_length_header [of req g] hr(2) req(3) have "length (bs @ ?data) = length req"
      by (simp add: message_complete_def)
    with split True show ?thesis by (metis append_eq_conv_conj drop_all order_refl)
  next
    case False
    then have ri: "recv_inv cl'" using receive_bytes_inv [OF inv _ rb] data by simp
    have "length (bs @ ?data) < length req"
      using read_within_frame [OF ri hr(1)] req_read_size_bounds(1) [OF ri] hr(2) req(3) by simp
    with split ri False show ?thesis by auto
  qed
qed

text \<open>One more piece of the request: the client goes on reading, or the message is complete.\<close>

lemma read_piece:
  assumes inv: "system_inv cap s xs ys W L" "traffic_inv cb penv srv s t" and sel: "selected s = None"
    and on: "\<not> is_signaled (stop_signal (conn s))" and c: "c \<in> set xs" and rd: "reading (clients (conn s) c)"
    and req: "heard t c @ rest = req" "rest \<noteq> []" "frame_length req = length req"
  shows "\<exists>cn' t' rest'. recorded_run cb penv srv (s, t) (s\<lparr>conn := cn', selected := None\<rparr>, t') \<and>
    stop_signal cn' = stop_signal (conn s) \<and> exchanges t' = exchanges t \<and> heard t' c @ rest' = req \<and>
    length rest' < length rest \<and>
    (rest' \<noteq> [] \<and> com_list cn' = xs \<and> action_list cn' = ys \<and> reading (clients cn' c) \<or>
     rest' = [] \<and> com_list cn' = remove1 c xs \<and> action_list cn' = ys @ [c])"
proof -
  let ?cn = "conn s" and ?cl = "clients (conn s) c" and ?env = "feeding rest"
  have conn: "conn_inv cap L ?cn xs ys W" using inv(1) by (simp add: system_inv_def)
  have com: "io_state ?cl = READ" "recv_inv ?cl" "valid_select_fd (socket_fd ?cl)" "current_phase ?cl \<noteq> CANCELED"
    using rd conn c by (auto simp: reading_def conn_inv_def com_client_def)
  have h: "heard_ok cb ?cl (heard t c)"
    using inv(2) c com(1) system_inv_lost(2) [OF inv(1)]
    by (auto simp: traffic_inv_def conn_traffic_def com_traffic_def)
  let ?n = "req_read_size ?cl" and ?data = "take (req_read_size ?cl) rest"
  have n: "0 < ?n" by (rule req_read_size_bounds(1) [OF com(2)])
  then have data: "?data \<noteq> []" using req(2) by simp
  have rcv: "os_recv ?env fd ?n = Received ?data" for fd using data by (simp add: feeding_def)
  obtain f cl' where rb: "receive_bytes ?cl ?data = (f, cl')" by fastforce
  have m: "receive_message cb (os_recv ?env) ?cn c = (f, set_client c cl' ?cn)"
    using data rb by (simp add: receive_message_def rcv Let_def)
  define cn' where "cn' = (if f then finish_receive cb (set_client c cl' ?cn) c else set_client c cl' ?cn)"
  let ?fd = "{socket_fd ?cl}"
  have io: "client_io cb ?env ?fd {} ?cn c = Some cn'"
    using com(3,4) m by (simp add: client_io_def Let_def FD_ISSET_def cn'_def)
  from receive_turn [OF conn c rd feeding_ok m] obtain xs' ys' where
    r: "conn_inv cap L cn' xs' ys' W" "turn_result c xs ys xs' ys'" "only_client c ?cn cn'"
    and fin: "f \<longrightarrow> ys' = ys @ [c]" "\<not> f \<and> valid_select_fd (socket_fd cl') \<longrightarrow> xs' = xs \<and> ys' = ys"
    unfolding cn'_def by auto
  let ?t' = "note_received c ?data t"
  have tr: "turn_traffic ?env ?fd {} c ?cl t = ?t'" by (simp add: turn_traffic_def rcv)
  have run: "recorded_run cb penv srv (s, t) (s\<lparr>conn := cn', selected := None\<rparr>, ?t')"
    using solo_turn [OF inv(1) sel on c feeding_ok _ _ io r(3), of penv srv t] com(1) tr by simp
  have same: "stop_signal cn' = stop_signal ?cn"
    using keeps_fd_trans [OF keeps_fd_receive [OF m] keeps_fd_finish_receive] keeps_fd_receive [OF m]
    by (simp add: cn'_def keeps_fd_def)
  let ?rest = "drop ?n rest"
  have hd': "heard ?t' c @ ?rest = req" using req(1) by (simp add: note_received_def)
  have len: "length ?rest < length rest" using n req(2) by simp
  note lists = conn_inv_lists [OF r(1)]
  have split: "if f then ?rest = [] else ?rest \<noteq> [] \<and> recv_inv cl'"
    by (rule receive_rest [OF com(2) h req rb])
  show ?thesis
  proof (cases f)
    case True
    with split have "?rest = []" by simp
    moreover have "xs' = remove1 c xs" "ys' = ys @ [c]" using fin(1) r(2) True by (auto simp: turn_result_def)
    ultimately show ?thesis
      using run same lists hd' len
      by (intro exI [of _ cn'] exI [of _ ?t'] exI [of _ ?rest]) (simp add: note_received_def)
  next
    case False
    with split have ne: "?rest \<noteq> []" "recv_inv cl'" by simp_all
    note sel' = receive_bytes_sel [OF rb]
    have "reading (clients cn' c)" using rd ne(2) False by (simp add: cn'_def reading_def sel')
    moreover have "xs' = xs" "ys' = ys" using fin(2) False com(3) by (simp_all add: sel')
    ultimately show ?thesis
      using run same lists hd' len ne(1)
      by (intro exI [of _ cn'] exI [of _ ?t'] exI [of _ ?rest]) (simp add: note_received_def)
  qed
qed

lemma read_request:
  assumes "recorded_inv cap cb penv srv (s, t)" and "table_complete (plugin_functions srv)"
    and "selected s = None" and "\<not> is_signaled (stop_signal (conn s))"
    and "c \<in> set (com_list (conn s))" and "reading (clients (conn s) c)"
    and "heard t c @ rest = req" and "rest \<noteq> []" and "frame_length req = length req"
  shows "\<exists>cn' t'. recorded_run cb penv srv (s, t) (s\<lparr>conn := cn', selected := None\<rparr>, t') \<and>
    stop_signal cn' = stop_signal (conn s) \<and> exchanges t' = exchanges t \<and> heard t' c = req \<and>
    action_list cn' = action_list (conn s) @ [c]"
  using assms
proof (induction "length rest" arbitrary: s t rest rule: less_induct)
  case less
  from less.prems(1) obtain xs ys W L where inv: "system_inv cap s xs ys W L" "traffic_inv cb penv srv s t"
    by (auto simp: recorded_inv_def)
  note lists = system_inv_lost(2,3) [OF inv(1)]
  from read_piece [OF inv less.prems(3,4) less.prems(5) [unfolded lists] less.prems(6-9)]
  obtain cn1 t1 rest1 where p: "recorded_run cb penv srv (s, t) (s\<lparr>conn := cn1, selected := None\<rparr>, t1)"
    "stop_signal cn1 = stop_signal (conn s)" "exchanges t1 = exchanges t" "heard t1 c @ rest1 = req"
    "length rest1 < length rest"
    and r: "rest1 \<noteq> [] \<and> com_list cn1 = xs \<and> action_list cn1 = ys \<and> reading (clients cn1 c) \<or>
     rest1 = [] \<and> com_list cn1 = remove1 c xs \<and> action_list cn1 = ys @ [c]" by metis
  show ?case
  proof (cases "rest1 = []")
    case True
    with p r show ?thesis unfolding lists by (intro exI [of _ cn1] exI [of _ t1]) simp
  next
    case False
    let ?s1 = "s\<lparr>conn := cn1, selected := None\<rparr>"
    have "recorded_inv cap cb penv srv (?s1, t1)" by (rule recorded_run_inv [OF p(1) less.prems(2,1)])
    from less.hyps [OF p(5) this less.prems(2) _ _ _ _ p(4) False less.prems(9)] r False p(2) less.prems(4,5)
    obtain cn' t' where q: "recorded_run cb penv srv (?s1, t1) (?s1\<lparr>conn := cn', selected := None\<rparr>, t')"
      "stop_signal cn' = stop_signal cn1" "exchanges t' = exchanges t1" "heard t' c = req"
      "action_list cn' = action_list cn1 @ [c]"
      by (auto simp: lists)
    from rtranclp_trans [OF p(1) q(1)] p(2,3) q r False show ?thesis
      unfolding lists by (intro exI [of _ cn'] exI [of _ t']) simp
  qed
qed

end

section \<open>Executing it and sending the reply\<close>

lemma request_bytes_type:
  assumes "well_formed kvs"
  shows "bytes_to_field_value (request_bytes m kvs) MSG_TYPE_OFFSET = msg_type_code m"
proof -
  have "msg_type (deserialize new_msg_header (request_bytes m kvs)) = msg_type_code m"
    using request_bytes_sel(3) [of kvs new_msg_header m] assms by (simp add: well_formed_def)
  then show ?thesis by (simp add: deserialize_def)
qed

context char_buffer begin

text \<open>Taking, executing and finishing are three steps of one worker.\<close>

lemma worker_run_recorded:
  assumes take: "worker_take (conn s) = (Some c, cn1)"
    and ex: "worker_execute cb penv srv cn1 c (plugin s) = Normal (cn2, p')"
    and fin: "worker_finish cb [WROTE] cn2 c = Some cn3" and c: "c \<notin> taken s" "c \<notin> executed s"
  shows "recorded_run cb penv srv (s, t)
    (s\<lparr>conn := cn3, plugin := p'\<rparr>, t\<lparr>called := (called t)(c := (plugin s, p'))\<rparr>)"
proof -
  let ?s1 = "s\<lparr>conn := cn1, taken := insert c (taken s)\<rparr>"
  let ?s2 = "s\<lparr>conn := cn2, executed := insert c (executed s), plugin := p'\<rparr>"
  let ?s3 = "?s2\<lparr>conn := cn3, executed := executed ?s2 - {c}\<rparr>"
  let ?t2 = "t\<lparr>called := (called t)(c := (plugin s, p'))\<rparr>"
  have step1: "recorded_step cb penv srv (s, t) (?s1, t)"
    by (rule recorded_step.other [OF server_step.take [OF take]]) (cases "selected s"; simp)+
  have "recorded_step cb penv srv (?s1, t)
      (?s1\<lparr>conn := cn2, taken := taken ?s1 - {c}, executed := insert c (executed ?s1), plugin := p'\<rparr>,
       t\<lparr>called := (called t)(c := (plugin ?s1, p'))\<rparr>)"
    by (rule recorded_step.execute) (use ex in simp_all)
  then have step2: "recorded_step cb penv srv (?s1, t) (?s2, ?t2)" using c(1) by simp
  have "writes_end [WROTE]" by (simp add: writes_end_def)
  then have "server_step cb penv srv ?s2 ?s3"
    by (rule server_step.finish [rotated]) (use fin in simp_all)
  then have step3: "recorded_step cb penv srv (?s2, ?t2) (?s3, ?t2)"
    by (rule recorded_step.other) (cases "selected s"; auto)+
  have "?s3 = s\<lparr>conn := cn3, plugin := p'\<rparr>" using c(2) by simp
  with three_steps [of "recorded_step cb penv srv", OF step1 step2 step3] show ?thesis by simp
qed

lemma execute_request:
  assumes inv: "recorded_inv cap cb penv srv (s, t)" and table: "table_complete (plugin_functions srv)"
    and on: "\<not> is_signaled (stop_signal (conn s))" and q: "action_list (conn s) = [c]"
    and proc: "\<And>cl. client_caps cap cl \<Longrightarrow> heard_ok cb cl (heard t c) \<Longrightarrow> message_complete cl \<Longrightarrow>
      \<exists>cl'. process_client_message cb penv srv cl (plugin s) = Normal (cl', p') \<and> reply_ready cl'"
  shows "\<exists>cn' t'. recorded_run cb penv srv (s, t) (s\<lparr>conn := cn', plugin := p'\<rparr>, t') \<and>
    stop_signal cn' = stop_signal (conn s) \<and> c \<in> set (com_list cn') \<and> writing (clients cn' c) \<and>
    heard t' c = heard t c \<and> called t' c = (plugin s, p') \<and> exchanges t' = exchanges t"
proof -
  from inv obtain xs ys W L where i: "system_inv cap s xs ys W L" "traffic_inv cb penv srv s t"
    by (auto simp: recorded_inv_def)
  have conn: "conn_inv cap L (conn s) xs ys W" and L: "L \<subseteq> W" and te: "taken s \<union> executed s = W - L"
    using i(1) by (simp_all add: system_inv_def)
  have ys: "ys = [c]" using system_inv_lost(3) [OF i(1)] q by simp
  have nc: "c \<notin> W" "c \<notin> taken s" "c \<notin> executed s" "c \<notin> L"
    using conn ys L te by (auto simp: conn_inv_def conn_core_def)
  from worker_take_inv [OF conn L] ys obtain cn1 where
    take: "worker_take (conn s) = (Some c, cn1)" "conn_inv cap L cn1 xs [] (insert c W)"
      "link.more (clients cn1 c) = link.more (clients (conn s) c)" "same_descriptors (conn s) cn1"
    by auto
  have "waiting_traffic cb (clients (conn s) c) t c"
    using i(2) q by (simp add: traffic_inv_def conn_traffic_def)
  then have w: "waiting_traffic cb (clients cn1 c) t c"
    using waiting_traffic_cong [OF take(3) notes_other(5)] by blast
  let ?cl = "(clients cn1 c)\<lparr>current_phase := EXECUTING\<rparr>"
  have cW: "c \<in> insert c W - L" using nc by simp
  have "client_ok cap (clients cn1 c)" using take(2) by (simp add: conn_inv_def conn_core_def)
  then have caps: "client_caps cap ?cl" by (simp add: client_ok_def client_caps_def)
  with proc [of ?cl] w obtain cl' where
    act: "process_client_message cb penv srv ?cl (plugin s) = Normal (cl', p')" "reply_ready cl'"
    by (auto simp: waiting_traffic_def)
  let ?cn2 = "set_client c cl' cn1"
  have ex: "worker_execute cb penv srv cn1 c (plugin s) = Normal (?cn2, p')"
    using act(1) by (simp add: worker_execute_def)
  have i2: "conn_inv cap L ?cn2 xs [] (insert c W)"
  proof -
    from worker_execute_inv [OF take(2) cW table, of penv "plugin s"] ex obtain cl2 p2 where
      "?cn2 = set_client c cl2 cn1" "conn_inv cap L (set_client c cl2 cn1) xs [] (insert c W)" by auto
    then show ?thesis by metis
  qed
  let ?t2 = "t\<lparr>called := (called t)(c := (plugin s, p'))\<rparr>"
  have rs: "writes_end [WROTE]" by (simp add: writes_end_def)
  have on2: "\<not> is_signaled (stop_signal ?cn2)" using on take(4) by (simp add: same_descriptors_def)
  from worker_requeue_inv [OF i2 cW _ on2 rs] act(2) obtain cn3 where
    fin: "worker_finish cb [WROTE] ?cn2 c = Some cn3" "conn_inv cap L cn3 (xs @ [c]) [] (insert c W - {c})"
      "link.more (clients cn3 c) = link.more cl'" "same_descriptors ?cn2 cn3"
    by auto
  have run: "recorded_run cb penv srv (s, t) (s\<lparr>conn := cn3, plugin := p'\<rparr>, ?t2)"
    by (rule worker_run_recorded [OF take(1) ex fin(1) nc(2,3)])
  have list: "com_list cn3 = xs @ [c]" by (rule conn_inv_lists(1) [OF fin(2)])
  have "com_client (clients cn3 c)" using fin(2) by (simp add: conn_inv_def)
  moreover have "io_state (clients cn3 c) = WRITE"
    using state_more_cong(5) [OF fin(3)] act(2) by (simp add: reply_ready_def)
  ultimately have "writing (clients cn3 c)" by (auto simp: com_client_def reading_def)
  with run list take(4) fin(4) show ?thesis
    by (intro exI [of _ cn3] exI [of _ ?t2]) (simp add: same_descriptors_def)
qed

lemma send_reply:
  assumes inv: "recorded_inv cap cb penv srv (s, t)" and sel: "selected s = None"
    and on: "\<not> is_signaled (stop_signal (conn s))" and c: "c \<in> set (com_list (conn s))"
    and wr: "writing (clients (conn s) c)"
  shows "\<exists>cn' t'. recorded_run cb penv srv (s, t) (s\<lparr>conn := cn', selected := None\<rparr>, t') \<and>
    exchanges t' = exchanges t @ [(heard t c, called t c, pending_reply (clients (conn s) c))]"
proof -
  from inv obtain xs ys W L where i: "system_inv cap s xs ys W L" "traffic_inv cb penv srv s t"
    by (auto simp: recorded_inv_def)
  let ?cn = "conn s" and ?cl = "clients (conn s) c" and ?env = "feeding []"
  let ?p = "prepare_send ?cl"
  have conn: "conn_inv cap L ?cn xs ys W" using i(1) by (simp add: system_inv_def)
  have xs: "com_list ?cn = xs" "c \<in> set xs" using system_inv_lost(2) [OF i(1)] c by simp_all
  have com: "io_state ?cl = WRITE" "valid_select_fd (socket_fd ?cl)" "current_phase ?cl \<noteq> CANCELED"
    using wr conn xs(2) by (auto simp: writing_def conn_inv_def com_client_def)
  have ps: "send_inv ?p" "have_header ?p" using wr prepare_send_inv by (auto simp: writing_def)
  let ?n = "length (send_buffer ?p)"
  obtain f cl' where sb: "sent_bytes ?p ?n = (f, cl')" by fastforce
  note s = sent_bytes_inv [OF ps order_refl sb]
  have f: f using s send_buffer_eq(2) [OF ps] ps by (simp add: send_inv_def)
  have m: "send_message cb (os_send ?env) ?cn c = (True, set_client c cl' ?cn)"
    using sb f by (simp add: send_message_def Let_def feeding_def)
  define cn' where "cn' = finish_send cb (set_client c cl' ?cn) c"
  let ?fd = "{socket_fd ?cl}"
  have io: "client_io cb ?env {} ?fd ?cn c = Some cn'"
    using com(2,3) m by (simp add: client_io_def Let_def FD_ISSET_def cn'_def)
  from send_turn [OF conn xs(2) wr feeding_ok m] have oc: "only_client c ?cn cn'"
    unfolding cn'_def by auto
  let ?t1 = "note_sent c (send_buffer ?p) t"
  have tr: "turn_traffic ?env {} ?fd c ?cl t = note_exchange c ?t1"
    using sb f by (simp add: turn_traffic_def feeding_def Let_def)
  have "io_offset ?p = io_offset ?cl" by (simp add: prepare_send_def Let_def)
  then have "said t c = take (io_offset ?p) (pending_reply ?p)"
    using i(2) xs com(1) by (auto simp: traffic_inv_def conn_traffic_def com_traffic_def)
  then have "said ?t1 c = pending_reply ?p"
    using sent_bytes_reply(2,3) [OF ps order_refl sb] f by (simp add: note_sent_def)
  then have "exchanges (note_exchange c ?t1) = exchanges t @ [(heard t c, called t c, pending_reply ?cl)]"
    by (simp add: note_exchange_def fresh_traffic_def) (simp add: note_sent_def)
  with solo_turn [OF i(1) sel on xs(2) feeding_ok [of "[]"] _ _ io oc, of penv srv t] com(1) show ?thesis
    unfolding tr by auto
qed

text \<open>From the connection to the reply.\<close>

lemma request_served:
  assumes inv: "recorded_inv cap cb penv srv (s, t)" and table: "table_complete (plugin_functions srv)"
    and sel: "selected s = None" and on: "\<not> is_signaled (stop_signal (conn s))"
    and idle: "action_list (conn s) = []" and free: "get_free_count (client_pool (conn s)) \<ge> 1"
    and req: "req \<noteq> []" "frame_length req = length req"
    and proc: "\<And>cl. client_caps cap cl \<Longrightarrow> heard_ok cb cl req \<Longrightarrow> message_complete cl \<Longrightarrow>
      \<exists>cl'. process_client_message cb penv srv cl (plugin s) = Normal (cl', p') \<and> reply_ready cl'"
  shows "\<exists>s' t' reply. recorded_run cb penv srv (s, t) (s', t') \<and> plugin s' = p' \<and>
    exchanges t' = exchanges t @ [(req, (plugin s, p'), reply)] \<and> answers penv srv req (plugin s, p') reply"
proof -
  note keep = recorded_run_inv [OF _ table inv]
  from inv obtain xs ys W L where i: "system_inv cap s xs ys W L" by (auto simp: recorded_inv_def)
  from solo_accept [OF i sel on free, of penv srv t] obtain cn1 c t1 where
    a: "recorded_run cb penv srv (s, t) (s\<lparr>conn := cn1, selected := None\<rparr>, t1)" "com_list cn1 = xs @ [c]"
      "action_list cn1 = ys" "reading (clients cn1 c)" "heard t1 c = []" "exchanges t1 = exchanges t"
      "same_descriptors (conn s) cn1" by blast
  have ys: "ys = []" using system_inv_lost(3) [OF i] idle by simp
  have on1: "\<not> is_signaled (stop_signal cn1)" using a(7) on by (simp add: same_descriptors_def)
  let ?s1 = "s\<lparr>conn := cn1, selected := None\<rparr>"
  from read_request [OF keep [OF a(1)] table, of c req req] a(2-6) ys on1 req obtain cn2 t2 where
    r: "recorded_run cb penv srv (?s1, t1) (?s1\<lparr>conn := cn2, selected := None\<rparr>, t2)"
      "\<not> is_signaled (stop_signal cn2)" "exchanges t2 = exchanges t" "heard t2 c = req" "action_list cn2 = [c]"
    by auto
  let ?s2 = "s\<lparr>conn := cn2, selected := None\<rparr>"
  have run2: "recorded_run cb penv srv (s, t) (?s2, t2)" using rtranclp_trans [OF a(1) r(1)] by simp
  from execute_request [OF keep [OF run2] table, of c p'] r(2-5) proc obtain cn3 t3 where
    e: "recorded_run cb penv srv (?s2, t2) (?s2\<lparr>conn := cn3, plugin := p'\<rparr>, t3)"
      "\<not> is_signaled (stop_signal cn3)" "c \<in> set (com_list cn3)" "writing (clients cn3 c)"
      "heard t3 c = req" "called t3 c = (plugin s, p')" "exchanges t3 = exchanges t"
    by auto
  let ?s3 = "s\<lparr>selected := None, conn := cn3, plugin := p'\<rparr>"
  have run3: "recorded_run cb penv srv (s, t) (?s3, t3)" using rtranclp_trans [OF run2 e(1)] by simp
  let ?reply = "pending_reply (clients cn3 c)"
  from send_reply [OF keep [OF run3], of c] e(2-7) obtain cn4 t4 where
    f: "recorded_run cb penv srv (?s3, t3) (?s3\<lparr>conn := cn4, selected := None\<rparr>, t4)"
      "exchanges t4 = exchanges t @ [(req, (plugin s, p'), ?reply)]" by auto
  have run4: "recorded_run cb penv srv (s, t) (?s3\<lparr>conn := cn4, selected := None\<rparr>, t4)"
    by (rule rtranclp_trans [OF run3 f(1)])
  have "exchanges_ok penv srv t4"
    using keep [OF run4] by (simp add: recorded_inv_def traffic_inv_def conn_traffic_def)
  then have "answers penv srv req (plugin s, p') ?reply" using f(2) by (simp add: exchanges_ok_def)
  with run4 f(2) show ?thesis
    by (intro exI [of _ "?s3\<lparr>conn := cn4, selected := None\<rparr>"] exI [of _ t4] exI [of _ ?reply]) simp
qed

lemma fence_request_ready:
  assumes caps: "client_caps cap cl" and h: "heard_ok cb cl (request_bytes m kvs)" and mc: "message_complete cl"
    and kvs: "well_formed kvs" "apply_fields kvs ([], []) = Some (node, pass)" "node \<noteq> []"
    and f: "fence_function m (plugin_functions srv) = Some f"
    and call: "call_fence penv f (plugin_context srv) node (length node) p = (ok, p')"
  shows "\<exists>cl'. process_client_message cb penv srv cl p = Normal (cl', p') \<and> reply_ready cl'"
proof -
  note req = heard_request [OF h mc]
  have code: "msg_type (header cl) = msg_type_code m" using req(1) request_bytes_type [OF kvs(1)] by simp
  have ap: "apply_fields kvs (cb_c_str cb (nodename cl), cb_c_str cb (secret cl)) = Some (node, pass)"
    using h kvs(2) by (simp add: heard_ok_def)
  let ?fence = "\<lambda>n s p. Some (call_fence penv f (plugin_context srv) (cb_c_str cb n) (cb_length cb n) p)"
  from fence_action_ok [OF caps req(2) [OF kvs(1) refl] ap kvs(3), of ?fence p] call
  obtain cl2 where "fence_action cb ?fence cl p = Normal (fence_reply ok cl2, p')" "io_offset cl2 = 0" "\<not> have_header cl2"
    by (auto simp: length_str)
  with process_fence_message [OF f code, of cb penv p] fence_reply_ready [of cl2 ok] show ?thesis by simp
qed

end

lemma answers_fenceD:
  assumes a: "answers penv srv (request_bytes m kvs) (p, p') reply"
    and kvs: "well_formed kvs" "apply_fields kvs ([], []) = Some (node, pass)"
    and f: "fence_function m (plugin_functions srv) = Some f"
    and call: "call_fence penv f (plugin_context srv) node (length node) p = (ok, p')"
  shows "reply = bare_message (if ok then FENCE_SUCCESS else FENCE_FAIL)"
proof -
  have "switch_msg_type (bytes_to_field_value (request_bytes m kvs) MSG_TYPE_OFFSET) = Some m"
    by (simp add: request_bytes_type [OF kvs(1)])
  moreover have "m \<in> {FENCE_OFF, FENCE_ON, FENCE_REBOOT}" using f by (cases m) simp_all
  ultimately obtain node' ok' where r: "names_node (request_bytes m kvs) node'"
    "call_fence penv f (plugin_context srv) node' (length node') p = (ok', p')"
    "reply = bare_message (if ok' then FENCE_SUCCESS else FENCE_FAIL)"
    using a f unfolding answers_def by (elim insertE) auto
  from r(1) have "node' = node" by (simp add: names_request [OF kvs])
  with r(2,3) call show ?thesis by simp
qed

section \<open>Properties\<close>

text \<open>
  Property C2. No client ever gets an answer that is not the one to its request: in every run
  of the server, with any number of clients, however the threads interleave and the bytes are
  cut, each reply that has gone out on a connection answers the request received on it, and
  what is on its way of a reply is the beginning of such an answer. A \<open>FENCE_SUCCESS\<close> therefore
  means that the plugin function of the requested action was called, for the node the request
  names, whatever its bytes, and returned true.
\<close>

theorem every_reply_answers_its_request:
  assumes cb: "char_buffer cb cap" and table: "table_complete (plugin_functions srv)"
    and g: "IO_BUFFER_SIZE \<le> length garbage"
    and fds: "valid_select_fd sfd" "valid_select_fd rfd" "sfd \<noteq> rfd"
    and run: "recorded_run cb penv srv
      (start_system (started_connector cb garbage d sh sfd rfd wfd) p, silence p) (s, t)"
  shows "(\<forall>(req, calls, reply) \<in> set (exchanges t). answers penv srv req calls reply) \<and>
    (\<forall>c \<in> set (com_list (conn s)). said t c \<noteq> [] \<longrightarrow>
       (\<exists>reply. answers penv srv (heard t c) (called t c) reply \<and> said t c = take (length (said t c)) reply))"
proof -
  have "recorded_inv cap cb penv srv (s, t)"
    by (rule char_buffer.recorded_run_inv [OF cb run table start_recorded [OF cb g fds]])
  then have tr: "conn_traffic cb penv srv (conn s) t (com_list (conn s)) (action_list (conn s))"
    by (simp add: recorded_inv_def traffic_inv_def)
  have "\<exists>reply. answers penv srv (heard t c) (called t c) reply \<and> said t c = take (length (said t c)) reply"
    if c: "c \<in> set (com_list (conn s))" "said t c \<noteq> []" for c
  proof -
    let ?reply = "pending_reply (clients (conn s) c)"
    have "com_traffic cb penv srv (clients (conn s) c) t c" using tr c(1) by (simp add: conn_traffic_def)
    with c(2) have "answers penv srv (heard t c) (called t c) ?reply"
      "said t c = take (io_offset (clients (conn s) c)) ?reply"
      by (auto simp: com_traffic_def split: if_splits)
    then show ?thesis by (intro exI [of _ ?reply]) (simp add: take_all_iff min_def)
  qed
  with tr show ?thesis by (simp add: conn_traffic_def exchanges_ok_def)
qed

text \<open>A run in which a request to switch off a node is served.\<close>

abbreviation sample_state :: "(bounded_buffer, (nat \<times> nat option \<times> bytes) list) server_system" where
  "sample_state \<equiv> start_system (started_connector bounded_ops (replicate 1024 0) AF_INET
     \<lparr>signal_flag = False, wakeup_fd = -1\<rparr> 3 4 5) []"

abbreviation sample_launch :: "(bounded_buffer, (nat \<times> nat option \<times> bytes) list) server_system \<times>
    (nat \<times> nat option \<times> bytes) list traffic" where
  "sample_launch \<equiv> (sample_state, silence [])"

lemma sample_start_ok:
  "table_complete (plugin_functions sample_server)" "IO_BUFFER_SIZE \<le> length (replicate 1024 (0 :: byte))"
  "valid_select_fd 3" "valid_select_fd 4" "(3 :: int) \<noteq> 4"
  "selected sample_state = None" "\<not> is_signaled (stop_signal (conn sample_state))"
  "action_list (conn sample_state) = []" "get_free_count (client_pool (conn sample_state)) \<ge> 1"
proof -
  show "table_complete (plugin_functions sample_server)"
    by (simp add: sample_server_def table_complete_def)
  show "IO_BUFFER_SIZE \<le> length (replicate 1024 (0 :: byte))" by (simp add: bounds_simps)
  show fds: "valid_select_fd 3" "valid_select_fd 4" "(3 :: int) \<noteq> 4"
    by (simp_all add: valid_select_fd_def bounds_simps)
  show "selected sample_state = None" by (simp add: start_system_def)
  show "\<not> is_signaled (stop_signal (conn sample_state))"
    by (simp add: start_system_def started_connector_def enable_wakeup_fd_def is_signaled_def)
  have g: "IO_BUFFER_SIZE \<le> length (replicate 1024 (0 :: byte))" by (simp add: bounds_simps)
  show "action_list (conn sample_state) = []"
    by (rule system_inv_lost(3) [OF start_system_inv [OF bounded.char_buffer_axioms g fds]])
  show "get_free_count (client_pool (conn sample_state)) \<ge> 1"
    by (simp add: start_system_def started_connector_def new_connector_def new_alloc_def
        get_free_count_def bounds_simps)
qed

lemma sample_request_ok:
  "well_formed sample_fields" "apply_fields sample_fields ([], []) = Some (ascii ''n1'', ascii ''s'')"
  "ascii ''n1'' \<noteq> []" "fence_function FENCE_OFF (plugin_functions sample_server) = Some 13"
  "call_fence sample_env 13 (plugin_context sample_server) (ascii ''n1'') (length (ascii ''n1'')) [] =
     (True, [(13, Some 9, ascii ''n1'')])"
proof -
  show "well_formed sample_fields"
    using sample_fields_ok
    by (simp add: well_formed_def) (simp add: sample_fields_def field_text_def encode_field_def NODENAME_def
        SECRET_def ascii_def bounds_simps)
  show "apply_fields sample_fields ([], []) = Some (ascii ''n1'', ascii ''s'')" by (rule sample_fields_apply)
  show "ascii ''n1'' \<noteq> []" by (simp add: ascii_def)
  show "fence_function FENCE_OFF (plugin_functions sample_server) = Some 13" by (simp add: sample_server_def)
  show "call_fence sample_env 13 (plugin_context sample_server) (ascii ''n1'') (length (ascii ''n1'')) [] =
     (True, [(13, Some 9, ascii ''n1'')])"
    by (simp add: sample_env_def sample_server_def)
qed

lemma request_bytes_framed:
  assumes "well_formed kvs"
  shows "request_bytes m kvs \<noteq> []" "frame_length (request_bytes m kvs) = length (request_bytes m kvs)"
  using request_bytes_sel(1,4) [of kvs m] assms by (auto simp: well_formed_def bounds_simps)

lemma sample_exchange:
  "\<exists>s t. recorded_run bounded_ops sample_env sample_server sample_launch (s, t) \<and>
    plugin s = [(13, Some 9, ascii ''n1'')] \<and>
    exchanges t = [(request_bytes FENCE_OFF sample_fields, ([], [(13, Some 9, ascii ''n1'')]),
      bare_message FENCE_SUCCESS)]"
proof -
  note start = sample_start_ok and req = sample_request_ok
  have inv: "recorded_inv fst bounded_ops sample_env sample_server sample_launch"
    by (rule start_recorded [OF bounded.char_buffer_axioms start(2-5)])
  have p: "plugin sample_state = []" by (simp add: start_system_def)
  have ready: "\<exists>cl'. process_client_message bounded_ops sample_env sample_server cl
      (plugin sample_state) = Normal (cl', [(13, Some 9, ascii ''n1'')]) \<and> reply_ready cl'"
    if "client_caps fst cl" "heard_ok bounded_ops cl (request_bytes FENCE_OFF sample_fields)" "message_complete cl" for cl
    using bounded.fence_request_ready [OF that req(1-5)] unfolding p .
  from bounded.request_served [OF inv start(1,6-9) request_bytes_framed [OF req(1), of FENCE_OFF] ready]
  obtain s t reply where run: "recorded_run bounded_ops sample_env sample_server sample_launch (s, t)"
    and pl: "plugin s = [(13, Some 9, ascii ''n1'')]"
    and r: "exchanges t = exchanges (silence [] :: (nat \<times> nat option \<times> bytes) list traffic) @
      [(request_bytes FENCE_OFF sample_fields, (plugin sample_state, [(13, Some 9, ascii ''n1'')]), reply)]"
    and a: "answers sample_env sample_server (request_bytes FENCE_OFF sample_fields)
      (plugin sample_state, [(13, Some 9, ascii ''n1'')]) reply"
    by blast
  from answers_fenceD [OF a [unfolded p] req(1,2,4,5)] r have
    "exchanges t = [(request_bytes FENCE_OFF sample_fields, ([], [(13, Some 9, ascii ''n1'')]),
      bare_message FENCE_SUCCESS)]"
    by (simp add: silence_def p)
  with run pl show ?thesis by blast
qed

theorem every_reply_answers_its_request_witness:
  "\<exists>s t. recorded_run bounded_ops sample_env sample_server sample_launch (s, t) \<and>
    exchanges t = [(request_bytes FENCE_OFF sample_fields, ([], [(13, Some 9, ascii ''n1'')]),
      bare_message FENCE_SUCCESS)] \<and>
    answers sample_env sample_server (request_bytes FENCE_OFF sample_fields)
      ([], [(13, Some 9, ascii ''n1'')]) (bare_message FENCE_SUCCESS)"
proof -
  from sample_exchange obtain s t where run: "recorded_run bounded_ops sample_env sample_server sample_launch (s, t)"
    and ex: "exchanges t = [(request_bytes FENCE_OFF sample_fields, ([], [(13, Some 9, ascii ''n1'')]),
      bare_message FENCE_SUCCESS)]" by blast
  from every_reply_answers_its_request [OF bounded.char_buffer_axioms sample_start_ok(1-5) run] ex run
  show ?thesis by auto
qed

text \<open>
  Property C4. A fencing request can be served from every state the server can reach in which
  no pass is under way, no stop is requested, no other request waits and the pool has an object,
  whatever its other clients have done before: there is a run that accepts the connection, reads
  the request, calls the plugin function of that action once with the node named, and sends the
  whole reply with its result. In this run the other clients do nothing. It says that no history
  of theirs makes service impossible, not that they cannot get in the way afterwards: a worker
  that closes one of their connections drops this one from the com queue, too
  (worker_close_loses_connections in Connection_Loss).
\<close>

theorem fence_request_can_be_served:
  assumes cb: "char_buffer cb cap" and table: "table_complete (plugin_functions srv)"
    and g: "IO_BUFFER_SIZE \<le> length garbage"
    and fds: "valid_select_fd sfd" "valid_select_fd rfd" "sfd \<noteq> rfd"
    and run: "recorded_run cb penv srv
      (start_system (started_connector cb garbage d sh sfd rfd wfd) p0, silence p0) (s, t)"
    and state: "selected s = None" "\<not> is_signaled (stop_signal (conn s))" "action_list (conn s) = []"
      "get_free_count (client_pool (conn s)) \<ge> 1"
    and kvs: "well_formed kvs" "apply_fields kvs ([], []) = Some (node, pass)" "node \<noteq> []"
    and f: "fence_function m (plugin_functions srv) = Some f"
    and call: "call_fence penv f (plugin_context srv) node (length node) (plugin s) = (ok, p')"
  shows "\<exists>s' t'. recorded_run cb penv srv (s, t) (s', t') \<and> plugin s' = p' \<and>
    exchanges t' = exchanges t @
      [(request_bytes m kvs, (plugin s, p'), bare_message (if ok then FENCE_SUCCESS else FENCE_FAIL))]"
proof -
  have inv: "recorded_inv cap cb penv srv (s, t)"
    by (rule char_buffer.recorded_run_inv [OF cb run table start_recorded [OF cb g fds]])
  note ready = char_buffer.fence_request_ready [OF cb _ _ _ kvs f call]
  from char_buffer.request_served [OF cb inv table state request_bytes_framed [OF kvs(1)] ready]
  obtain s' t' reply where r: "recorded_run cb penv srv (s, t) (s', t')" "plugin s' = p'"
    "exchanges t' = exchanges t @ [(request_bytes m kvs, (plugin s, p'), reply)]"
    "answers penv srv (request_bytes m kvs) (plugin s, p') reply" by blast
  from answers_fenceD [OF r(4) kvs(1,2) f call] r(1-3) show ?thesis by blast
qed

theorem fence_request_can_be_served_witness:
  "\<exists>s t. recorded_run bounded_ops sample_env sample_server sample_launch (s, t) \<and>
    plugin s = [(13, Some 9, ascii ''n1'')] \<and>
    exchanges t = [(request_bytes FENCE_OFF sample_fields, ([], [(13, Some 9, ascii ''n1'')]),
      bare_message FENCE_SUCCESS)]"
proof -
  note start = sample_start_ok and req = sample_request_ok
  have call: "call_fence sample_env 13 (plugin_context sample_server) (ascii ''n1'') (length (ascii ''n1''))
      (plugin sample_state) = (True, [(13, Some 9, ascii ''n1'')])"
    using req(5) by (simp add: start_system_def)
  from fence_request_can_be_served [OF bounded.char_buffer_axioms start(1-5) rtranclp.rtrancl_refl
      start(6-9) req(1-4) call]
  obtain s t where run: "recorded_run bounded_ops sample_env sample_server sample_launch (s, t)"
    "plugin s = [(13, Some 9, ascii ''n1'')]"
    and r: "exchanges t = exchanges (silence [] :: (nat \<times> nat option \<times> bytes) list traffic) @
      [(request_bytes FENCE_OFF sample_fields, (plugin sample_state, [(13, Some 9, ascii ''n1'')]),
        bare_message (if True then FENCE_SUCCESS else FENCE_FAIL))]"
    by blast
  from r have "exchanges t = [(request_bytes FENCE_OFF sample_fields, ([], [(13, Some 9, ascii ''n1'')]),
      bare_message FENCE_SUCCESS)]"
    by (simp add: silence_def start_system_def)
  with run show ?thesis by blast
qed

end
