(* ===== verification/Reachable_States.thy ===== *)
theory Reachable_States
  imports Request_Served
begin

text \<open>
  What holds of the server in every state it can reach (Server_System): where its clients are,
  and that the calls of its threads are defined. The witnesses look at the state after a
  request has been served.
\<close>

section \<open>A reachable state\<close>

lemma sample_reached:
  "\<exists>s. (server_step bounded_ops sample_env sample_server)\<^sup>*\<^sup>* sample_state s \<and>
    plugin s = [(13, Some 9, ascii ''n1'')]"
  using sample_exchange recorded_run_erase [of bounded_ops sample_env sample_server sample_launch] by fastforce

section \<open>Properties\<close>

text \<open>
  Property C8. In every state the server can reach, whatever the clients send and however the
  threads interleave, each allocated client is in exactly one place: on the com queue, on the
  action queue, with one worker (whether it has executed the request or not), or lost. Those on the com queue
  have a descriptor \<open>select\<close> can take and are in the middle of receiving or of sending one
  message, those on the action queue have a complete message, and no I/O buffer ever changes
  its size. Clients are lost in two ways only, never by the selector, and never when a worker
  takes a request, executes it or gives it back: a request whose execution throws loses its
  client, and a worker that closes a connection loses the clients that are on the com queue.
  At the start nobody is lost.
\<close>

theorem server_invariant:
  assumes cb: "char_buffer cb cap" and table: "table_complete (plugin_functions srv)"
    and g: "IO_BUFFER_SIZE \<le> length garbage"
    and fds: "valid_select_fd sfd" "valid_select_fd rfd" "sfd \<noteq> rfd"
    and s0: "s0 = start_system (started_connector cb garbage d sh sfd rfd wfd) p"
    and run: "(server_step cb penv srv)\<^sup>*\<^sup>* s0 s"
  shows "distinct (com_list (conn s) @ action_list (conn s)) \<and>
    (set (com_list (conn s)) \<union> set (action_list (conn s))) \<inter> (taken s \<union> executed s) = {} \<and>
    taken s \<inter> executed s = {} \<and>
    used_objects (client_pool (conn s)) =
      set (com_list (conn s)) \<union> set (action_list (conn s)) \<union> taken s \<union> executed s \<union> lost s \<and>
    (\<forall>c \<in> set (com_list (conn s)). com_client (clients (conn s) c)) \<and>
    (\<forall>c \<in> set (action_list (conn s)). pending_client (clients (conn s) c)) \<and>
    (\<forall>c. length (io_buffer (clients (conn s) c)) = IO_BUFFER_SIZE) \<and>
    lost s0 = {} \<and>
    (\<forall>s'. server_step cb penv srv s s' \<longrightarrow> loss_accounted cb penv srv s s')"
proof -
  note start = start_system_inv [OF cb g fds, of d sh wfd p]
  from reachable_inv [OF cb table start run [unfolded s0]] obtain xs ys W L where
    inv: "system_inv cap s xs ys W L" by blast
  note l = system_inv_lost [OF inv] system_inv_lost(1) [OF start]
  have c: "conn_inv cap L (conn s) xs ys W" and te: "taken s \<union> executed s = W - L" "L \<subseteq> W"
    "taken s \<inter> executed s = {}"
    using inv by (simp_all add: system_inv_def)
  then have core: "conn_core cap (conn s) xs ys W" by (simp add: conn_inv_def)
  have W: "taken s \<union> executed s \<union> L = W" using te by blast
  have "used_objects (client_pool (conn s)) = set xs \<union> set ys \<union> taken s \<union> executed s \<union> L"
    using core W by (simp add: conn_core_def Un_assoc)
  moreover have "distinct (xs @ ys)" "(set xs \<union> set ys) \<inter> (taken s \<union> executed s) = {}"
    using conn_core_distinct [OF core] core te by (auto simp: conn_core_def)
  moreover have "client_ok cap (clients (conn s) c)" for c using core by (simp add: conn_core_def)
  moreover have "loss_accounted cb penv srv s s'" if "server_step cb penv srv s s'" for s'
    by (rule char_buffer.server_step_accounted [OF cb that table inv])
  ultimately show ?thesis
    using c te(3) unfolding l s0 by (simp add: conn_inv_def client_ok_def)
qed

theorem server_invariant_witness:
  "\<exists>s. (server_step bounded_ops sample_env sample_server)\<^sup>*\<^sup>* sample_state s \<and>
    plugin s = [(13, Some 9, ascii ''n1'')] \<and>
    used_objects (client_pool (conn s)) =
      set (com_list (conn s)) \<union> set (action_list (conn s)) \<union> taken s \<union> executed s \<union> lost s \<and>
    (\<forall>s'. server_step bounded_ops sample_env sample_server s s' \<longrightarrow>
       loss_accounted bounded_ops sample_env sample_server s s')"
proof -
  from sample_reached obtain s where
    s: "(server_step bounded_ops sample_env sample_server)\<^sup>*\<^sup>* sample_state s" "plugin s = [(13, Some 9, ascii ''n1'')]"
    by blast
  from server_invariant [OF bounded.char_buffer_axioms sample_start_ok(1-5) refl s(1)] s show ?thesis by blast
qed

text \<open>
  Property C19. In every reachable state the calls that the threads make next are defined and
  come to an end, as long as \<open>accept\<close> succeeds: the descriptor sets can be built, without
  \<open>FD_SET\<close> of a number outside the range; the iteration after \<open>select\<close> is defined for all ready
  sets and all results of \<open>recv\<close> and \<open>send\<close> that POSIX allows, and terminates; the request a
  worker has taken can be executed without the call of a null pointer, with no exception but
  \<open>RangeException\<close>; and the client of an executed request can be given back. What a worker
  thread does after the exception is not part of this: it goes on without its mutex, which is
  undefined (worker_exception_undefined in Worker_Pool).
\<close>

theorem server_calls_defined:
  assumes cb: "char_buffer cb cap" and table: "table_complete (plugin_functions srv)"
    and g: "IO_BUFFER_SIZE \<le> length garbage"
    and fds: "valid_select_fd sfd" "valid_select_fd rfd" "sfd \<noteq> rfd"
    and run: "(server_step cb penv srv)\<^sup>*\<^sup>*
      (start_system (started_connector cb garbage d sh sfd rfd wfd) p) s"
  shows "build_fd_sets (conn s) \<noteq> None \<and>
    (\<forall>rd wr it. selected s = Some (rd, wr) \<and> env_ok (os_env.truncate it) \<and>
       accepted_ok (conn s) (used_objects (client_pool (conn s))) (os_accept it) \<longrightarrow>
       after_select cb it rd wr (conn s) \<noteq> None) \<and>
    (\<forall>c \<in> taken s. outcome_error (worker_execute cb penv srv (conn s) c (plugin s)) \<in>
         {None, Some RangeException} \<and>
       outcome_state (worker_execute cb penv srv (conn s) c (plugin s)) \<noteq> None) \<and>
    (\<forall>c \<in> executed s. \<forall>rs. writes_end rs \<longrightarrow> worker_finish cb rs (conn s) c \<noteq> None)"
proof -
  from reachable_inv [OF cb table start_system_inv [OF cb g fds] run] obtain xs ys W L where
    inv: "system_inv cap s xs ys W L" by blast
  then have c: "conn_inv cap L (conn s) xs ys W" "fds_ok (conn s) (set xs \<union> set ys \<union> W)"
    by (simp_all add: system_inv_def)
  have "build_fd_sets (conn s) \<noteq> None" using build_fd_sets_eq [OF c] by auto
  moreover have "after_select cb it rd wr (conn s) \<noteq> None"
    if "selected s = Some (rd, wr)" "env_ok (os_env.truncate it)"
      "accepted_ok (conn s) (used_objects (client_pool (conn s))) (os_accept it)" for rd wr it
    using char_buffer.step_serve [OF cb inv that] by auto
  moreover have "outcome_error (worker_execute cb penv srv (conn s) x (plugin s)) \<in>
         {None, Some RangeException} \<and>
       outcome_state (worker_execute cb penv srv (conn s) x (plugin s)) \<noteq> None"
    if "x \<in> taken s" for x
    using char_buffer.step_execute [OF cb inv that table, of penv]
    by (cases "worker_execute cb penv srv (conn s) x (plugin s)") auto
  moreover have "worker_finish cb rs (conn s) x \<noteq> None" if "x \<in> executed s" "writes_end rs" for x rs
    using char_buffer.step_finish [OF cb inv that] by auto
  ultimately show ?thesis by blast
qed

theorem server_calls_defined_witness:
  "\<exists>s. (server_step bounded_ops sample_env sample_server)\<^sup>*\<^sup>* sample_state s \<and>
    plugin s = [(13, Some 9, ascii ''n1'')] \<and> build_fd_sets (conn s) \<noteq> None"
proof -
  from sample_reached obtain s where
    s: "(server_step bounded_ops sample_env sample_server)\<^sup>*\<^sup>* sample_state s" "plugin s = [(13, Some 9, ascii ''n1'')]"
    by blast
  from server_calls_defined [OF bounded.char_buffer_axioms sample_start_ok(1-5) s(1)] s show ?thesis by blast
qed

end
