(* ===== verification/Worker_Pool.thy ===== *)
theory Worker_Pool
  imports Prelude
begin

text \<open>
  The worker threads (WorkerPool.h, WorkerPool.cpp, WorkerThreadInvocation.cpp) with the
  locks they share with the main thread, which starts the pool, runs the selector and stops
  the pool (\<open>Server::run\<close>). The pool's mutex is the connector's \<open>action_queue_lock\<close>; a
  worker also takes \<open>com_queue_lock\<close> when it hands a client back. A thread is a control
  point, named after the line it is about to execute; a step of a thread is a function of the
  state, and the scheduler chooses the thread. The handling of one request is one step: its
  details are in Fence_Requests and Server_Connector.
\<close>

section \<open>The state\<close>

text \<open>
  Control points of \<open>worker_loop\<close> and of the executor's \<open>process_action_queue\<close>. \<open>Locking\<close>
  and \<open>Reacquiring\<close> wait for the mutex at the start of the loop and inside
  \<open>pool_condition.wait\<close>, \<open>Relocking\<close> in \<open>action_queue_lock.lock()\<close>; \<open>Testing\<close> is the loop
  condition, \<open>Taking\<close> the call of \<open>remove_first\<close>, \<open>Checking\<close> the test before the wait.
  \<open>Undefined\<close> is undefined behaviour: a mutex used by a thread that does not own it.
\<close>

datatype 'a worker_pc =
    Unborn | Locking | Testing | Taking | Executing 'a | ComLocking 'a | ComHolding 'a
  | Relocking | Checking | Waiting | Reacquiring | Exited | Undefined

text \<open>
  Control points of the main thread: \<open>start\<close>, the selector's pass over the clients (under
  \<open>com_queue_lock\<close>; a complete request also takes \<open>action_queue_lock\<close>), \<open>cleanup\<close> and
  \<open>stop_threads\<close>. \<open>Joining idx again\<close> is the loop of \<open>await_threads_termination\<close>; the flag
  tells the call in \<open>start\<close>, after which the destructor stops the pool again.
\<close>

datatype 'a main_pc =
    Starting | Spawning nat | Selecting | PassLocking | InPass | Submitting 'a | Notifying
  | SubmitUnlocking | CleanupLocking | CleanupActions | CleanupComLocking | CleanupCom
  | StopLocking | Stopping | Joining nat bool | Finished

datatype pool_thread = MainThread | WorkerThread nat

record 'a worker_pool =
  pool_size :: nat
  workers :: "nat \<Rightarrow> 'a worker_pc"
  joinable :: "nat \<Rightarrow> bool"
  main_pc :: "'a main_pc"
  pool_lock :: "pool_thread option"
  com_lock :: "pool_thread option"
  stop_workers :: bool
  pending :: "'a list"

definition new_pool :: "nat \<Rightarrow> 'a worker_pool" where
  "new_pool worker_count =
     \<lparr>pool_size = worker_count, workers = (\<lambda>_. Unborn), joinable = (\<lambda>_. False),
      main_pc = Starting, pool_lock = None, com_lock = None, stop_workers = False, pending = []\<rparr>"

text \<open>
  What handling a request comes to: an exception that leaves \<open>process_client_message\<close>, or a
  client that goes on with its I/O, or one that is closed.
\<close>

record 'a jobs =
  raises :: "'a \<Rightarrow> bool"
  resumes :: "'a \<Rightarrow> bool"

section \<open>Steps\<close>

abbreviation goto :: "nat \<Rightarrow> 'a worker_pc \<Rightarrow> 'a worker_pool \<Rightarrow> 'a worker_pool" where
  "goto i pc s \<equiv> s\<lparr>workers := (workers s)(i := pc)\<rparr>"

text \<open>\<open>lock\<close>: the step is possible when the mutex is free.\<close>

definition lock_pool ::
  "pool_thread \<Rightarrow> 'a worker_pool \<Rightarrow> 'a worker_pool option" where
  "lock_pool t s = (if pool_lock s = None then Some (s\<lparr>pool_lock := Some t\<rparr>) else None)"

definition lock_com ::
  "pool_thread \<Rightarrow> 'a worker_pool \<Rightarrow> 'a worker_pool option" where
  "lock_com t s = (if com_lock s = None then Some (s\<lparr>com_lock := Some t\<rparr>) else None)"

definition notify_all :: "'a worker_pool \<Rightarrow> 'a worker_pool" where
  "notify_all s =
     s\<lparr>workers := (\<lambda>i. if workers s i = Waiting then Reacquiring else workers s i)\<rparr>"

text \<open>The executor: \<open>run\<close> is \<open>process_action_queue\<close>.\<close>

definition executor_step ::
  "'a jobs \<Rightarrow> nat \<Rightarrow> 'a worker_pool \<Rightarrow> 'a worker_pool option" where
  "executor_step jobs i s =
     (case workers s i of
        Taking \<Rightarrow>
          (case pending s of
             [] \<Rightarrow> Some (goto i Checking s)
           | x # xs \<Rightarrow> Some (goto i (Executing x) (s\<lparr>pending := xs, pool_lock := None\<rparr>)))
      | Executing x \<Rightarrow>
          Some (goto i (if raises jobs x then Checking
                        else if resumes jobs x then ComLocking x else Relocking) s)
      | ComLocking x \<Rightarrow> map_option (goto i (ComHolding x)) (lock_com (WorkerThread i) s)
      | ComHolding x \<Rightarrow> Some (goto i Relocking (s\<lparr>com_lock := None\<rparr>))
      | Relocking \<Rightarrow> map_option (goto i Taking) (lock_pool (WorkerThread i) s)
      | _ \<Rightarrow> None)"

definition pool_worker_step ::
  "'a jobs \<Rightarrow> nat \<Rightarrow> 'a worker_pool \<Rightarrow> 'a worker_pool option" where
  "pool_worker_step jobs i s =
     (case workers s i of
        Locking \<Rightarrow> map_option (goto i Testing) (lock_pool (WorkerThread i) s)
      | Testing \<Rightarrow>
          (if \<not> stop_workers s then Some (goto i Taking s)
           else if pool_lock s = Some (WorkerThread i) then
             Some (goto i Exited (s\<lparr>pool_lock := None\<rparr>))
           else Some (goto i Undefined s))
      | Checking \<Rightarrow>
          (if stop_workers s then Some (goto i Testing s)
           else if pool_lock s = Some (WorkerThread i) then
             Some (goto i Waiting (s\<lparr>pool_lock := None\<rparr>))
           else Some (goto i Undefined s))
      | Reacquiring \<Rightarrow> map_option (goto i Testing) (lock_pool (WorkerThread i) s)
      | _ \<Rightarrow> executor_step jobs i s)"

text \<open>
  The main thread. What the outside decides comes as an event: that a thread cannot be
  created, that a pass over the clients begins, a request that is complete, the worker that
  \<open>notify_one\<close> wakes, the shutdown.
\<close>

datatype 'a main_event = Proceed | SpawnFails | BeginPass | Request 'a | Wake nat | Shutdown

definition start_step ::
  "nat \<Rightarrow> 'a main_event \<Rightarrow> 'a worker_pool \<Rightarrow> 'a worker_pool option" where
  "start_step idx ev s =
     (if idx < pool_size s then
        (case ev of
           Proceed \<Rightarrow> Some (goto idx Locking (s\<lparr>joinable := (joinable s)(idx := True),
                                              main_pc := Spawning (idx + 1)\<rparr>))
         | SpawnFails \<Rightarrow> Some ((notify_all (s\<lparr>stop_workers := True\<rparr>))
                                \<lparr>pool_lock := None, main_pc := Joining 0 True\<rparr>)
         | _ \<Rightarrow> None)
      else Some (s\<lparr>pool_lock := None, main_pc := Selecting\<rparr>))"

definition join_step :: "nat \<Rightarrow> bool \<Rightarrow> 'a worker_pool \<Rightarrow> 'a worker_pool option" where
  "join_step idx again s =
     (if idx < pool_size s then
        (if \<not> joinable s idx then Some (s\<lparr>main_pc := Joining (idx + 1) again\<rparr>)
         else if workers s idx = Exited then
           Some (s\<lparr>joinable := (joinable s)(idx := False), main_pc := Joining (idx + 1) again\<rparr>)
         else None)
      else Some (s\<lparr>main_pc := (if again then StopLocking else Finished)\<rparr>))"

definition notify_one_step :: "'a main_event \<Rightarrow> 'a worker_pool \<Rightarrow> 'a worker_pool option" where
  "notify_one_step ev s =
     (case ev of
        Wake i \<Rightarrow> (if workers s i = Waiting then Some (goto i Reacquiring (s\<lparr>main_pc := SubmitUnlocking\<rparr>))
                   else None)
      | Proceed \<Rightarrow> (if list_ex (\<lambda>i. workers s i = Waiting) [0..<pool_size s] then None
                    else Some (s\<lparr>main_pc := SubmitUnlocking\<rparr>))
      | _ \<Rightarrow> None)"

definition selecting_step :: "'a main_event \<Rightarrow> 'a worker_pool \<Rightarrow> 'a worker_pool option" where
  "selecting_step ev s =
     (case ev of
        BeginPass \<Rightarrow> Some (s\<lparr>main_pc := PassLocking\<rparr>)
      | Shutdown \<Rightarrow> Some (s\<lparr>main_pc := CleanupLocking\<rparr>)
      | _ \<Rightarrow> None)"

definition pass_step :: "'a main_event \<Rightarrow> 'a worker_pool \<Rightarrow> 'a worker_pool option" where
  "pass_step ev s =
     (case ev of
        Request x \<Rightarrow> Some (s\<lparr>main_pc := Submitting x\<rparr>)
      | Proceed \<Rightarrow> Some (s\<lparr>com_lock := None, main_pc := Selecting\<rparr>)
      | _ \<Rightarrow> None)"

definition main_step :: "'a main_event \<Rightarrow> 'a worker_pool \<Rightarrow> 'a worker_pool option" where
  "main_step ev s =
     (case main_pc s of
        Starting \<Rightarrow> map_option (\<lambda>s. s\<lparr>main_pc := Spawning 0\<rparr>) (lock_pool MainThread s)
      | Spawning idx \<Rightarrow> start_step idx ev s
      | Selecting \<Rightarrow> selecting_step ev s
      | PassLocking \<Rightarrow> map_option (\<lambda>s. s\<lparr>main_pc := InPass\<rparr>) (lock_com MainThread s)
      | InPass \<Rightarrow> pass_step ev s
      | Submitting x \<Rightarrow>
          map_option (\<lambda>s. s\<lparr>pending := pending s @ [x], main_pc := Notifying\<rparr>) (lock_pool MainThread s)
      | Notifying \<Rightarrow> notify_one_step ev s
      | SubmitUnlocking \<Rightarrow> Some (s\<lparr>pool_lock := None, main_pc := InPass\<rparr>)
      | CleanupLocking \<Rightarrow> map_option (\<lambda>s. s\<lparr>main_pc := CleanupActions\<rparr>) (lock_pool MainThread s)
      | CleanupActions \<Rightarrow> Some (s\<lparr>pending := [], pool_lock := None, main_pc := CleanupComLocking\<rparr>)
      | CleanupComLocking \<Rightarrow> map_option (\<lambda>s. s\<lparr>main_pc := CleanupCom\<rparr>) (lock_com MainThread s)
      | CleanupCom \<Rightarrow> Some (s\<lparr>com_lock := None, main_pc := StopLocking\<rparr>)
      | StopLocking \<Rightarrow> map_option (\<lambda>s. s\<lparr>main_pc := Stopping\<rparr>) (lock_pool MainThread s)
      | Stopping \<Rightarrow> Some ((notify_all (s\<lparr>stop_workers := True\<rparr>))\<lparr>pool_lock := None, main_pc := Joining 0 False\<rparr>)
      | Joining idx again \<Rightarrow> join_step idx again s
      | Finished \<Rightarrow> None)"

text \<open>
  A step of the system: a worker, the main thread, or a wait that ends although nobody
  notified it, as a condition variable may.
\<close>

inductive thread_step :: "'a jobs \<Rightarrow> 'a worker_pool \<Rightarrow> 'a worker_pool \<Rightarrow> bool" for jobs where
  worker: "i < pool_size s \<Longrightarrow> pool_worker_step jobs i s = Some t \<Longrightarrow> thread_step jobs s t"
| main: "main_step ev s = Some t \<Longrightarrow> thread_step jobs s t"

inductive pool_step :: "'a jobs \<Rightarrow> 'a worker_pool \<Rightarrow> 'a worker_pool \<Rightarrow> bool" for jobs where
  thread: "thread_step jobs s t \<Longrightarrow> pool_step jobs s t"
| spurious: "i < pool_size s \<Longrightarrow> workers s i = Waiting \<Longrightarrow> pool_step jobs s (goto i Reacquiring s)"

inductive pool_reachable :: "'a jobs \<Rightarrow> nat \<Rightarrow> 'a worker_pool \<Rightarrow> bool" for jobs n where
  created: "pool_reachable jobs n (new_pool n)"
| stepped: "pool_reachable jobs n s \<Longrightarrow> pool_step jobs s t \<Longrightarrow> pool_reachable jobs n t"

section \<open>The invariant\<close>

fun worker_holds_pool :: "'a worker_pc \<Rightarrow> bool" where
  "worker_holds_pool Testing = True"
| "worker_holds_pool Taking = True"
| "worker_holds_pool Checking = True"
| "worker_holds_pool _ = False"

fun worker_holds_com :: "'a worker_pc \<Rightarrow> bool" where
  "worker_holds_com (ComHolding x) = True"
| "worker_holds_com _ = False"

fun main_holds_pool :: "'a main_pc \<Rightarrow> bool" where
  "main_holds_pool (Spawning idx) = True"
| "main_holds_pool Notifying = True"
| "main_holds_pool SubmitUnlocking = True"
| "main_holds_pool CleanupActions = True"
| "main_holds_pool Stopping = True"
| "main_holds_pool _ = False"

fun main_holds_com :: "'a main_pc \<Rightarrow> bool" where
  "main_holds_com InPass = True"
| "main_holds_com (Submitting x) = True"
| "main_holds_com Notifying = True"
| "main_holds_com SubmitUnlocking = True"
| "main_holds_com CleanupCom = True"
| "main_holds_com _ = False"

text \<open>A worker that will look at the queue again before it waits.\<close>

fun will_take :: "'a worker_pc \<Rightarrow> bool" where
  "will_take Unborn = False"
| "will_take Checking = False"
| "will_take Waiting = False"
| "will_take Exited = False"
| "will_take Undefined = False"
| "will_take _ = True"

fun starting_up :: "'a main_pc \<Rightarrow> bool" where
  "starting_up Starting = True"
| "starting_up (Spawning idx) = True"
| "starting_up _ = False"

fun winding_up :: "'a main_pc \<Rightarrow> bool" where
  "winding_up (Joining idx again) = True"
| "winding_up Finished = True"
| "winding_up _ = False"

text \<open>The mutexes are owned by the threads whose control points say so, and by nobody else.\<close>

definition locks_inv :: "'a worker_pool \<Rightarrow> bool" where
  "locks_inv s \<longleftrightarrow>
     (main_holds_pool (main_pc s) \<longleftrightarrow> pool_lock s = Some MainThread) \<and>
     (\<forall>i. worker_holds_pool (workers s i) \<longleftrightarrow> pool_lock s = Some (WorkerThread i)) \<and>
     (main_holds_com (main_pc s) \<longleftrightarrow> com_lock s = Some MainThread) \<and>
     (\<forall>i. worker_holds_com (workers s i) \<longleftrightarrow> com_lock s = Some (WorkerThread i))"

text \<open>
  Which control points go together with the stage the main thread is in: the threads that
  exist, the stop flag, and how far \<open>start\<close> and \<open>await_threads_termination\<close> have come.
\<close>

fun spawned_below :: "nat \<Rightarrow> 'a main_pc \<Rightarrow> nat" where
  "spawned_below n Starting = 0"
| "spawned_below n (Spawning idx) = min idx n"
| "spawned_below n _ = n"

fun joined_below :: "nat \<Rightarrow> 'a main_pc \<Rightarrow> nat" where
  "joined_below n (Joining idx again) = min idx n"
| "joined_below n Finished = n"
| "joined_below n _ = 0"

definition threads_inv :: "'a worker_pool \<Rightarrow> bool" where
  "threads_inv s \<longleftrightarrow>
     (\<forall>i. workers s i \<noteq> Undefined) \<and>
     (\<forall>i. pool_size s \<le> i \<longrightarrow> workers s i = Unborn) \<and>
     (\<forall>i. joinable s i \<longrightarrow> workers s i \<noteq> Unborn) \<and>
     (\<forall>i. \<not> joinable s i \<longrightarrow> workers s i = Unborn \<or> workers s i = Exited)"

definition stop_inv :: "'a worker_pool \<Rightarrow> bool" where
  "stop_inv s \<longleftrightarrow>
     (\<forall>i. workers s i = Exited \<longrightarrow> stop_workers s) \<and>
     (\<forall>i. workers s i = Waiting \<longrightarrow> \<not> stop_workers s) \<and>
     (starting_up (main_pc s) \<longrightarrow> pending s = [] \<and> \<not> stop_workers s) \<and>
     (winding_up (main_pc s) \<longrightarrow> stop_workers s) \<and>
     (stop_workers s \<longrightarrow> winding_up (main_pc s) \<or> main_pc s = StopLocking \<or> main_pc s = Stopping)"

definition spawned_inv :: "'a worker_pool \<Rightarrow> bool" where
  "spawned_inv s \<longleftrightarrow>
     (\<not> stop_workers s \<longrightarrow>
        (\<forall>i < spawned_below (pool_size s) (main_pc s). workers s i \<noteq> Unborn) \<and>
        (\<forall>i. spawned_below (pool_size s) (main_pc s) \<le> i \<longrightarrow> workers s i = Unborn))"

definition joined_inv :: "'a worker_pool \<Rightarrow> bool" where
  "joined_inv s \<longleftrightarrow> (\<forall>i < joined_below (pool_size s) (main_pc s). \<not> joinable s i)"

text \<open>
  A worker about to wait has seen an empty queue and holds the lock since; a queue that is
  not empty has a worker that will look at it.
\<close>

definition wakeup_inv :: "'a worker_pool \<Rightarrow> bool" where
  "wakeup_inv s \<longleftrightarrow>
     (\<forall>i. workers s i = Checking \<longrightarrow> pending s = []) \<and>
     (pending s \<noteq> [] \<and> \<not> stop_workers s \<and> main_pc s \<noteq> Notifying \<longrightarrow>
        (\<exists>i < pool_size s. will_take (workers s i)))"

definition pool_inv :: "'a worker_pool \<Rightarrow> bool" where
  "pool_inv s \<longleftrightarrow> 0 < pool_size s \<and> locks_inv s \<and> threads_inv s \<and> stop_inv s \<and>
     spawned_inv s \<and> joined_inv s \<and> wakeup_inv s"

lemma new_pool_inv: "0 < n \<Longrightarrow> pool_inv (new_pool n)"
  by (simp add: pool_inv_def locks_inv_def threads_inv_def stop_inv_def spawned_inv_def
      joined_inv_def wakeup_inv_def new_pool_def)

lemmas step_defs = pool_worker_step_def executor_step_def main_step_def start_step_def join_step_def
  notify_one_step_def selecting_step_def pass_step_def lock_pool_def lock_com_def notify_all_def

lemma worker_holds_pool_notified [simp]:
  "worker_holds_pool (if workers s i = Waiting then Reacquiring else workers s i)
     = worker_holds_pool (workers s i)"
  "worker_holds_com (if workers s i = Waiting then Reacquiring else workers s i)
     = worker_holds_com (workers s i)"
  by simp_all

text \<open>The moves of a worker, one case per branch.\<close>

lemma worker_step_cases:
  assumes "pool_worker_step jobs i s = Some t"
  obtains
    (locked) "workers s i = Locking \<or> workers s i = Reacquiring" "pool_lock s = None"
      "t = goto i Testing (s\<lparr>pool_lock := Some (WorkerThread i)\<rparr>)"
  | (enter) "workers s i = Testing" "\<not> stop_workers s" "t = goto i Taking s"
  | (leave) "workers s i = Testing" "stop_workers s" "pool_lock s = Some (WorkerThread i)"
      "t = goto i Exited (s\<lparr>pool_lock := None\<rparr>)"
  | (undefined) "workers s i = Testing \<or> workers s i = Checking"
      "pool_lock s \<noteq> Some (WorkerThread i)" "t = goto i Undefined s"
  | (idle) "workers s i = Taking" "pending s = []" "t = goto i Checking s"
  | (take) x xs where "workers s i = Taking" "pending s = x # xs"
      "t = goto i (Executing x) (s\<lparr>pending := xs, pool_lock := None\<rparr>)"
  | (raised) x where "workers s i = Executing x" "raises jobs x" "t = goto i Checking s"
  | (resume) x where "workers s i = Executing x" "t = goto i (ComLocking x) s"
  | (close) x where "workers s i = Executing x" "t = goto i Relocking s"
  | (com_locked) x where "workers s i = ComLocking x" "com_lock s = None"
      "t = goto i (ComHolding x) (s\<lparr>com_lock := Some (WorkerThread i)\<rparr>)"
  | (com_unlocked) x where "workers s i = ComHolding x" "t = goto i Relocking (s\<lparr>com_lock := None\<rparr>)"
  | (relocked) "workers s i = Relocking" "pool_lock s = None"
      "t = goto i Taking (s\<lparr>pool_lock := Some (WorkerThread i)\<rparr>)"
  | (recheck) "workers s i = Checking" "stop_workers s" "t = goto i Testing s"
  | (wait) "workers s i = Checking" "\<not> stop_workers s" "pool_lock s = Some (WorkerThread i)"
      "t = goto i Waiting (s\<lparr>pool_lock := None\<rparr>)"
  using assms
  by atomize_elim (cases "workers s i"; auto simp: step_defs split: list.splits if_splits)

lemma worker_step_locks:
  assumes step: "pool_worker_step jobs i s = Some t" and quiet: "\<forall>x. \<not> raises jobs x"
    and inv: "locks_inv s"
  shows "locks_inv t"
proof -
  from inv have pool: "worker_holds_pool (workers s i) \<longleftrightarrow> pool_lock s = Some (WorkerThread i)"
    and com: "worker_holds_com (workers s i) \<longleftrightarrow> com_lock s = Some (WorkerThread i)"
    by (simp_all add: locks_inv_def)
  have com_held: "\<exists>x. workers s i = ComHolding x" if "com_lock s = Some (WorkerThread i)"
    using com that by (cases "workers s i") simp_all
  from step show ?thesis
    by (cases rule: worker_step_cases)
      (use inv pool com com_held quiet in \<open>auto simp: locks_inv_def\<close>)
qed

text \<open>The moves of the main thread.\<close>

lemma main_step_cases:
  assumes "main_step ev s = Some t"
  obtains
    (start) "main_pc s = Starting" "pool_lock s = None"
      "t = s\<lparr>pool_lock := Some MainThread, main_pc := Spawning 0\<rparr>"
  | (spawn) idx where "main_pc s = Spawning idx" "idx < pool_size s"
      "t = goto idx Locking (s\<lparr>joinable := (joinable s)(idx := True), main_pc := Spawning (idx + 1)\<rparr>)"
  | (spawn_fails) idx where "main_pc s = Spawning idx" "idx < pool_size s"
      "t = (notify_all (s\<lparr>stop_workers := True\<rparr>))\<lparr>pool_lock := None, main_pc := Joining 0 True\<rparr>"
  | (started) idx where "main_pc s = Spawning idx" "pool_size s \<le> idx"
      "t = s\<lparr>pool_lock := None, main_pc := Selecting\<rparr>"
  | (begin_pass) "main_pc s = Selecting" "t = s\<lparr>main_pc := PassLocking\<rparr>"
  | (shutdown) "main_pc s = Selecting" "t = s\<lparr>main_pc := CleanupLocking\<rparr>"
  | (pass_locked) "main_pc s = PassLocking" "com_lock s = None"
      "t = s\<lparr>com_lock := Some MainThread, main_pc := InPass\<rparr>"
  | (request) x where "main_pc s = InPass" "t = s\<lparr>main_pc := Submitting x\<rparr>"
  | (end_pass) "main_pc s = InPass" "t = s\<lparr>com_lock := None, main_pc := Selecting\<rparr>"
  | (submit) x where "main_pc s = Submitting x" "pool_lock s = None"
      "t = s\<lparr>pool_lock := Some MainThread, pending := pending s @ [x], main_pc := Notifying\<rparr>"
  | (wake) i where "main_pc s = Notifying" "workers s i = Waiting"
      "t = goto i Reacquiring (s\<lparr>main_pc := SubmitUnlocking\<rparr>)"
  | (wake_none) "main_pc s = Notifying" "\<forall>i < pool_size s. workers s i \<noteq> Waiting"
      "t = s\<lparr>main_pc := SubmitUnlocking\<rparr>"
  | (submitted) "main_pc s = SubmitUnlocking" "t = s\<lparr>pool_lock := None, main_pc := InPass\<rparr>"
  | (cleanup_locked) "main_pc s = CleanupLocking" "pool_lock s = None"
      "t = s\<lparr>pool_lock := Some MainThread, main_pc := CleanupActions\<rparr>"
  | (drop) "main_pc s = CleanupActions"
      "t = s\<lparr>pending := [], pool_lock := None, main_pc := CleanupComLocking\<rparr>"
  | (cleanup_com_locked) "main_pc s = CleanupComLocking" "com_lock s = None"
      "t = s\<lparr>com_lock := Some MainThread, main_pc := CleanupCom\<rparr>"
  | (cleaned) "main_pc s = CleanupCom" "t = s\<lparr>com_lock := None, main_pc := StopLocking\<rparr>"
  | (stop_locked) "main_pc s = StopLocking" "pool_lock s = None"
      "t = s\<lparr>pool_lock := Some MainThread, main_pc := Stopping\<rparr>"
  | (stop) "main_pc s = Stopping"
      "t = (notify_all (s\<lparr>stop_workers := True\<rparr>))\<lparr>pool_lock := None, main_pc := Joining 0 False\<rparr>"
  | (not_joinable) idx again where "main_pc s = Joining idx again" "idx < pool_size s"
      "\<not> joinable s idx" "t = s\<lparr>main_pc := Joining (idx + 1) again\<rparr>"
  | (join) idx again where "main_pc s = Joining idx again" "idx < pool_size s"
      "workers s idx = Exited"
      "t = s\<lparr>joinable := (joinable s)(idx := False), main_pc := Joining (idx + 1) again\<rparr>"
  | (joined) idx again where "main_pc s = Joining idx again" "pool_size s \<le> idx"
      "t = s\<lparr>main_pc := (if again then StopLocking else Finished)\<rparr>"
  using assms
  by atomize_elim (cases "main_pc s";
      auto simp: main_step_def start_step_def join_step_def notify_one_step_def selecting_step_def
        pass_step_def lock_pool_def lock_com_def list_ex_iff split: main_event.splits if_splits)

lemma main_step_locks:
  assumes step: "main_step ev s = Some t" and inv: "locks_inv s"
    and unborn: "\<And>i. main_pc s = Spawning i \<Longrightarrow> i < pool_size s \<Longrightarrow> workers s i = Unborn"
  shows "locks_inv t"
proof -
  from inv have free: "workers s i \<in> {Unborn, Waiting} \<Longrightarrow>
      pool_lock s \<noteq> Some (WorkerThread i) \<and> com_lock s \<noteq> Some (WorkerThread i)" for i
    by (auto simp: locks_inv_def) (metis worker_holds_pool.simps worker_holds_com.simps)+
  from step show ?thesis
    by (cases rule: main_step_cases)
      (use inv unborn free in \<open>auto simp: locks_inv_def notify_all_def\<close>)
qed

lemma worker_step_threads:
  assumes step: "pool_worker_step jobs i s = Some t" and i: "i < pool_size s" and inv: "threads_inv s"
    and locks: "locks_inv s"
  shows "threads_inv t"
proof -
  from locks have pool: "worker_holds_pool (workers s i) \<longleftrightarrow> pool_lock s = Some (WorkerThread i)"
    by (simp add: locks_inv_def)
  from inv have live: "joinable s i" if "workers s i \<noteq> Unborn" "workers s i \<noteq> Exited"
    using that by (auto simp: threads_inv_def)
  from step show ?thesis
    by (cases rule: worker_step_cases) (use inv i pool live in \<open>auto simp: threads_inv_def\<close>)
qed

lemma main_step_threads:
  assumes step: "main_step ev s = Some t" and inv: "threads_inv s"
  shows "threads_inv t"
proof -
  from inv have live: "joinable s i" "i < pool_size s" if "workers s i = Waiting" for i
    using that by (auto simp: threads_inv_def) (metis linorder_not_le worker_pc.distinct(17))
  from step show ?thesis
    by (cases rule: main_step_cases) (use inv live in \<open>auto simp: threads_inv_def notify_all_def\<close>)
qed

lemma worker_step_stop:
  assumes step: "pool_worker_step jobs i s = Some t" and inv: "stop_inv s"
  shows "stop_inv t"
  using step
  by (cases rule: worker_step_cases) (use inv in \<open>auto simp: stop_inv_def\<close>)

lemma main_step_stop:
  assumes step: "main_step ev s = Some t" and inv: "stop_inv s"
  shows "stop_inv t"
  using step
  by (cases rule: main_step_cases) (use inv in \<open>auto simp: stop_inv_def notify_all_def\<close>)

lemma worker_step_spawned:
  assumes step: "pool_worker_step jobs i s = Some t" and inv: "spawned_inv s"
  shows "spawned_inv t"
proof -
  from inv have live: "\<not> stop_workers s \<Longrightarrow> workers s i \<noteq> Unborn \<Longrightarrow>
      i < spawned_below (pool_size s) (main_pc s)"
    by (meson linorder_not_le spawned_inv_def)
  from step show ?thesis
    by (cases rule: worker_step_cases) (use inv live in \<open>auto simp: spawned_inv_def\<close>)
qed

lemma main_step_spawned:
  assumes step: "main_step ev s = Some t" and inv: "spawned_inv s"
  shows "spawned_inv t"
proof -
  have below: "i < spawned_below (pool_size s) (main_pc s)"
    if "\<not> stop_workers s" "workers s i = Waiting" for i
    using inv that unfolding spawned_inv_def by (metis linorder_not_le worker_pc.distinct(17))
  from step show ?thesis
    by (cases rule: main_step_cases)
      (use inv below in \<open>auto simp: spawned_inv_def notify_all_def less_Suc_eq\<close>)
qed

lemma worker_step_joined:
  assumes step: "pool_worker_step jobs i s = Some t" and inv: "joined_inv s"
  shows "joined_inv t"
  using step
  by (cases rule: worker_step_cases) (use inv in \<open>simp_all add: joined_inv_def\<close>)

lemma main_step_joined:
  assumes step: "main_step ev s = Some t" and inv: "joined_inv s" and "threads_inv s"
  shows "joined_inv t"
  using step
  by (cases rule: main_step_cases)
    (use inv in \<open>auto simp: joined_inv_def notify_all_def less_Suc_eq\<close>)

lemma will_take_cases:
  "will_take pc \<or> pc = Unborn \<or> pc = Checking \<or> pc = Waiting \<or> pc = Exited \<or> pc = Undefined"
  by (cases pc) simp_all

lemma wakeup_inv_goto:
  assumes "wakeup_inv s" and "i < pool_size s" and "will_take pc"
  shows "wakeup_inv (goto i pc s)"
  using assms by (auto simp: wakeup_inv_def)

lemma worker_step_wakeup:
  assumes step: "pool_worker_step jobs i s = Some t" and quiet: "\<forall>x. \<not> raises jobs x"
    and i: "i < pool_size s" and inv: "wakeup_inv s" and locks: "locks_inv s"
  shows "wakeup_inv t"
proof -
  from locks have pool: "worker_holds_pool (workers s i) \<Longrightarrow> pool_lock s = Some (WorkerThread i)"
    by (simp add: locks_inv_def)
  from locks have alone: "worker_holds_pool (workers s j) \<Longrightarrow> worker_holds_pool (workers s i) \<Longrightarrow> j = i"
    for j by (simp add: locks_inv_def)
  have not_checking: "workers s j \<noteq> Checking" if "workers s i = Taking" for j
    using alone [of j] that by auto
  from step show ?thesis
  proof (cases rule: worker_step_cases)
    case (take x xs)
    with i not_checking show ?thesis by (auto simp: wakeup_inv_def intro!: exI [of _ i])
  next
    case wait
    with inv i show ?thesis by (auto simp: wakeup_inv_def)
  next
    case leave
    with inv i show ?thesis by (auto simp: wakeup_inv_def)
  next
    case undefined
    with pool show ?thesis by auto
  next
    case idle
    with inv show ?thesis by (auto simp: wakeup_inv_def)
  next
    case locked
    then show ?thesis using wakeup_inv_goto [OF inv i, of Testing] by (simp add: wakeup_inv_def)
  next
    case com_locked
    then show ?thesis using wakeup_inv_goto [OF inv i, of "ComHolding x" for x]
      by (simp add: wakeup_inv_def)
  next
    case com_unlocked
    then show ?thesis using wakeup_inv_goto [OF inv i, of Relocking] by (simp add: wakeup_inv_def)
  next
    case relocked
    then show ?thesis using wakeup_inv_goto [OF inv i, of Taking] by (simp add: wakeup_inv_def)
  qed (use wakeup_inv_goto [OF inv i] quiet in auto)
qed

lemma main_step_wakeup:
  assumes step: "main_step ev s = Some t" and inv: "pool_inv s"
  shows "wakeup_inv t"
proof -
  note invs = inv [unfolded pool_inv_def]
  from invs have old: "wakeup_inv s" by simp
  from invs have not_checking: "workers s j \<noteq> Checking"
    if "pool_lock s = None \<or> pool_lock s = Some MainThread" for j
    using that unfolding locks_inv_def
    by (metis option.discI option.inject pool_thread.distinct(1) worker_holds_pool.simps(3))
  from step show ?thesis
  proof (cases rule: main_step_cases)
    case (spawn idx)
    with invs have "pending s = []" by (simp add: stop_inv_def)
    with spawn show ?thesis by (simp add: wakeup_inv_def)
  next
    case (submit x)
    with not_checking show ?thesis by (simp add: wakeup_inv_def)
  next
    case (wake i)
    with invs have "i < pool_size s"
      by (auto simp: threads_inv_def) (metis linorder_not_le worker_pc.distinct(17))
    with wake old show ?thesis by (auto simp: wakeup_inv_def)
  next
    case wake_none
    with invs have "pool_lock s = Some MainThread" "\<not> stop_workers s" "workers s 0 \<noteq> Unborn"
      "workers s 0 \<noteq> Exited" "workers s 0 \<noteq> Undefined"
      by (auto simp: locks_inv_def stop_inv_def spawned_inv_def threads_inv_def)
    with not_checking wake_none invs have "will_take (workers s 0)"
      using will_take_cases [of "workers s 0"] by auto
    with invs wake_none old show ?thesis by (auto simp: wakeup_inv_def)
  qed (use old not_checking invs in \<open>auto simp: wakeup_inv_def notify_all_def stop_inv_def\<close>)
qed

lemma thread_step_inv:
  assumes "thread_step jobs s t" and "\<forall>x. \<not> raises jobs x" and "pool_inv s"
  shows "pool_inv t"
  using assms
proof (cases rule: thread_step.cases)
  case (worker i)
  moreover have "pool_size t = pool_size s"
    using worker(2) by (cases rule: worker_step_cases) simp_all
  ultimately show ?thesis
    using assms(2,3) unfolding pool_inv_def
    by (metis worker_step_joined worker_step_locks worker_step_spawned worker_step_stop
        worker_step_threads worker_step_wakeup)
next
  case (main ev)
  have size: "pool_size t = pool_size s"
    using main by (cases rule: main_step_cases) (simp_all add: notify_all_def)
  have unborn: "workers s i = Unborn" if "main_pc s = Spawning i" "i < pool_size s" for i
    using assms(3) that by (auto simp: pool_inv_def spawned_inv_def stop_inv_def)
  from main unborn main_step_wakeup [OF main assms(3)] assms(3) size show ?thesis
    unfolding pool_inv_def
    by (metis main_step_joined main_step_locks main_step_spawned main_step_stop main_step_threads)
qed

lemma spurious_inv:
  assumes waits: "workers s i = Waiting" and i: "i < pool_size s" and inv: "pool_inv s"
  shows "pool_inv (goto i Reacquiring s)"
proof -
  note invs = inv [unfolded pool_inv_def]
  from waits invs have joinable: "joinable s i" by (auto simp: threads_inv_def)
  from waits invs have "pool_lock s \<noteq> Some (WorkerThread i)"
    unfolding locks_inv_def by (metis worker_holds_pool.simps)
  moreover from waits invs have "com_lock s \<noteq> Some (WorkerThread i)"
    unfolding locks_inv_def by (metis worker_holds_com.simps)
  ultimately have "locks_inv (goto i Reacquiring s)"
    using invs by (simp add: locks_inv_def)
  moreover have "threads_inv (goto i Reacquiring s)"
    using invs joinable i by (simp add: threads_inv_def)
  moreover have "stop_inv (goto i Reacquiring s)"
    using invs waits by (auto simp: stop_inv_def)
  moreover have "i < spawned_below (pool_size s) (main_pc s)" if "\<not> stop_workers s"
    using invs waits that unfolding spawned_inv_def by (metis linorder_not_le worker_pc.distinct(17))
  then have "spawned_inv (goto i Reacquiring s)"
    using invs by (auto simp: spawned_inv_def)
  ultimately show ?thesis
    using invs i by (simp add: pool_inv_def joined_inv_def wakeup_inv_goto)
qed

lemma pool_reachable_inv:
  assumes "pool_reachable jobs n s" and "0 < n" and "\<forall>x. \<not> raises jobs x"
  shows "pool_inv s"
  using assms
proof (induction rule: pool_reachable.induct)
  case created
  then show ?case by (simp add: new_pool_inv)
next
  case (stepped s t)
  from stepped.hyps(2) stepped.prems stepped.IH show ?case
    by (cases rule: pool_step.cases) (auto intro: thread_step_inv spurious_inv)
qed

section \<open>Nobody waits for ever\<close>

text \<open>Some thread can make a step.\<close>

definition can_step :: "'a jobs \<Rightarrow> 'a worker_pool \<Rightarrow> bool" where
  "can_step jobs s \<longleftrightarrow> (\<exists>t. thread_step jobs s t)"

lemma worker_can_step: "i < pool_size s \<Longrightarrow> pool_worker_step jobs i s \<noteq> None \<Longrightarrow> can_step jobs s"
  by (auto simp: can_step_def intro: thread_step.worker)

lemma main_can_step: "main_step ev s \<noteq> None \<Longrightarrow> can_step jobs s"
  by (auto simp: can_step_def intro: thread_step.main)

lemma worker_exists: "pool_inv s \<Longrightarrow> workers s i \<noteq> Unborn \<Longrightarrow> i < pool_size s"
  by (auto simp: pool_inv_def threads_inv_def) (meson linorder_not_le)

lemma notifying_can_step: "main_pc s = Notifying \<Longrightarrow> can_step jobs s"
  by (cases "list_ex (\<lambda>i. workers s i = Waiting) [0..<pool_size s]")
    (auto simp: main_step_def notify_one_step_def list_ex_iff
      intro: main_can_step [of Proceed] main_can_step [of "Wake i" for i])

lemma pool_lock_holder_steps:
  assumes inv: "pool_inv s" and held: "pool_lock s = Some t"
  shows "can_step jobs s"
proof (cases t)
  case MainThread
  with inv held have "main_holds_pool (main_pc s)" by (simp add: pool_inv_def locks_inv_def)
  then show ?thesis
    by (cases "main_pc s")
      (auto simp: main_step_def start_step_def
        intro: notifying_can_step main_can_step [of Proceed])
next
  case (WorkerThread i)
  with inv held have holds: "worker_holds_pool (workers s i)" by (simp add: pool_inv_def locks_inv_def)
  then have "i < pool_size s" by (intro worker_exists [OF inv]) auto
  with holds show ?thesis
    by (intro worker_can_step [of i])
      (cases "workers s i"; auto simp: pool_worker_step_def executor_step_def split: list.split)+
qed

lemma com_lock_holder_steps:
  assumes inv: "pool_inv s" and held: "com_lock s = Some t"
  shows "can_step jobs s"
proof (cases "pool_lock s")
  case (Some t')
  with inv show ?thesis by (rule pool_lock_holder_steps)
next
  case free: None
  show ?thesis
  proof (cases t)
    case MainThread
    with inv held have "main_holds_com (main_pc s)" by (simp add: pool_inv_def locks_inv_def)
    with free show ?thesis
      by (cases "main_pc s")
        (auto simp: main_step_def pass_step_def lock_pool_def
          intro: notifying_can_step main_can_step [of Proceed])
  next
    case (WorkerThread i)
    with inv held have holds: "worker_holds_com (workers s i)" by (simp add: pool_inv_def locks_inv_def)
    then have "i < pool_size s" by (intro worker_exists [OF inv]) auto
    with holds show ?thesis
      by (intro worker_can_step [of i])
        (cases "workers s i"; auto simp: pool_worker_step_def executor_step_def)+
  qed
qed

lemma busy_worker_steps:
  assumes inv: "pool_inv s" and "workers s i \<noteq> Unborn" and "workers s i \<noteq> Waiting"
    and "workers s i \<noteq> Exited"
  shows "can_step jobs s"
proof (cases "pool_lock s = None \<and> com_lock s = None")
  case True
  from assms have "i < pool_size s" by (intro worker_exists [OF inv])
  moreover from assms have "workers s i \<noteq> Undefined" by (simp add: pool_inv_def threads_inv_def)
  ultimately show ?thesis
    using assms(2-) True
    by (intro worker_can_step [of i]) (cases "workers s i"; auto simp: step_defs split: list.split)+
next
  case False
  then show ?thesis
    using pool_lock_holder_steps [OF inv] com_lock_holder_steps [OF inv] by auto
qed

lemma pool_progress:
  assumes inv: "pool_inv s" and running: "main_pc s \<noteq> Finished"
  shows "can_step jobs s"
proof (cases "pool_lock s = None \<and> com_lock s = None")
  case False
  then show ?thesis
    using pool_lock_holder_steps [OF inv] com_lock_holder_steps [OF inv] by auto
next
  case free: True
  show ?thesis
  proof (cases "\<exists>idx again. main_pc s = Joining idx again")
    case False
    with free running show ?thesis
      by (cases "main_pc s")
        (auto simp: main_step_def start_step_def pass_step_def selecting_step_def lock_pool_def
          lock_com_def intro: notifying_can_step main_can_step [of Proceed] main_can_step [of BeginPass])
  next
    case True
    then obtain idx again where join: "main_pc s = Joining idx again" by blast
    then have "stop_workers s" using inv by (simp add: pool_inv_def stop_inv_def)
    then have awake: "workers s idx \<noteq> Waiting" using inv by (auto simp: pool_inv_def stop_inv_def)
    show ?thesis
    proof (cases "idx < pool_size s \<and> joinable s idx \<and> workers s idx \<noteq> Exited")
      case True
      with inv awake show ?thesis
        by (intro busy_worker_steps [of s idx]) (auto simp: pool_inv_def threads_inv_def)
    next
      case False
      with join show ?thesis
        by (intro main_can_step [of Proceed]) (auto simp: main_step_def join_step_def)
    qed
  qed
qed

section \<open>Work comes to an end\<close>

fun worker_rank :: "bool \<Rightarrow> 'a worker_pc \<Rightarrow> nat" where
  "worker_rank stop (Executing x) = 7"
| "worker_rank stop (ComLocking x) = 6"
| "worker_rank stop (ComHolding x) = 5"
| "worker_rank stop Locking = 5"
| "worker_rank stop Reacquiring = 5"
| "worker_rank stop Relocking = 4"
| "worker_rank stop Testing = (if stop then 1 else 4)"
| "worker_rank stop Taking = 3"
| "worker_rank stop Checking = 2"
| "worker_rank stop Waiting = 1"
| "worker_rank stop _ = 0"

text \<open>What the workers have left to do if nothing is added: ten steps cover one request.\<close>

definition work_left :: "'a worker_pool \<Rightarrow> nat" where
  "work_left s =
     10 * length (pending s) + (\<Sum>i < pool_size s. worker_rank (stop_workers s) (workers s i))"

fun join_left :: "nat \<Rightarrow> 'a main_pc \<Rightarrow> nat" where
  "join_left n (Joining idx again) = n - idx + 1 + (if again then n + 3 else 0)"
| "join_left n StopLocking = n + 3"
| "join_left n Stopping = n + 2"
| "join_left n _ = 0"

lemma rank_sum_update:
  assumes "i < (n::nat)"
  shows "(\<Sum>j < n. worker_rank b ((w(i := pc)) j)) + worker_rank b (w i)
       = (\<Sum>j < n. worker_rank b (w j)) + worker_rank b pc"
proof -
  have "(\<Sum>j < n. f j) = f i + (\<Sum>j \<in> {..<n} - {i}. f j)" for f :: "nat \<Rightarrow> nat"
    using assms by (simp add: sum.remove)
  from this [of "\<lambda>j. worker_rank b ((w(i := pc)) j)"] this [of "\<lambda>j. worker_rank b (w j)"]
  show ?thesis by simp
qed

lemma rank_sum_less:
  assumes "i < (n::nat)" and "worker_rank b pc < worker_rank b (w i)"
  shows "(\<Sum>j < n. worker_rank b ((w(i := pc)) j)) < (\<Sum>j < n. worker_rank b (w j))"
  using rank_sum_update [OF assms(1), of b w pc] assms(2) by linarith

lemma worker_step_work_left:
  assumes step: "pool_worker_step jobs i s = Some t" and quiet: "\<forall>x. \<not> raises jobs x"
    and i: "i < pool_size s" and inv: "pool_inv s"
  shows "work_left t < work_left s"
proof -
  from inv have holds: "worker_holds_pool (workers s i) \<Longrightarrow> pool_lock s = Some (WorkerThread i)"
    by (simp add: pool_inv_def locks_inv_def)
  note less = rank_sum_less [OF i, of "stop_workers s" _ "workers s"]
  from step show ?thesis
  proof (cases rule: worker_step_cases)
    case locked
    with less [of Testing] show ?thesis by (auto simp: work_left_def simp del: fun_upd_apply)
  next
    case leave
    with less [of Exited] show ?thesis by (simp add: work_left_def del: fun_upd_apply)
  next
    case undefined
    with holds show ?thesis by auto
  next
    case (take x xs)
    with rank_sum_update [OF i, of "stop_workers s" "workers s" "Executing x"]
    show ?thesis by (simp add: work_left_def del: fun_upd_apply)
  next
    case (raised x)
    with quiet show ?thesis by simp
  next
    case recheck
    with less [of Testing] show ?thesis by (simp add: work_left_def del: fun_upd_apply)
  qed (simp_all add: work_left_def rank_sum_less [OF i] del: fun_upd_apply)
qed

lemma notify_all_stopped:
  "stop_inv s \<Longrightarrow> stop_workers s \<Longrightarrow> notify_all (s\<lparr>stop_workers := True\<rparr>) = s"
  by (auto simp: notify_all_def stop_inv_def fun_eq_iff)

text \<open>After the stop every step of any thread counts down.\<close>

definition stop_left :: "'a worker_pool \<Rightarrow> nat" where
  "stop_left s = work_left s + join_left (pool_size s) (main_pc s)"

lemma worker_step_frame:
  "pool_worker_step jobs i s = Some t \<Longrightarrow>
     main_pc t = main_pc s \<and> pool_size t = pool_size s \<and> stop_workers t = stop_workers s \<and>
     (\<forall>j. j \<noteq> i \<longrightarrow> workers t j = workers s j)"
  by (erule worker_step_cases) simp_all

lemma main_step_stop_left:
  assumes step: "main_step ev s = Some t" and inv: "pool_inv s" and stop: "stop_workers s"
  shows "stop_left t < stop_left s \<and> stop_workers t"
proof -
  from inv have stop_inv: "stop_inv s" by (simp add: pool_inv_def)
  with stop have pcs: "winding_up (main_pc s) \<or> main_pc s = StopLocking \<or> main_pc s = Stopping"
    by (simp add: stop_inv_def)
  from step show ?thesis
    by (cases rule: main_step_cases)
      (use pcs stop in \<open>auto simp: stop_left_def work_left_def notify_all_stopped [OF stop_inv stop]\<close>)
qed

lemma pool_step_inv:
  assumes "pool_step jobs s t" and "\<forall>x. \<not> raises jobs x" and "pool_inv s"
  shows "pool_inv t"
  using assms by (cases rule: pool_step.cases) (auto intro: thread_step_inv spurious_inv)

lemma pool_step_stop_left:
  assumes step: "pool_step jobs s t" and quiet: "\<forall>x. \<not> raises jobs x" and inv: "pool_inv s"
    and stop: "stop_workers s"
  shows "stop_left t < stop_left s \<and> stop_workers t"
  using step
proof (cases rule: pool_step.cases)
  case thread
  then show ?thesis
  proof (cases rule: thread_step.cases)
    case (worker i)
    from worker_step_work_left [OF worker(2) quiet worker(1) inv] worker_step_frame [OF worker(2)] stop
    show ?thesis by (simp add: stop_left_def)
  next
    case (main ev)
    then show ?thesis by (rule main_step_stop_left [OF _ inv stop])
  qed
next
  case (spurious i)
  with inv stop show ?thesis by (auto simp: pool_inv_def stop_inv_def)
qed

lemma stopped_run_bounded:
  assumes "(pool_step jobs ^^ k) s t" and "\<forall>x. \<not> raises jobs x" and "pool_inv s" and "stop_workers s"
  shows "k + stop_left t \<le> stop_left s \<and> pool_inv t \<and> stop_workers t"
  using assms
proof (induction k arbitrary: t)
  case 0
  then show ?case by simp
next
  case (Suc k)
  from Suc.prems(1) obtain u where run: "(pool_step jobs ^^ k) s u" and last: "pool_step jobs u t"
    by (auto elim: relpowp_Suc_E)
  from Suc.IH [OF run Suc.prems(2-4)] have u: "k + stop_left u \<le> stop_left s" "pool_inv u" "stop_workers u"
    by simp_all
  from pool_step_stop_left [OF last Suc.prems(2) u(2,3)] pool_step_inv [OF last Suc.prems(2) u(2)] u(1)
  show ?case by simp
qed

text \<open>The steps of the workers alone.\<close>

definition worker_turn :: "'a jobs \<Rightarrow> 'a worker_pool \<Rightarrow> 'a worker_pool \<Rightarrow> bool" where
  "worker_turn jobs s t \<longleftrightarrow> (\<exists>i < pool_size s. pool_worker_step jobs i s = Some t)"

lemma worker_turns_bounded:
  assumes "(worker_turn jobs ^^ k) s t" and "\<forall>x. \<not> raises jobs x" and "pool_inv s"
  shows "k + work_left t \<le> work_left s \<and> pool_inv t \<and> main_pc t = main_pc s \<and>
         stop_workers t = stop_workers s \<and> pool_size t = pool_size s"
  using assms
proof (induction k arbitrary: t)
  case 0
  then show ?case by simp
next
  case (Suc k)
  from Suc.prems(1) obtain u where run: "(worker_turn jobs ^^ k) s u" and last: "worker_turn jobs u t"
    by (auto elim: relpowp_Suc_E)
  from Suc.IH [OF run Suc.prems(2,3)] have u: "k + work_left u \<le> work_left s" "pool_inv u"
    "main_pc u = main_pc s" "stop_workers u = stop_workers s" "pool_size u = pool_size s"
    by simp_all
  from last obtain i where i: "i < pool_size u" and step: "pool_worker_step jobs i u = Some t"
    by (auto simp: worker_turn_def)
  have "pool_inv t"
    using i step Suc.prems(2) u(2) by (blast intro: thread_step_inv thread_step.worker)
  with worker_step_work_left [OF step Suc.prems(2) i u(2)] worker_step_frame [OF step] u
  show ?case by simp
qed

lemma workers_stuck:
  assumes inv: "pool_inv s" and main: "\<not> main_holds_pool (main_pc s)" "\<not> main_holds_com (main_pc s)"
    and up: "\<not> starting_up (main_pc s)" and run: "\<not> stop_workers s"
    and stuck: "\<And>t. \<not> worker_turn jobs s t" and i: "i < pool_size s"
  shows "workers s i = Waiting"
proof -
  have no_step: "pool_worker_step jobs j s = None" if "j < pool_size s" for j
    using stuck that by (cases "pool_worker_step jobs j s") (auto simp: worker_turn_def)
  have pool_free: "pool_lock s = None"
  proof (rule ccontr)
    assume "pool_lock s \<noteq> None"
    with inv main obtain j where "worker_holds_pool (workers s j)"
      unfolding pool_inv_def locks_inv_def by (metis option.exhaust pool_thread.exhaust)
    moreover from this have "j < pool_size s" by (intro worker_exists [OF inv]) auto
    ultimately show False
      using no_step [of j]
      by (cases "workers s j") (auto simp: step_defs split: list.splits if_splits)
  qed
  have com_free: "com_lock s = None"
  proof (rule ccontr)
    assume "com_lock s \<noteq> None"
    with inv main obtain j where "worker_holds_com (workers s j)"
      unfolding pool_inv_def locks_inv_def by (metis option.exhaust pool_thread.exhaust)
    moreover from this have "j < pool_size s" by (intro worker_exists [OF inv]) auto
    ultimately show False
      using no_step [of j] by (cases "workers s j") (auto simp: step_defs)
  qed
  have "spawned_below (pool_size s) (main_pc s) = pool_size s"
    using up by (cases "main_pc s") simp_all
  with i inv run have "workers s i \<noteq> Unborn" "workers s i \<noteq> Exited" "workers s i \<noteq> Undefined"
    by (auto simp: pool_inv_def spawned_inv_def stop_inv_def threads_inv_def)
  with no_step [OF i] pool_free com_free show ?thesis
    by (cases "workers s i") (auto simp: step_defs split: list.splits if_splits)
qed

section \<open>The pool object and its move constructor\<close>

text \<open>
  The members that point to what the pool works with; a null pointer is \<open>None\<close>. The move
  constructor takes the threads over, but the moved-from object's destructor still calls
  \<open>stop_threads\<close>, which locks \<open>*pool_lock\<close>.
\<close>

record pool_object =
  lock_ptr :: "nat option"
  threads_mgr :: "nat option"
  threads_ptr :: "nat option"
  object_size :: nat
  executor_ptr :: "nat option"

definition construct_pool :: "nat \<Rightarrow> nat \<Rightarrow> nat \<Rightarrow> nat \<Rightarrow> pool_object" where
  "construct_pool lock worker_count executor new_threads =
     \<lparr>lock_ptr = Some lock, threads_mgr = Some new_threads, threads_ptr = Some new_threads,
      object_size = worker_count, executor_ptr = Some executor\<rparr>"

definition move_pool :: "pool_object \<Rightarrow> (pool_object \<times> pool_object) option" where
  "move_pool orig =
     (case lock_ptr orig of
        None \<Rightarrow> None
      | Some lock \<Rightarrow>
          Some (\<lparr>lock_ptr = Some lock, threads_mgr = threads_mgr orig, threads_ptr = threads_ptr orig,
                 object_size = object_size orig, executor_ptr = executor_ptr orig\<rparr>,
                orig\<lparr>threads_mgr := None, lock_ptr := None, threads_ptr := None,
                     executor_ptr := None\<rparr>))"

text \<open>The pointers \<open>stop_threads\<close> follows: the mutex, and the threads if there are any.\<close>

definition stop_threads_defined :: "pool_object \<Rightarrow> bool" where
  "stop_threads_defined ob \<longleftrightarrow>
     lock_ptr ob \<noteq> None \<and> (0 < object_size ob \<longrightarrow> threads_ptr ob \<noteq> None)"

lemma moved_from_pool_not_destructible:
  "move_pool (construct_pool lock n executor ts) = Some (new, orig) \<Longrightarrow>
     stop_threads_defined new \<and> \<not> stop_threads_defined orig"
  by (auto simp: move_pool_def construct_pool_def stop_threads_defined_def)

section \<open>Runs that can be evaluated\<close>

datatype 'a choice = Moves nat | MainMoves "'a main_event" | WakesUp nat

fun schedule_step :: "'a jobs \<Rightarrow> 'a choice \<Rightarrow> 'a worker_pool \<Rightarrow> 'a worker_pool option" where
  "schedule_step jobs (Moves i) s = (if i < pool_size s then pool_worker_step jobs i s else None)"
| "schedule_step jobs (MainMoves ev) s = main_step ev s"
| "schedule_step jobs (WakesUp i) s =
     (if i < pool_size s \<and> workers s i = Waiting then Some (goto i Reacquiring s) else None)"

fun run_schedule :: "'a jobs \<Rightarrow> 'a choice list \<Rightarrow> 'a worker_pool \<Rightarrow> 'a worker_pool option" where
  "run_schedule jobs [] s = Some s"
| "run_schedule jobs (c # cs) s =
     (case schedule_step jobs c s of None \<Rightarrow> None | Some t \<Rightarrow> run_schedule jobs cs t)"

lemma schedule_step_pool_step: "schedule_step jobs c s = Some t \<Longrightarrow> pool_step jobs s t"
  by (cases c) (auto intro: pool_step.intros thread_step.intros split: if_splits)

lemma run_schedule_reachable:
  "run_schedule jobs cs s = Some t \<Longrightarrow> pool_reachable jobs n s \<Longrightarrow> pool_reachable jobs n t"
proof (induction cs arbitrary: s)
  case (Cons c cs)
  then show ?case
    by (auto split: option.splits)
      (blast intro: pool_reachable.stepped schedule_step_pool_step)
qed simp

text \<open>A pool of one worker that waits, and the request that wakes it.\<close>

definition schedule_start :: "nat choice list" where
  "schedule_start = [MainMoves Proceed, MainMoves Proceed, MainMoves Proceed,
     Moves 0, Moves 0, Moves 0, Moves 0]"

definition schedule_request :: "nat choice list" where
  "schedule_request = [MainMoves BeginPass, MainMoves Proceed, MainMoves (Request 5),
     MainMoves Proceed, MainMoves (Wake 0), MainMoves Proceed, MainMoves Proceed]"

definition schedule_stop :: "nat choice list" where
  "schedule_stop = [MainMoves Shutdown, MainMoves Proceed, MainMoves Proceed, MainMoves Proceed,
     MainMoves Proceed, MainMoves Proceed, MainMoves Proceed]"

definition quiet_jobs :: "nat jobs" where
  "quiet_jobs = \<lparr>raises = (\<lambda>x. False), resumes = (\<lambda>x. True)\<rparr>"

definition scheduled :: "nat choice list \<Rightarrow> nat worker_pool" where
  "scheduled cs = (case run_schedule quiet_jobs cs (new_pool 1) of
     Some s \<Rightarrow> s | None \<Rightarrow> new_pool 1)"

lemma scheduled_reachable: "pool_reachable quiet_jobs 1 (scheduled cs)"
  by (auto simp: scheduled_def split: option.split
      intro: run_schedule_reachable pool_reachable.created)

lemma quiet_jobs_quiet: "\<forall>x. \<not> raises quiet_jobs x"
  by (simp add: quiet_jobs_def)

lemmas schedule_simps = schedule_start_def schedule_request_def schedule_stop_def quiet_jobs_def
  new_pool_def step_defs

lemma scheduled_waiting:
  "workers (scheduled schedule_start) 0 = Waiting" "main_pc (scheduled schedule_start) = Selecting"
  by (simp_all add: scheduled_def schedule_simps)

lemma scheduled_requested:
  "pending (scheduled (schedule_start @ schedule_request)) = [5]"
  "main_pc (scheduled (schedule_start @ schedule_request)) = Selecting"
  "stop_workers (scheduled (schedule_start @ schedule_request)) = False"
  by (simp_all add: scheduled_def schedule_simps)

lemma scheduled_stopped:
  "stop_workers (scheduled (schedule_start @ schedule_stop))"
  "main_pc (scheduled (schedule_start @ schedule_stop)) = Joining 0 False"
  by (simp_all add: scheduled_def schedule_simps)

section \<open>An exception in a worker\<close>

text \<open>
  The handler of \<open>process_action_queue\<close> returns without the mutex; the wait that follows
  uses a mutex the thread does not own.
\<close>

lemma worker_exception_undefined:
  assumes "raises jobs x"
  shows "\<exists>s. pool_reachable jobs 1 s \<and> workers s 0 = Undefined"
proof -
  define cs where "cs = [MainMoves Proceed, MainMoves Proceed, MainMoves Proceed,
    MainMoves BeginPass, MainMoves Proceed, MainMoves (Request x), MainMoves Proceed,
    MainMoves Proceed, MainMoves Proceed, Moves 0, Moves 0, Moves 0, Moves 0, Moves 0]"
  have "\<exists>t. run_schedule jobs cs (new_pool 1) = Some t \<and> workers t 0 = Undefined"
    using assms by (simp add: cs_def new_pool_def step_defs)
  then show ?thesis by (blast intro: run_schedule_reachable pool_reachable.created)
qed

section \<open>Runs without an exception\<close>

text \<open>
  A worker is at a request that will end in an exception. Steps from any other state are the
  same as if no request ever raised one; a run is calm if it has passed through such states
  only, whatever requests there are that nobody has taken.
\<close>

definition raising :: "'a jobs \<Rightarrow> 'a worker_pool \<Rightarrow> bool" where
  "raising jobs s \<longleftrightarrow> (\<exists>i x. workers s i = Executing x \<and> raises jobs x)"

definition calm_step :: "'a jobs \<Rightarrow> 'a worker_pool \<Rightarrow> 'a worker_pool \<Rightarrow> bool" where
  "calm_step jobs s t \<longleftrightarrow> pool_step jobs s t \<and> \<not> raising jobs s"

definition calm_turn :: "'a jobs \<Rightarrow> 'a worker_pool \<Rightarrow> 'a worker_pool \<Rightarrow> bool" where
  "calm_turn jobs s t \<longleftrightarrow> worker_turn jobs s t \<and> \<not> raising jobs s"

abbreviation unraised :: "'a jobs \<Rightarrow> 'a jobs" where
  "unraised jobs \<equiv> jobs\<lparr>raises := (\<lambda>x. False)\<rparr>"

lemma worker_step_unraised:
  "\<not> raising jobs s \<Longrightarrow> pool_worker_step (unraised jobs) i s = pool_worker_step jobs i s"
  by (cases "workers s i") (auto simp: raising_def pool_worker_step_def executor_step_def)

lemma thread_step_unraised:
  assumes "thread_step jobs s t" and "\<not> raising jobs s"
  shows "thread_step (unraised jobs) s t"
  using assms
proof (cases rule: thread_step.cases)
  case (worker i)
  with worker_step_unraised [OF assms(2)] show ?thesis by (metis thread_step.worker)
next
  case (main ev)
  then show ?thesis by (rule thread_step.main)
qed

lemma calm_step_unraised: "calm_step jobs s t \<Longrightarrow> pool_step (unraised jobs) s t"
  unfolding calm_step_def
  by (auto elim!: pool_step.cases intro: pool_step.intros thread_step_unraised)

lemma calm_turn_unraised: "calm_turn jobs s t \<Longrightarrow> worker_turn (unraised jobs) s t"
  by (auto simp: calm_turn_def worker_turn_def worker_step_unraised)

lemma calm_run_inv:
  assumes "(calm_step jobs)\<^sup>*\<^sup>* (new_pool n) s" and "0 < n"
  shows "pool_inv s"
proof -
  from assms(1) have "pool_reachable (unraised jobs) n s"
    by (induction rule: rtranclp_induct) (auto intro: pool_reachable.intros calm_step_unraised)
  then show ?thesis using assms(2) by (rule pool_reachable_inv) simp
qed

lemma quiet_run_calm:
  assumes "pool_reachable jobs n s" and "\<forall>x. \<not> raises jobs x"
  shows "(calm_step jobs)\<^sup>*\<^sup>* (new_pool n) s"
  using assms
  by (induction rule: pool_reachable.induct)
    (auto simp: calm_step_def raising_def intro: rtranclp.rtrancl_into_rtrancl)

lemma scheduled_calm: "(calm_step quiet_jobs)\<^sup>*\<^sup>* (new_pool 1) (scheduled cs)"
  by (rule quiet_run_calm [OF scheduled_reachable quiet_jobs_quiet])

section \<open>Properties\<close>

text \<open>
  Property C14. As long as none of the requests that workers have taken so far has ended in an
  exception (worker_exception_undefined shows what happens otherwise; a client can send one
  that does), in every reachable state of the pool at most one thread is inside the sections guarded by the action
  queue's mutex, at most one inside those guarded by the com queue's, and no thread uses a
  mutex it does not own. No wakeup is lost: while requests are queued (and the selector is not
  between queueing one and notifying), some worker that is not waiting will look at the queue.
  And there is no deadlock: until the main thread has finished, some thread can make a step
  without the help of a spurious wakeup, with the two mutexes, the condition variable, the
  joins and failing thread creation all considered.
\<close>

theorem pool_locks_and_wakeups:
  assumes "(calm_step jobs)\<^sup>*\<^sup>* (new_pool n) s" and "0 < n"
  shows "(\<forall>i j. worker_holds_pool (workers s i) \<longrightarrow> worker_holds_pool (workers s j) \<longrightarrow> i = j) \<and>
         (\<forall>i j. worker_holds_com (workers s i) \<longrightarrow> worker_holds_com (workers s j) \<longrightarrow> i = j) \<and>
         (main_holds_pool (main_pc s) \<longrightarrow> (\<forall>i. \<not> worker_holds_pool (workers s i))) \<and>
         (main_holds_com (main_pc s) \<longrightarrow> (\<forall>i. \<not> worker_holds_com (workers s i))) \<and>
         (\<forall>i. workers s i \<noteq> Undefined) \<and>
         (pending s \<noteq> [] \<and> \<not> stop_workers s \<and> main_pc s \<noteq> Notifying \<longrightarrow>
            (\<exists>i < pool_size s. will_take (workers s i))) \<and>
         (main_pc s \<noteq> Finished \<longrightarrow> (\<exists>t. thread_step jobs s t))"
proof -
  from assms have inv: "pool_inv s" by (rule calm_run_inv)
  then have "main_pc s \<noteq> Finished \<longrightarrow> (\<exists>t. thread_step jobs s t)"
    using pool_progress by (auto simp: can_step_def)
  with inv show ?thesis
    by (auto simp: pool_inv_def locks_inv_def threads_inv_def wakeup_inv_def)
qed

theorem pool_locks_and_wakeups_witness:
  "\<exists>i < pool_size (scheduled (schedule_start @ schedule_request)).
     will_take (workers (scheduled (schedule_start @ schedule_request)) i)"
  using pool_locks_and_wakeups [OF scheduled_calm, of "schedule_start @ schedule_request"]
  by (simp add: scheduled_requested)

text \<open>
  Property C25. Queued requests are all taken, as long as none that has been taken ends in an
  exception: while the main thread is outside its critical sections, the workers can make at most \<open>work_left\<close> steps (ten for each queued request and
  seven for each worker bound it), and when none of them can go on the queue is empty and
  every worker waits on the condition variable.
\<close>

theorem pool_drains:
  assumes "(calm_step jobs)\<^sup>*\<^sup>* (new_pool n) s" and "0 < n"
    and "main_pc s = Selecting" and "(calm_turn jobs ^^ k) s t"
  shows "k \<le> work_left s \<and>
         ((\<forall>u. \<not> worker_turn jobs t u) \<longrightarrow>
            pending t = [] \<and> (\<forall>i < pool_size t. workers t i = Waiting))"
proof -
  have inv: "pool_inv s" using assms(1,2) by (rule calm_run_inv)
  with assms(3) have run: "\<not> stop_workers s" by (auto simp: pool_inv_def stop_inv_def)
  have "(worker_turn (unraised jobs) ^^ k) s t"
    by (rule relpowp_mono [OF calm_turn_unraised assms(4)])
  from worker_turns_bounded [OF this _ inv] have t: "k + work_left t \<le> work_left s" "pool_inv t"
    "main_pc t = main_pc s" "stop_workers t = stop_workers s" "pool_size t = pool_size s" by simp_all
  have "pending t = [] \<and> (\<forall>i < pool_size t. workers t i = Waiting)"
    if stuck: "\<forall>u. \<not> worker_turn jobs t u"
  proof -
    from t run assms(3) stuck have waiting: "\<forall>i < pool_size t. workers t i = Waiting"
      by (auto intro!: workers_stuck)
    with t run assms(3) have "pending t = []"
      by (auto simp: pool_inv_def wakeup_inv_def)
    with waiting show ?thesis by simp
  qed
  with t show ?thesis by auto
qed

text \<open>The worker serves the request in nine steps and waits again.\<close>

lemma run_moves_turns:
  "run_schedule jobs (map Moves is) s = Some t \<Longrightarrow> (worker_turn jobs ^^ length is) s t"
proof (induction "is" arbitrary: s)
  case (Cons i "is")
  then obtain u where u: "i < pool_size s" "pool_worker_step jobs i s = Some u"
    "run_schedule jobs (map Moves is) u = Some t"
    by (auto split: option.splits if_splits)
  then have "worker_turn jobs s u" by (auto simp: worker_turn_def)
  from relpowp_Suc_I2 [OF this Cons.IH [OF u(3)]] show ?case by simp
qed simp

definition schedule_serve :: "nat choice list" where
  "schedule_serve = map Moves (replicate 9 0)"

lemma scheduled_drained:
  "run_schedule quiet_jobs schedule_serve (scheduled (schedule_start @ schedule_request)) =
     Some (scheduled (schedule_start @ schedule_request @ schedule_serve))"
  "workers (scheduled (schedule_start @ schedule_request @ schedule_serve)) 0 = Waiting"
  "pool_size (scheduled (schedule_start @ schedule_request @ schedule_serve)) = 1"
  by (simp_all add: scheduled_def schedule_serve_def schedule_simps numeral_eq_Suc)

theorem pool_drains_witness:
  "9 \<le> work_left (scheduled (schedule_start @ schedule_request)) \<and>
   pending (scheduled (schedule_start @ schedule_request @ schedule_serve)) = []"
proof -
  let ?s = "scheduled (schedule_start @ schedule_request)"
  let ?t = "scheduled (schedule_start @ schedule_request @ schedule_serve)"
  have "(worker_turn quiet_jobs ^^ 9) ?s ?t"
    using run_moves_turns [of quiet_jobs "replicate 9 0" ?s ?t] scheduled_drained(1)
    by (simp add: schedule_serve_def)
  then have turns: "(calm_turn quiet_jobs ^^ 9) ?s ?t"
    by (rule relpowp_mono [rotated]) (simp add: calm_turn_def raising_def quiet_jobs_quiet)
  have "\<not> worker_turn quiet_jobs ?t u" for u
    by (simp add: worker_turn_def scheduled_drained(2,3) pool_worker_step_def executor_step_def)
  with pool_drains [OF scheduled_calm _ scheduled_requested(2) turns] show ?thesis
    by simp
qed

text \<open>
  Property C24. Stopping the pool terminates, as long as no request that has been taken ends in
  an exception: once the stop flag is set, at most \<open>stop_left\<close>
  further steps of any threads are possible, the run cannot get stuck before the main thread
  has finished, and when it has finished every worker thread has returned and been joined (or
  was never created).
\<close>

theorem pool_stop_terminates:
  assumes "(calm_step jobs)\<^sup>*\<^sup>* (new_pool n) s" and "0 < n"
    and "stop_workers s" and "(calm_step jobs ^^ k) s t"
  shows "k \<le> stop_left s \<and>
         (main_pc t \<noteq> Finished \<longrightarrow> (\<exists>u. pool_step jobs t u)) \<and>
         (main_pc t = Finished \<longrightarrow>
            (\<forall>i. \<not> joinable t i \<and> (workers t i = Exited \<or> workers t i = Unborn)))"
proof -
  have "pool_inv s" using assms(1,2) by (rule calm_run_inv)
  have "(pool_step (unraised jobs) ^^ k) s t"
    by (rule relpowp_mono [OF calm_step_unraised assms(4)])
  from stopped_run_bounded [OF this _ \<open>pool_inv s\<close> assms(3)]
  have bound: "k \<le> stop_left s" and inv: "pool_inv t" by simp_all
  have "\<exists>u. pool_step jobs t u" if "main_pc t \<noteq> Finished"
    using pool_progress [OF inv that] by (auto simp: can_step_def intro: pool_step.thread)
  moreover have "\<not> joinable t i \<and> (workers t i = Exited \<or> workers t i = Unborn)"
    if "main_pc t = Finished" for i
    using inv that by (cases "i < pool_size t") (auto simp: pool_inv_def threads_inv_def joined_inv_def)
  ultimately show ?thesis using bound by blast
qed

theorem pool_stop_terminates_witness:
  "\<exists>u. pool_step quiet_jobs (scheduled (schedule_start @ schedule_stop)) u"
  using pool_stop_terminates [OF scheduled_calm, of "schedule_start @ schedule_stop" 0]
  by (simp add: scheduled_stopped)

end
