(* ===== verification/Arguments.thy ===== *)
theory Arguments
  imports Char_Buffer
begin

text \<open>
  Named arguments (Arguments.h, Arguments.cpp): a map from keys to entries with a value buffer
  of fixed capacity, filled from texts of the form \<open>key=value\<close>. The map \<open>QTree\<close> belongs to a
  library that is not part of the repository, so its operations are a parameter; the locale
  \<open>key_tree\<close> says what the code relies on.
\<close>

section \<open>The map\<close>

text \<open>
  The member functions of \<open>QTree<const CharBuffer, Entry>\<close> the code calls. A value is the
  address of an entry. \<open>qt_insert\<close> is \<open>None\<close> for a thrown \<open>DuplicateInsertException\<close>,
  \<open>qt_nodes\<close> is what \<open>NodesIterator\<close> goes through.
\<close>

record ('t, 'k) qtree_ops =
  qt_new :: "('k option \<Rightarrow> 'k option \<Rightarrow> int) \<Rightarrow> 't"
  qt_insert :: "'t \<Rightarrow> 'k \<Rightarrow> nat \<Rightarrow> 't option"
  qt_get :: "'t \<Rightarrow> 'k \<Rightarrow> nat option"
  qt_nodes :: "'t \<Rightarrow> ('k \<times> nat) list"

locale key_tree =
  fixes qt :: "('t, 'k) qtree_ops"
    and cmp :: "'k option \<Rightarrow> 'k option \<Rightarrow> int"
    and tree_ok :: "'t \<Rightarrow> bool"
  assumes new_ok: "tree_ok (qt_new qt cmp)"
    and new_nodes: "qt_nodes qt (qt_new qt cmp) = []"
    and sorted: "tree_ok t \<Longrightarrow>
          sorted_wrt (\<lambda>(a, _) (b, _). cmp (Some a) (Some b) < 0) (qt_nodes qt t)"
    and get_node: "tree_ok t \<Longrightarrow> qt_get qt t k = map_option snd
          (find (\<lambda>(k', _). cmp (Some k) (Some k') = 0) (qt_nodes qt t))"
    and insert_fail: "tree_ok t \<Longrightarrow> qt_insert qt t k v = None \<longleftrightarrow>
          (\<exists>(k', _) \<in> set (qt_nodes qt t). cmp (Some k) (Some k') = 0)"
    and insert_ok: "tree_ok t \<Longrightarrow> qt_insert qt t k v = Some t' \<Longrightarrow> tree_ok t'"
    and insert_nodes: "tree_ok t \<Longrightarrow> qt_insert qt t k v = Some t' \<Longrightarrow>
          set (qt_nodes qt t') = insert (k, v) (set (qt_nodes qt t))"

text \<open>The comparison the map is created with; keys are pointers, which may be null.\<close>

definition compare_keys :: "'b char_buffer_ops \<Rightarrow> 'b option \<Rightarrow> 'b option \<Rightarrow> int" where
  "compare_keys cb key other =
     (case key of
        Some k \<Rightarrow> (case other of Some k' \<Rightarrow> cb_compare_to cb k k' | None \<Rightarrow> 1)
      | None \<Rightarrow> (case other of Some k' \<Rightarrow> -1 | None \<Rightarrow> 0))"

section \<open>Entries and arguments\<close>

record 'b entry =
  required :: bool
  present :: bool
  entry_value :: 'b

definition new_entry :: "'b char_buffer_ops \<Rightarrow> nat \<Rightarrow> 'b entry" where
  "new_entry cb value_capacity =
     \<lparr>required = False, present = False, entry_value = cb_new cb value_capacity\<rparr>"

text \<open>The entries live on the heap; \<open>next_entry\<close> is the address of the next one.\<close>

record ('t, 'b) arguments =
  arg_map :: 't
  entries :: "nat \<Rightarrow> 'b entry"
  next_entry :: nat

definition new_arguments :: "'b char_buffer_ops \<Rightarrow> ('t, 'b) qtree_ops \<Rightarrow> ('t, 'b) arguments" where
  "new_arguments cb qt =
     \<lparr>arg_map = qt_new qt (compare_keys cb), entries = (\<lambda>_. new_entry cb 0), next_entry = 0\<rparr>"

type_synonym ('t, 'b) arguments_outcome = "(cpp_exception, ('t, 'b) arguments) outcome"

definition add_entry ::
  "'b char_buffer_ops \<Rightarrow> ('t, 'b) qtree_ops \<Rightarrow> bytes \<Rightarrow> nat \<Rightarrow> ('t, 'b) arguments \<Rightarrow>
   ('t, 'b) arguments_outcome" where
  "add_entry cb qt key value_capacity args =
     (case qt_insert qt (arg_map args) (cb_of_c_str cb key) (next_entry args) of
        None \<Rightarrow> Raised DuplicateInsertException args
      | Some t \<Rightarrow>
          Normal (args\<lparr>arg_map := t,
                       entries := (entries args)(next_entry args := new_entry cb value_capacity),
                       next_entry := next_entry args + 1\<rparr>))"

definition SPLIT_CHAR :: byte where "SPLIT_CHAR = of_char (CHR ''='')"

definition QUOTE :: bytes where "QUOTE = [0x22]"

definition duplicate_message :: "bytes \<Rightarrow> bytes" where
  "duplicate_message key = ascii ''Duplicate argument with argument key '' @ QUOTE @ c_string key @ QUOTE"

definition too_long_message :: "bytes \<Rightarrow> bytes" where
  "too_long_message key = ascii ''The value for the argument key '' @ QUOTE @ c_string key @ QUOTE @
     ascii '' exceeds its allowed maximum length''"

definition invalid_key_message :: "bytes \<Rightarrow> bytes" where
  "invalid_key_message key = ascii ''Invalid argument key '' @ QUOTE @ c_string key @ QUOTE"

definition malformed_message :: "bytes \<Rightarrow> bytes" where
  "malformed_message text = ascii ''Malformed argument '' @ QUOTE @ c_string text @ QUOTE"

definition mark_required_message :: "bytes \<Rightarrow> bytes" where
  "mark_required_message key =
     ascii ''Internal error: Attempt to execute method mark_required with nonexistent key='' @
     QUOTE @ c_string key @ QUOTE"

definition unspecified_message :: "bytes \<Rightarrow> bytes" where
  "unspecified_message key = ascii ''The value for the argument key '' @ QUOTE @ c_string key @ QUOTE @
     ascii '' was not specified''"

text \<open>\<open>process_argument\<close>. A \<open>RangeException\<close> of the key's copy is not caught by it.\<close>

definition process_argument ::
  "'b char_buffer_ops \<Rightarrow> ('t, 'b) qtree_ops \<Rightarrow> 'b \<Rightarrow> ('t, 'b) arguments \<Rightarrow> ('t, 'b) arguments_outcome" where
  "process_argument cb qt arg args =
     (case cb_index_of_char cb arg SPLIT_CHAR of
        None \<Rightarrow> Raised (ArgumentsException (malformed_message (cb_c_str cb arg))) args
      | Some split_idx \<Rightarrow>
          (case cb_substring_from cb (cb_new cb split_idx) arg 0 split_idx of
             None \<Rightarrow> Raised RangeException args
           | Some search_key \<Rightarrow>
               (case qt_get qt (arg_map args) search_key of
                  None \<Rightarrow> Raised (ArgumentsException (invalid_key_message (cb_c_str cb search_key))) args
                | Some a \<Rightarrow>
                    (let e = entries args a in
                     if present e
                     then Raised (ArgumentsException (duplicate_message (cb_c_str cb search_key))) args
                     else (case cb_substring_from cb (entry_value e) arg (split_idx + 1) (cb_length cb arg) of
                         None \<Rightarrow> Raised (ArgumentsException (too_long_message (cb_c_str cb search_key))) args
                       | Some v \<Rightarrow>
                           Normal (args\<lparr>entries := (entries args)(a := e\<lparr>entry_value := v, present := True\<rparr>)\<rparr>))))))"

definition mark_required ::
  "'b char_buffer_ops \<Rightarrow> ('t, 'b) qtree_ops \<Rightarrow> bytes \<Rightarrow> ('t, 'b) arguments \<Rightarrow> ('t, 'b) arguments_outcome" where
  "mark_required cb qt key args =
     (let search_key = cb_of_c_str cb key in
      case qt_get qt (arg_map args) search_key of
        None \<Rightarrow> Raised (ArgumentsException (mark_required_message (cb_c_str cb search_key))) args
      | Some a \<Rightarrow>
          Normal (args\<lparr>entries := (entries args)(a := (entries args a)\<lparr>required := True\<rparr>)\<rparr>))"

text \<open>The loop of \<open>check_required\<close>: the message is \<open>None\<close> until the first missing key.\<close>

fun missing_message ::
  "'b char_buffer_ops \<Rightarrow> (nat \<Rightarrow> 'b entry) \<Rightarrow> ('b \<times> nat) list \<Rightarrow> bytes option \<Rightarrow> bytes option" where
  "missing_message cb h [] error_msg = error_msg"
| "missing_message cb h ((k, a) # nodes) error_msg =
     (if required (h a) \<and> \<not> present (h a)
      then missing_message cb h nodes
             (Some ((case error_msg of
                       None \<Rightarrow> ascii ''The values for the following argument keys were not specified:'' @ [10]
                     | Some m \<Rightarrow> m) @ ascii ''    '' @ c_string (cb_c_str cb k) @ [10]))
      else missing_message cb h nodes error_msg)"

definition check_required ::
  "'b char_buffer_ops \<Rightarrow> ('t, 'b) qtree_ops \<Rightarrow> ('t, 'b) arguments \<Rightarrow> unit result" where
  "check_required cb qt args =
     (case missing_message cb (entries args) (qt_nodes qt (arg_map args)) None of
        None \<Rightarrow> Inr ()
      | Some m \<Rightarrow> Inl (ArgumentsException m))"

definition get_value ::
  "'b char_buffer_ops \<Rightarrow> ('t, 'b) qtree_ops \<Rightarrow> bytes \<Rightarrow> ('t, 'b) arguments \<Rightarrow> 'b result" where
  "get_value cb qt key args =
     (case qt_get qt (arg_map args) (cb_of_c_str cb key) of
        None \<Rightarrow> Inl (ArgumentsException (unspecified_message key))
      | Some a \<Rightarrow> Inr (entry_value (entries args a)))"

section \<open>The contract\<close>

text \<open>
  What the arguments are for: a finite map from key texts to an optional value text, with the
  capacity and whether the key is required. The operations on it, with the errors.
\<close>

record arg_state =
  spec_required :: bool
  spec_value :: "bytes option"
  spec_capacity :: nat

type_synonym arg_spec = "bytes \<rightharpoonup> arg_state"

definition spec_add :: "bytes \<Rightarrow> nat \<Rightarrow> arg_spec \<Rightarrow> arg_spec result" where
  "spec_add key n m =
     (if c_string key \<in> dom m then Inl DuplicateInsertException
      else Inr (m(c_string key \<mapsto> \<lparr>spec_required = False, spec_value = None, spec_capacity = n\<rparr>)))"

definition spec_process :: "bytes \<Rightarrow> arg_spec \<Rightarrow> arg_spec result" where
  "spec_process text m =
     (case find_sub [SPLIT_CHAR] text of
        None \<Rightarrow> Inl (ArgumentsException (malformed_message text))
      | Some i \<Rightarrow>
          (case m (take i text) of
             None \<Rightarrow> Inl (ArgumentsException (invalid_key_message (take i text)))
           | Some e \<Rightarrow>
               (if spec_value e \<noteq> None then Inl (ArgumentsException (duplicate_message (take i text)))
                else if spec_capacity e < length (drop (i + 1) text)
                then Inl (ArgumentsException (too_long_message (take i text)))
                else Inr (m(take i text \<mapsto> e\<lparr>spec_value := Some (drop (i + 1) text)\<rparr>)))))"

definition spec_require :: "bytes \<Rightarrow> arg_spec \<Rightarrow> arg_spec result" where
  "spec_require key m =
     (case m (c_string key) of
        None \<Rightarrow> Inl (ArgumentsException (mark_required_message (c_string key)))
      | Some e \<Rightarrow> Inr (m(c_string key \<mapsto> e\<lparr>spec_required := True\<rparr>)))"

definition missing_keys :: "arg_spec \<Rightarrow> bytes set" where
  "missing_keys m = {k. \<exists>e. m k = Some e \<and> spec_required e \<and> spec_value e = None}"

text \<open>The abstraction of an arguments object.\<close>

definition abs_entry :: "'b char_buffer_ops \<Rightarrow> ('b \<Rightarrow> nat) \<Rightarrow> 'b entry \<Rightarrow> arg_state" where
  "abs_entry cb cap e =
     \<lparr>spec_required = required e,
      spec_value = (if present e then Some (cb_c_str cb (entry_value e)) else None),
      spec_capacity = cap (entry_value e)\<rparr>"

definition find_key :: "'b char_buffer_ops \<Rightarrow> ('b \<times> nat) list \<Rightarrow> bytes \<Rightarrow> nat option" where
  "find_key cb nodes key = map_option snd (find (\<lambda>(b, _). cb_c_str cb b = key) nodes)"

definition abs_args ::
  "'b char_buffer_ops \<Rightarrow> ('b \<Rightarrow> nat) \<Rightarrow> ('t, 'b) qtree_ops \<Rightarrow> ('t, 'b) arguments \<Rightarrow> arg_spec" where
  "abs_args cb cap qt args key =
     map_option (\<lambda>a. abs_entry cb cap (entries args a)) (find_key cb (qt_nodes qt (arg_map args)) key)"

text \<open>Entries are allocated, not shared, and an entry that is not present holds no text.\<close>

definition args_ok ::
  "'b char_buffer_ops \<Rightarrow> ('t, 'b) qtree_ops \<Rightarrow> ('t \<Rightarrow> bool) \<Rightarrow> ('t, 'b) arguments \<Rightarrow> bool" where
  "args_ok cb qt tree_ok args \<longleftrightarrow>
     tree_ok (arg_map args) \<and>
     (\<forall>(k, a) \<in> set (qt_nodes qt (arg_map args)). a < next_entry args) \<and>
     inj_on snd (set (qt_nodes qt (arg_map args))) \<and>
     (\<forall>(k, a) \<in> set (qt_nodes qt (arg_map args)).
        \<not> present (entries args a) \<longrightarrow> cb_c_str cb (entry_value (entries args a)) = [])"

text \<open>An operation that implements its counterpart; one that throws has changed nothing.\<close>

definition implements ::
  "'b char_buffer_ops \<Rightarrow> ('b \<Rightarrow> nat) \<Rightarrow> ('t, 'b) qtree_ops \<Rightarrow> ('t \<Rightarrow> bool) \<Rightarrow>
   ('t, 'b) arguments \<Rightarrow> ('t, 'b) arguments_outcome \<Rightarrow> arg_spec result \<Rightarrow> bool" where
  "implements cb cap qt tree_ok args r sr \<longleftrightarrow>
     (case r of
        Normal args' \<Rightarrow> args_ok cb qt tree_ok args' \<and> sr = Inr (abs_args cb cap qt args')
      | Raised e args' \<Rightarrow> args' = args \<and> sr = Inl e
      | Undefined_Behaviour \<Rightarrow> False)"

section \<open>The operations implement the contract\<close>

lemma distinct_map_sorted_wrt: "sorted_wrt (\<lambda>x y. f x \<noteq> f y) xs \<Longrightarrow> distinct (map f xs)"
  by (induction xs) auto

lemma find_unique:
  "distinct (map f xs) \<Longrightarrow> find (\<lambda>x. f x = k) xs = Some x \<longleftrightarrow> x \<in> set xs \<and> f x = k"
  by (induction xs) (auto simp: image_iff)

locale argument_table = char_buffer cb cap + key_tree qt "compare_keys cb" tree_ok
  for cb :: "'b char_buffer_ops" and cap :: "'b \<Rightarrow> nat"
    and qt :: "('t, 'b) qtree_ops" and tree_ok :: "'t \<Rightarrow> bool"
begin

lemma compare_some: "compare_keys cb (Some a) (Some b) = 0 \<longleftrightarrow> cb_c_str cb a = cb_c_str cb b"
  by (simp add: compare_keys_def compare_eq)

lemma keys_distinct:
  assumes "tree_ok t"
  shows "distinct (map (\<lambda>n. cb_c_str cb (fst n)) (qt_nodes qt t))"
proof (rule distinct_map_sorted_wrt)
  show "sorted_wrt (\<lambda>x y. cb_c_str cb (fst x) \<noteq> cb_c_str cb (fst y)) (qt_nodes qt t)"
    by (rule sorted_wrt_mono_rel [OF _ sorted [OF assms]]) (auto simp: compare_some [symmetric])
qed

lemma find_key_iff:
  "tree_ok t \<Longrightarrow> find_key cb (qt_nodes qt t) key = Some a \<longleftrightarrow>
     (\<exists>k. (k, a) \<in> set (qt_nodes qt t) \<and> cb_c_str cb k = key)"
  by (auto simp: find_key_def case_prod_unfold find_unique [OF keys_distinct])

lemma get_find_key: "tree_ok t \<Longrightarrow> qt_get qt t k = find_key cb (qt_nodes qt t) (cb_c_str cb k)"
  by (simp add: get_node find_key_def compare_some case_prod_unfold)
    (metis (mono_tags, opaque_lifting))

lemma find_key_None:
  "tree_ok t \<Longrightarrow> find_key cb (qt_nodes qt t) key = None \<longleftrightarrow>
     (\<forall>(k, a) \<in> set (qt_nodes qt t). cb_c_str cb k \<noteq> key)"
  by (auto simp: find_key_def find_None_iff)

lemma insert_None:
  "tree_ok t \<Longrightarrow> qt_insert qt t k v = None \<longleftrightarrow> find_key cb (qt_nodes qt t) (cb_c_str cb k) \<noteq> None"
  by (simp add: insert_fail compare_some find_key_None case_prod_unfold del: not_None_eq) metis

lemma insert_find_key:
  assumes t: "tree_ok t" and ins: "qt_insert qt t k v = Some t'"
  shows "find_key cb (qt_nodes qt t') key =
           (if key = cb_c_str cb k then Some v else find_key cb (qt_nodes qt t) key)"
proof (rule option.expand)
  note t' = insert_ok [OF t ins] and nodes = insert_nodes [OF t ins]
  show "(find_key cb (qt_nodes qt t') key = None) =
      ((if key = cb_c_str cb k then Some v else find_key cb (qt_nodes qt t) key) = None)"
    using t t' by (auto simp: find_key_None nodes)
  assume "find_key cb (qt_nodes qt t') key \<noteq> None"
  then obtain a where a: "find_key cb (qt_nodes qt t') key = Some a" by blast
  have old: "find_key cb (qt_nodes qt t) (cb_c_str cb k) = None"
    using insert_None [OF t] ins by (metis option.distinct(1))
  from a have "(if key = cb_c_str cb k then Some v else find_key cb (qt_nodes qt t) key) = Some a"
    using old by (auto simp: find_key_iff [OF t'] find_key_iff [OF t] find_key_None [OF t] nodes)
  with a show "the (find_key cb (qt_nodes qt t') key) =
      the (if key = cb_c_str cb k then Some v else find_key cb (qt_nodes qt t) key)" by simp
qed

text \<open>Writing through the pointer \<open>get\<close> returned.\<close>

lemma abs_update:
  assumes ok: "args_ok cb qt tree_ok args"
    and found: "find_key cb (qt_nodes qt (arg_map args)) key = Some a"
  shows "abs_args cb cap qt (args\<lparr>entries := (entries args)(a := e)\<rparr>) =
         (abs_args cb cap qt args)(key \<mapsto> abs_entry cb cap e)"
proof
  fix key'
  from ok have t: "tree_ok (arg_map args)" and inj: "inj_on snd (set (qt_nodes qt (arg_map args)))"
    by (simp_all add: args_ok_def)
  have "a' \<noteq> a" if "find_key cb (qt_nodes qt (arg_map args)) key' = Some a'" "key' \<noteq> key" for a'
  proof
    assume "a' = a"
    with that(1) found obtain k k' where nodes: "(k, a) \<in> set (qt_nodes qt (arg_map args))"
      "(k', a) \<in> set (qt_nodes qt (arg_map args))" "cb_c_str cb k = key'" "cb_c_str cb k' = key"
      by (auto simp: find_key_iff [OF t])
    from inj_onD [OF inj _ nodes(1,2)] nodes(3,4) that(2) show False by simp
  qed
  with found show "abs_args cb cap qt (args\<lparr>entries := (entries args)(a := e)\<rparr>) key' =
      ((abs_args cb cap qt args)(key \<mapsto> abs_entry cb cap e)) key'"
    by (cases "find_key cb (qt_nodes qt (arg_map args)) key'") (auto simp: abs_args_def)
qed

lemma ok_update:
  assumes "args_ok cb qt tree_ok args"
    and "\<not> present e \<Longrightarrow> cb_c_str cb (entry_value e) = []"
  shows "args_ok cb qt tree_ok (args\<lparr>entries := (entries args)(a := e)\<rparr>)"
  using assms by (auto simp: args_ok_def)

lemma add_entry_implements:
  assumes ok: "args_ok cb qt tree_ok args"
  shows "implements cb cap qt tree_ok args (add_entry cb qt key n args)
           (spec_add key n (abs_args cb cap qt args))"
proof (cases "qt_insert qt (arg_map args) (cb_of_c_str cb key) (next_entry args)")
  case None
  with ok have "find_key cb (qt_nodes qt (arg_map args)) (c_string key) \<noteq> None"
    using insert_None [of "arg_map args" "cb_of_c_str cb key"] by (simp add: args_ok_def of_c_str_str)
  with None show ?thesis
    by (auto simp: implements_def add_entry_def spec_add_def abs_args_def)
next
  case (Some t')
  from ok have t: "tree_ok (arg_map args)" by (simp add: args_ok_def)
  note nodes = insert_nodes [OF t Some] and t' = insert_ok [OF t Some]
  from Some have new: "find_key cb (qt_nodes qt (arg_map args)) (c_string key) = None"
    using insert_None [OF t, of "cb_of_c_str cb key" "next_entry args"] by (simp add: of_c_str_str)
  define args' where "args' = args\<lparr>arg_map := t',
    entries := (entries args)(next_entry args := new_entry cb n), next_entry := next_entry args + 1\<rparr>"
  have "args_ok cb qt tree_ok args'"
    using ok t' by (auto simp: args_ok_def args'_def nodes new_entry_def new_str inj_on_def)
  moreover have "abs_args cb cap qt args' = (abs_args cb cap qt args)
      (c_string key \<mapsto> \<lparr>spec_required = False, spec_value = None, spec_capacity = n\<rparr>)"
  proof
    fix k
    have "a \<noteq> next_entry args" if "find_key cb (qt_nodes qt (arg_map args)) k = Some a" for a
      using that ok by (auto simp: args_ok_def find_key_iff)
    then show "abs_args cb cap qt args' k = ((abs_args cb cap qt args)
      (c_string key \<mapsto> \<lparr>spec_required = False, spec_value = None, spec_capacity = n\<rparr>)) k"
      by (auto simp: abs_args_def args'_def insert_find_key [OF t Some] of_c_str_str abs_entry_def
          new_entry_def new_cap intro!: option.map_cong0 map_option_cong)
  qed
  ultimately show ?thesis
    using Some new
    by (auto simp: implements_def add_entry_def spec_add_def abs_args_def args'_def)
qed

lemma mark_required_implements:
  assumes ok: "args_ok cb qt tree_ok args"
  shows "implements cb cap qt tree_ok args (mark_required cb qt key args)
           (spec_require key (abs_args cb cap qt args))"
proof -
  from ok have t: "tree_ok (arg_map args)" by (simp add: args_ok_def)
  show ?thesis
  proof (cases "find_key cb (qt_nodes qt (arg_map args)) (c_string key)")
    case None
    then show ?thesis
      by (simp add: implements_def mark_required_def spec_require_def abs_args_def
          get_find_key [OF t] of_c_str_str)
  next
    case (Some a)
    from ok Some have "args_ok cb qt tree_ok
        (args\<lparr>entries := (entries args)(a := (entries args a)\<lparr>required := True\<rparr>)\<rparr>)"
      by (intro ok_update) (auto simp: args_ok_def find_key_iff)
    with Some abs_update [OF ok Some] show ?thesis
      by (simp add: implements_def mark_required_def spec_require_def get_find_key [OF t]
          of_c_str_str) (simp add: abs_args_def abs_entry_def)
  qed
qed

end

context argument_table
begin

lemma process_argument_implements:
  assumes ok: "args_ok cb qt tree_ok args"
  shows "implements cb cap qt tree_ok args (process_argument cb qt arg args)
           (spec_process (cb_c_str cb arg) (abs_args cb cap qt args))"
proof (cases "find_sub [SPLIT_CHAR] (cb_c_str cb arg)")
  case None
  then show ?thesis
    by (simp add: implements_def process_argument_def spec_process_def index_of_char)
next
  case (Some i)
  let ?text = "cb_c_str cb arg"
  from ok have t: "tree_ok (arg_map args)" by (simp add: args_ok_def)
  from Some have i: "i < length ?text" using find_sub_bound by fastforce
  obtain sk where sk: "cb_substring_from cb (cb_new cb i) arg 0 i = Some sk" "cb_c_str cb sk = take i ?text"
    using substring_from_ok [of 0 i arg "cb_new cb i"] i by (auto simp: new_cap segment_0)
  have get: "qt_get qt (arg_map args) sk = find_key cb (qt_nodes qt (arg_map args)) (take i ?text)"
    by (simp add: get_find_key [OF t] sk)
  show ?thesis
  proof (cases "find_key cb (qt_nodes qt (arg_map args)) (take i ?text)")
    case None
    with Some sk get show ?thesis
      by (simp add: implements_def process_argument_def spec_process_def index_of_char abs_args_def)
  next
    case found: (Some a)
    let ?e = "entries args a"
    have entry: "abs_args cb cap qt args (take i ?text) = Some (abs_entry cb cap ?e)"
      by (simp add: abs_args_def found)
    have fails: "cb_substring_from cb (entry_value ?e) arg (i + 1) (cb_length cb arg) = None \<longleftrightarrow>
        cap (entry_value ?e) < length ?text - (i + 1)"
      using i by (auto simp: substring_from_fail length_str)
    show ?thesis
    proof (cases "cb_substring_from cb (entry_value ?e) arg (i + 1) (cb_length cb arg)")
      case None
      with fails Some sk get found entry show ?thesis
        by (auto simp: implements_def process_argument_def spec_process_def index_of_char
            abs_entry_def Let_def)
    next
      case stored: (Some v)
      have v: "cb_c_str cb v = drop (i + 1) ?text" "cap v = cap (entry_value ?e)"
        using substring_from_str [OF stored] substring_from_cap [OF stored]
        by (simp_all add: length_str segment_to_end)
      have upd: "args_ok cb qt tree_ok
          (args\<lparr>entries := (entries args)(a := ?e\<lparr>entry_value := v, present := True\<rparr>)\<rparr>)"
        by (rule ok_update [OF ok]) simp
      show ?thesis
      proof (cases "present ?e")
        case True
        with Some sk get found entry show ?thesis
          by (simp add: implements_def process_argument_def spec_process_def index_of_char
              abs_entry_def Let_def)
      next
        case False
        have "\<not> cap (entry_value ?e) < length ?text - (i + 1)" using fails stored by simp
        with False Some sk get found entry stored v upd abs_update [OF ok found] show ?thesis
          by (simp add: implements_def process_argument_def spec_process_def index_of_char
              abs_entry_def Let_def)
      qed
    qed
  qed
qed

lemma new_arguments_ok:
  "args_ok cb qt tree_ok (new_arguments cb qt)" "abs_args cb cap qt (new_arguments cb qt) = Map.empty"
  by (auto simp: args_ok_def new_arguments_def new_ok new_nodes abs_args_def find_key_def)

lemma get_value_abs:
  assumes ok: "args_ok cb qt tree_ok args"
  shows "case get_value cb qt key args of
       Inr v \<Rightarrow> \<exists>s. abs_args cb cap qt args (c_string key) = Some s \<and>
                 cb_c_str cb v = (case spec_value s of Some t \<Rightarrow> t | None \<Rightarrow> [])
     | Inl e \<Rightarrow> abs_args cb cap qt args (c_string key) = None \<and>
                e = ArgumentsException (unspecified_message key)"
proof -
  from ok have t: "tree_ok (arg_map args)" by (simp add: args_ok_def)
  show ?thesis
  proof (cases "find_key cb (qt_nodes qt (arg_map args)) (c_string key)")
    case None
    then show ?thesis by (simp add: get_value_def get_find_key [OF t] of_c_str_str abs_args_def)
  next
    case (Some a)
    then obtain k where "(k, a) \<in> set (qt_nodes qt (arg_map args))"
      by (auto simp: find_key_iff [OF t])
    with ok have "\<not> present (entries args a) \<Longrightarrow> cb_c_str cb (entry_value (entries args a)) = []"
      by (auto simp: args_ok_def)
    with Some show ?thesis
      by (simp add: get_value_def get_find_key [OF t] of_c_str_str abs_args_def abs_entry_def)
  qed
qed

end

text \<open>The loop of \<open>check_required\<close> lists the missing keys in the order of the nodes.\<close>

definition missing_nodes :: "(nat \<Rightarrow> 'b entry) \<Rightarrow> ('b \<times> nat) list \<Rightarrow> ('b \<times> nat) list" where
  "missing_nodes h nodes = filter (\<lambda>(k, a). required (h a) \<and> \<not> present (h a)) nodes"

definition missing_text :: "bytes list \<Rightarrow> bytes" where
  "missing_text ks = ascii ''The values for the following argument keys were not specified:'' @ [10] @
     concat (map (\<lambda>k. ascii ''    '' @ c_string k @ [10]) ks)"

lemma missing_message_Some:
  "missing_message cb h nodes (Some m) = Some (m @
     concat (map (\<lambda>(k, a). ascii ''    '' @ c_string (cb_c_str cb k) @ [10]) (missing_nodes h nodes)))"
proof (induction nodes arbitrary: m)
  case (Cons n nodes)
  show ?case
    by (cases n) (use Cons in \<open>simp add: missing_nodes_def\<close>)
qed (simp add: missing_nodes_def)

lemma missing_message_None:
  "missing_message cb h nodes None =
     (if missing_nodes h nodes = [] then None
      else Some (missing_text (map (\<lambda>(k, a). cb_c_str cb k) (missing_nodes h nodes))))"
proof (induction nodes)
  case (Cons n nodes)
  show ?case
  proof (cases n)
    case (Pair k a)
    have "missing_text (map (\<lambda>(k, a). cb_c_str cb k) ((k, a) # ns)) =
        ascii ''The values for the following argument keys were not specified:'' @ [10] @
        (ascii ''    '' @ c_string (cb_c_str cb k) @ [10]) @
        concat (map (\<lambda>(k, a). ascii ''    '' @ c_string (cb_c_str cb k) @ [10]) ns)" for ns
      by (simp add: missing_text_def comp_def case_prod_unfold)
    with Pair Cons show ?thesis
      by (auto simp: missing_message_Some missing_nodes_def)
  qed
qed (simp add: missing_nodes_def)

context argument_table
begin

lemma missing_nodes_keys:
  assumes ok: "args_ok cb qt tree_ok args"
  defines "ks \<equiv> map (\<lambda>(k, a). cb_c_str cb k) (missing_nodes (entries args) (qt_nodes qt (arg_map args)))"
  shows "set ks = missing_keys (abs_args cb cap qt args)" "distinct ks"
proof -
  from ok have t: "tree_ok (arg_map args)" by (simp add: args_ok_def)
  have iff: "abs_args cb cap qt args key = Some s \<longleftrightarrow>
      (\<exists>k a. (k, a) \<in> set (qt_nodes qt (arg_map args)) \<and> cb_c_str cb k = key \<and>
         s = abs_entry cb cap (entries args a))" for key s
    by (auto simp: abs_args_def find_key_iff [OF t])
  show "set ks = missing_keys (abs_args cb cap qt args)"
    by (fastforce simp: ks_def missing_nodes_def missing_keys_def iff abs_entry_def split: if_splits)
  have "ks = map (\<lambda>n. cb_c_str cb (fst n)) (missing_nodes (entries args) (qt_nodes qt (arg_map args)))"
    by (auto simp: ks_def)
  then show "distinct ks"
    using keys_distinct [OF t] unfolding missing_nodes_def by (simp add: distinct_map_filter)
qed

lemma check_required_abs:
  assumes ok: "args_ok cb qt tree_ok args"
  shows "case check_required cb qt args of
       Inr _ \<Rightarrow> missing_keys (abs_args cb cap qt args) = {}
     | Inl e \<Rightarrow> \<exists>ks. e = ArgumentsException (missing_text ks) \<and> distinct ks \<and> ks \<noteq> [] \<and>
                 set ks = missing_keys (abs_args cb cap qt args)"
  using missing_nodes_keys [OF ok]
  by (auto simp: check_required_def missing_message_None)

end

section \<open>Sequences of operations\<close>

datatype 'b arg_op = AddEntry bytes nat | MarkRequired bytes | ProcessArgument 'b

fun arg_step ::
  "'b char_buffer_ops \<Rightarrow> ('t, 'b) qtree_ops \<Rightarrow> 'b arg_op \<Rightarrow> ('t, 'b) arguments \<Rightarrow> ('t, 'b) arguments_outcome" where
  "arg_step cb qt (AddEntry key n) args = add_entry cb qt key n args"
| "arg_step cb qt (MarkRequired key) args = mark_required cb qt key args"
| "arg_step cb qt (ProcessArgument arg) args = process_argument cb qt arg args"

fun spec_step :: "'b char_buffer_ops \<Rightarrow> 'b arg_op \<Rightarrow> arg_spec \<Rightarrow> arg_spec result" where
  "spec_step cb (AddEntry key n) m = spec_add key n m"
| "spec_step cb (MarkRequired key) m = spec_require key m"
| "spec_step cb (ProcessArgument arg) m = spec_process (cb_c_str cb arg) m"

fun run_args ::
  "'b char_buffer_ops \<Rightarrow> ('t, 'b) qtree_ops \<Rightarrow> 'b arg_op list \<Rightarrow> ('t, 'b) arguments \<Rightarrow>
   ('t, 'b) arguments_outcome" where
  "run_args cb qt [] args = Normal args"
| "run_args cb qt (x # xs) args = bind_outcome (arg_step cb qt x args) (run_args cb qt xs)"

fun run_spec :: "'b char_buffer_ops \<Rightarrow> 'b arg_op list \<Rightarrow> arg_spec \<Rightarrow> arg_spec result" where
  "run_spec cb [] m = Inr m"
| "run_spec cb (x # xs) m = (case spec_step cb x m of Inl e \<Rightarrow> Inl e | Inr m' \<Rightarrow> run_spec cb xs m')"

context argument_table
begin

lemma arg_step_implements:
  "args_ok cb qt tree_ok args \<Longrightarrow>
   implements cb cap qt tree_ok args (arg_step cb qt x args) (spec_step cb x (abs_args cb cap qt args))"
  by (cases x) (simp_all add: add_entry_implements mark_required_implements process_argument_implements)

lemma run_args_refines:
  assumes "args_ok cb qt tree_ok args"
  shows "case run_args cb qt xs args of
       Normal args' \<Rightarrow> args_ok cb qt tree_ok args' \<and>
         run_spec cb xs (abs_args cb cap qt args) = Inr (abs_args cb cap qt args')
     | Raised e args' \<Rightarrow> args_ok cb qt tree_ok args' \<and> run_spec cb xs (abs_args cb cap qt args) = Inl e
     | Undefined_Behaviour \<Rightarrow> False"
  using assms
proof (induction xs arbitrary: args)
  case (Cons x xs)
  show ?case
  proof (cases "arg_step cb qt x args")
    case (Normal args')
    with arg_step_implements [OF Cons.prems, of x] Cons.IH [of args'] show ?thesis
      by (cases "run_args cb qt xs args'") (simp_all add: implements_def)
  qed (use arg_step_implements [OF Cons.prems, of x] Cons.prems in \<open>simp_all add: implements_def\<close>)
qed simp

lemma run_args_append:
  "run_args cb qt (xs @ ys) args = bind_outcome (run_args cb qt xs args) (run_args cb qt ys)"
proof (induction xs arbitrary: args)
  case (Cons x xs)
  then show ?case by (cases "arg_step cb qt x args") simp_all
qed simp

end

section \<open>A sorted list that satisfies the laws\<close>

type_synonym 'k list_tree = "('k option \<Rightarrow> 'k option \<Rightarrow> int) \<times> ('k \<times> nat) list"

fun insert_node :: "('k option \<Rightarrow> 'k option \<Rightarrow> int) \<Rightarrow> 'k \<Rightarrow> nat \<Rightarrow> ('k \<times> nat) list \<Rightarrow> ('k \<times> nat) list option" where
  "insert_node cmp k v [] = Some [(k, v)]"
| "insert_node cmp k v ((k', v') # ns) =
     (if cmp (Some k) (Some k') < 0 then Some ((k, v) # (k', v') # ns)
      else if cmp (Some k) (Some k') = 0 then None
      else map_option (Cons (k', v')) (insert_node cmp k v ns))"

definition list_tree_ops :: "('k list_tree, 'k) qtree_ops" where
  "list_tree_ops =
     \<lparr>qt_new = (\<lambda>cmp. (cmp, [])),
      qt_insert = (\<lambda>(cmp, ns) k v. map_option (Pair cmp) (insert_node cmp k v ns)),
      qt_get = (\<lambda>(cmp, ns) k. map_option snd (find (\<lambda>(k', _). cmp (Some k) (Some k') = 0) ns)),
      qt_nodes = snd\<rparr>"

definition node_less :: "('k option \<Rightarrow> 'k option \<Rightarrow> int) \<Rightarrow> 'k \<times> nat \<Rightarrow> 'k \<times> nat \<Rightarrow> bool" where
  "node_less cmp = (\<lambda>(a, _) (b, _). cmp (Some a) (Some b) < 0)"

definition list_tree_ok :: "('k option \<Rightarrow> 'k option \<Rightarrow> int) \<Rightarrow> 'k list_tree \<Rightarrow> bool" where
  "list_tree_ok cmp t \<longleftrightarrow> fst t = cmp \<and> sorted_wrt (node_less cmp) (snd t)"

context char_buffer
begin

lemma compare_keys_trans:
  "compare_keys cb (Some a) (Some b) < 0 \<Longrightarrow> compare_keys cb (Some b) (Some c) < 0 \<Longrightarrow>
   compare_keys cb (Some a) (Some c) < 0"
  by (simp add: compare_keys_def) (rule compare_trans)

lemma compare_keys_cong:
  "compare_keys cb (Some a) (Some b) = 0 \<Longrightarrow> compare_keys cb (Some b) (Some c) = 0 \<Longrightarrow>
   compare_keys cb (Some a) (Some c) = 0"
  by (simp add: compare_keys_def compare_eq)

lemma compare_keys_sym: "compare_keys cb (Some a) (Some b) > 0 \<longleftrightarrow> compare_keys cb (Some b) (Some a) < 0"
  by (simp add: compare_keys_def compare_sym)

lemma compare_keys_zero: "compare_keys cb (Some a) (Some b) = 0 \<longleftrightarrow> cb_c_str cb a = cb_c_str cb b"
  by (simp add: compare_keys_def compare_eq)

lemma insert_node_Some:
  "insert_node (compare_keys cb) k v ns = Some ns' \<Longrightarrow> sorted_wrt (node_less (compare_keys cb)) ns \<Longrightarrow>
   set ns' = insert (k, v) (set ns) \<and> sorted_wrt (node_less (compare_keys cb)) ns'"
proof (induction ns arbitrary: ns')
  case (Cons n ns)
  obtain k' v' where n: "n = (k', v')" by (cases n)
  consider (before) "compare_keys cb (Some k) (Some k') < 0" "ns' = (k, v) # n # ns"
    | (after) ms where "compare_keys cb (Some k') (Some k) < 0" "insert_node (compare_keys cb) k v ns = Some ms"
        "ns' = n # ms"
    using Cons.prems(1) n compare_keys_sym [of k k'] by (auto split: if_splits)
  then show ?case
  proof cases
    case before
    with Cons.prems(2) n show ?thesis
      by (auto simp: node_less_def intro: compare_keys_trans)
  next
    case after
    with Cons.IH [OF after(2)] Cons.prems(2) n show ?thesis
      by (auto simp: node_less_def)
  qed
qed (auto simp: node_less_def)

lemma insert_node_None:
  "sorted_wrt (node_less (compare_keys cb)) ns \<Longrightarrow>
   insert_node (compare_keys cb) k v ns = None \<longleftrightarrow>
     (\<exists>(k', _) \<in> set ns. compare_keys cb (Some k) (Some k') = 0)"
proof (induction ns)
  case (Cons n ns)
  obtain k' v' where n: "n = (k', v')" by (cases n)
  have "compare_keys cb (Some k) (Some b) \<noteq> 0" if "compare_keys cb (Some k) (Some k') < 0"
    "(b, w) \<in> set ns" for b w
    using that Cons.prems n compare_keys_trans [of k k' b] by (auto simp: node_less_def)
  with Cons n show ?case by (auto split: if_splits)
qed simp

lemma list_tree_laws:
  "argument_table cb cap list_tree_ops (list_tree_ok (compare_keys cb))"
proof (unfold_locales, goal_cases)
  case (4 t k)
  then show ?case by (cases t) (simp add: list_tree_ops_def list_tree_ok_def)
next
  case (5 t k v)
  then show ?case
    by (cases t) (simp add: list_tree_ops_def list_tree_ok_def insert_node_None)
next
  case (6 t k v t')
  then show ?case
    by (cases t) (auto simp: list_tree_ops_def list_tree_ok_def dest: insert_node_Some)
next
  case (7 t k v t')
  then show ?case
    by (cases t) (auto simp: list_tree_ops_def list_tree_ok_def dest: insert_node_Some)
qed (auto simp: list_tree_ops_def list_tree_ok_def node_less_def)

end

interpretation listed: argument_table bounded_ops fst list_tree_ops "list_tree_ok (compare_keys bounded_ops)"
  by (rule bounded.list_tree_laws)

section \<open>Property\<close>

text \<open>
  Property C11. Arguments refines its contract: any sequence of \<open>add_entry\<close>, \<open>mark_required\<close>
  and \<open>process_argument\<close> on a new object, whatever balanced tree carries it, has the outcome
  the finite map from keys to values prescribes, with the same exception and the same message
  where one is thrown (a duplicate or unknown key, a value beyond its capacity, a text without
  a split character). Afterwards \<open>check_required\<close> throws exactly if a required key has no
  value, and its message lists exactly those keys, each once; \<open>get_value\<close> returns the value
  the map holds, or an empty one for a key without.
\<close>

theorem arguments_refine:
  assumes "argument_table cb cap qt tree_ok"
  shows "case run_args cb qt xs (new_arguments cb qt) of
       Raised e args \<Rightarrow> run_spec cb xs Map.empty = Inl e
     | Normal args \<Rightarrow>
         (\<exists>m. run_spec cb xs Map.empty = Inr m \<and>
            (case check_required cb qt args of
               Inr _ \<Rightarrow> missing_keys m = {}
             | Inl e \<Rightarrow> \<exists>ks. e = ArgumentsException (missing_text ks) \<and> distinct ks \<and> ks \<noteq> [] \<and>
                         set ks = missing_keys m) \<and>
            (\<forall>key. case get_value cb qt key args of
               Inr v \<Rightarrow> \<exists>s. m (c_string key) = Some s \<and>
                         cb_c_str cb v = (case spec_value s of Some t \<Rightarrow> t | None \<Rightarrow> [])
             | Inl e \<Rightarrow> m (c_string key) = None \<and> e = ArgumentsException (unspecified_message key)))
     | Undefined_Behaviour \<Rightarrow> False"
proof -
  note new = argument_table.new_arguments_ok [OF assms]
  note run = argument_table.run_args_refines [OF assms new(1), of xs, unfolded new(2)]
  show ?thesis
  proof (cases "run_args cb qt xs (new_arguments cb qt)")
    case (Normal args)
    with run have ok: "args_ok cb qt tree_ok args"
      and spec: "run_spec cb xs Map.empty = Inr (abs_args cb cap qt args)" by simp_all
    from argument_table.check_required_abs [OF assms ok] argument_table.get_value_abs [OF assms ok]
    show ?thesis by (simp add: Normal spec)
  qed (use run in simp_all)
qed

definition sample_ops :: "bounded_buffer arg_op list" where
  "sample_ops = [AddEntry (ascii ''port'') 6, AddEntry (ascii ''node'') 8, MarkRequired (ascii ''node''),
     MarkRequired (ascii ''port''), ProcessArgument (cb_of_c_str bounded_ops (ascii ''port=2301''))]"

lemma sample_ops_run:
  "\<exists>args. run_args bounded_ops list_tree_ops sample_ops (new_arguments bounded_ops list_tree_ops) = Normal args \<and>
     check_required bounded_ops list_tree_ops args =
       Inl (ArgumentsException (missing_text [ascii ''node'']))"
  by (simp add: sample_ops_def new_arguments_def list_tree_ops_def add_entry_def mark_required_def
      process_argument_def check_required_def missing_text_def bounded_ops_def compare_keys_def
      ascii_def c_string_def new_entry_def SPLIT_CHAR_def segment_def)

theorem arguments_refine_witness:
  "\<exists>m ks. run_spec bounded_ops sample_ops Map.empty = Inr m \<and> missing_keys m = set ks \<and> ks \<noteq> []"
proof -
  from sample_ops_run obtain args
    where run: "run_args bounded_ops list_tree_ops sample_ops (new_arguments bounded_ops list_tree_ops) = Normal args"
      and check: "check_required bounded_ops list_tree_ops args =
        Inl (ArgumentsException (missing_text [ascii ''node'']))"
    by blast
  from arguments_refine [OF listed.argument_table_axioms, of sample_ops] show ?thesis
    unfolding run by (auto simp: check)
qed

end
