(* ===== verification/Parameters.thy ===== *)
theory Parameters
  imports Arguments
begin

text \<open>
  The parameters of the two programs (ServerParameters.cpp, ClientParameters.cpp): which keys
  there are, with the capacities of Shared.cpp, and how they are read, from the command line
  by the server and line by line from standard input by the client.
\<close>

section \<open>Constants\<close>

definition PROTOCOL_PARAM_SIZE :: nat where "PROTOCOL_PARAM_SIZE = 10"
definition IP_ADDR_PARAM_SIZE :: nat where "IP_ADDR_PARAM_SIZE = 60"
definition PORT_PARAM_SIZE :: nat where "PORT_PARAM_SIZE = 6"
definition SECRET_PARAM_SIZE :: nat where "SECRET_PARAM_SIZE = 64"
definition NODENAME_PARAM_SIZE :: nat where "NODENAME_PARAM_SIZE = 255"
definition MODULE_PARAM_SIZE :: nat where "MODULE_PARAM_SIZE = 1024"
definition ACTION_PARAM_SIZE :: nat where "ACTION_PARAM_SIZE = 24"

definition KEY_PROTOCOL :: bytes where "KEY_PROTOCOL = ascii ''protocol''"
definition KEY_BIND_ADDRESS :: bytes where "KEY_BIND_ADDRESS = ascii ''bind_address''"
definition KEY_TCP_PORT :: bytes where "KEY_TCP_PORT = ascii ''tcp_port''"
definition KEY_FENCE_MODULE :: bytes where "KEY_FENCE_MODULE = ascii ''fence_module''"
definition KEY_ACTION :: bytes where "KEY_ACTION = ascii ''action''"
definition KEY_IP_ADDRESS :: bytes where "KEY_IP_ADDRESS = ascii ''ip_address''"
definition KEY_SECRET :: bytes where "KEY_SECRET = ascii ''secret''"
definition KEY_NODENAME :: bytes where "KEY_NODENAME = ascii ''nodename''"

lemmas key_defs = KEY_PROTOCOL_def KEY_BIND_ADDRESS_def KEY_TCP_PORT_def KEY_FENCE_MODULE_def
  KEY_ACTION_def KEY_IP_ADDRESS_def KEY_SECRET_def KEY_NODENAME_def

section \<open>The server's parameters\<close>

definition SERVER_MAX_PARAMETER_SIZE :: nat where "SERVER_MAX_PARAMETER_SIZE = 1100"

definition OPT_PREFIX :: bytes where "OPT_PREFIX = ascii ''--''"

definition server_parameter_ops :: "'b arg_op list" where
  "server_parameter_ops =
     [AddEntry KEY_PROTOCOL PROTOCOL_PARAM_SIZE, AddEntry KEY_BIND_ADDRESS IP_ADDR_PARAM_SIZE,
      AddEntry KEY_TCP_PORT PORT_PARAM_SIZE, AddEntry KEY_FENCE_MODULE MODULE_PARAM_SIZE,
      MarkRequired KEY_PROTOCOL, MarkRequired KEY_BIND_ADDRESS, MarkRequired KEY_TCP_PORT,
      MarkRequired KEY_FENCE_MODULE]"

definition server_initialize ::
  "'b char_buffer_ops \<Rightarrow> ('t, 'b) qtree_ops \<Rightarrow> ('t, 'b) arguments \<Rightarrow> ('t, 'b) arguments_outcome" where
  "server_initialize cb qt = run_args cb qt server_parameter_ops"

text \<open>The loop over \<open>argv[1]\<close>, \<open>argv[2]\<close>, ...; \<open>crt_arg\<close> is one buffer for all of them.\<close>

fun server_read_loop ::
  "'b char_buffer_ops \<Rightarrow> ('t, 'b) qtree_ops \<Rightarrow> 'b \<Rightarrow> bytes list \<Rightarrow> ('t, 'b) arguments \<Rightarrow>
   ('t, 'b) arguments_outcome" where
  "server_read_loop cb qt crt_arg [] args = Normal args"
| "server_read_loop cb qt crt_arg (arg # argv) args =
     (case cb_assign_c_str cb crt_arg arg of
        None \<Rightarrow> Raised RangeException args
      | Some crt_arg \<Rightarrow>
          (let prefix = cb_of_c_str cb OPT_PREFIX in
           case (if cb_starts_with cb crt_arg prefix
                 then cb_substring cb crt_arg (cb_length cb prefix) (cb_length cb crt_arg)
                 else Some crt_arg) of
             None \<Rightarrow> Raised RangeException args
           | Some crt_arg \<Rightarrow>
               bind_outcome (process_argument cb qt crt_arg args)
                 (server_read_loop cb qt crt_arg argv)))"

definition argument_length_message :: bytes where
  "argument_length_message =
     ascii ''The command line contains arguments that exceed the allowed length''"

definition server_read_parameters ::
  "'b char_buffer_ops \<Rightarrow> ('t, 'b) qtree_ops \<Rightarrow> bytes list \<Rightarrow> ('t, 'b) arguments \<Rightarrow>
   ('t, 'b) arguments_outcome" where
  "server_read_parameters cb qt argv args =
     (case server_read_loop cb qt (cb_new cb SERVER_MAX_PARAMETER_SIZE) (drop 1 argv) args of
        Raised RangeException args' \<Rightarrow> Raised (ArgumentsException argument_length_message) args'
      | r \<Rightarrow> r)"

section \<open>The client's parameters\<close>

definition CLIENT_MAX_PARAMETER_SIZE :: nat where "CLIENT_MAX_PARAMETER_SIZE = 512"

definition client_parameter_ops :: "'b arg_op list" where
  "client_parameter_ops =
     [AddEntry KEY_ACTION ACTION_PARAM_SIZE, AddEntry KEY_PROTOCOL PROTOCOL_PARAM_SIZE,
      AddEntry KEY_IP_ADDRESS IP_ADDR_PARAM_SIZE, AddEntry KEY_TCP_PORT PORT_PARAM_SIZE,
      AddEntry KEY_NODENAME NODENAME_PARAM_SIZE, AddEntry KEY_SECRET SECRET_PARAM_SIZE,
      MarkRequired KEY_ACTION]"

definition client_initialize ::
  "'b char_buffer_ops \<Rightarrow> ('t, 'b) qtree_ops \<Rightarrow> ('t, 'b) arguments \<Rightarrow> ('t, 'b) arguments_outcome" where
  "client_initialize cb qt = run_args cb qt client_parameter_ops"

text \<open>
  Standard input: the bytes that will come, whether the source then ends or fails, and the
  state bits. \<open>getline\<close> stores up to \<open>n - 1\<close> bytes of the line, counts what it extracts (the
  newline included), and sets \<open>eofbit\<close> when the input ends, \<open>failbit\<close> when it extracts nothing
  or the line does not fit. With \<open>exceptions(badbit)\<close> a failing source throws: \<open>None\<close>.
\<close>

record istream =
  input :: bytes
  source_fails :: bool
  eofbit :: bool
  failbit :: bool
  badbit :: bool

definition good :: "istream \<Rightarrow> bool" where
  "good s \<longleftrightarrow> \<not> eofbit s \<and> \<not> failbit s \<and> \<not> badbit s"

abbreviation NEWLINE :: byte where "NEWLINE \<equiv> 10"

definition getline :: "nat \<Rightarrow> istream \<Rightarrow> (bytes \<times> nat \<times> istream) option" where
  "getline n s =
     (let line = takeWhile (\<lambda>b. b \<noteq> NEWLINE) (input s) in
      if n \<le> length line then
        Some (take (n - 1) line, n - 1, s\<lparr>input := drop (n - 1) (input s), failbit := True\<rparr>)
      else if length line < length (input s) then
        Some (line, length line + 1, s\<lparr>input := drop (length line + 1) (input s)\<rparr>)
      else if source_fails s then None
      else Some (line, length line, s\<lparr>input := [], eofbit := True, failbit := (line = [])\<rparr>))"

lemma getline_shrinks:
  assumes "getline n s = Some (line, count, s')" and "good s"
  shows "length (input s') + (if good s' then 1 else 0) < length (input s) + 1"
  using assms by (auto simp: getline_def good_def Let_def split: if_splits)

function client_read_loop ::
  "'b char_buffer_ops \<Rightarrow> ('t, 'b) qtree_ops \<Rightarrow> istream \<Rightarrow> ('t, 'b) arguments \<Rightarrow>
   (cpp_exception, ('t, 'b) arguments \<times> istream) outcome" where
  "client_read_loop cb qt s args =
     (if \<not> good s then Normal (args, s)
      else (case getline CLIENT_MAX_PARAMETER_SIZE s of
              None \<Rightarrow> Raised (OsException IO_ERROR) (args, s)
            | Some (line, read_count, s') \<Rightarrow>
                if 1 < read_count then
                  (case cb_assign_c_str cb (cb_new cb (read_count - 1)) line of
                     None \<Rightarrow> Raised RangeException (args, s')
                   | Some crt_arg \<Rightarrow>
                       (case process_argument cb qt crt_arg args of
                          Normal args' \<Rightarrow> client_read_loop cb qt s' args'
                        | Raised e args' \<Rightarrow> Raised e (args', s')
                        | Undefined_Behaviour \<Rightarrow> Undefined_Behaviour))
                else client_read_loop cb qt s' args))"
  by pat_completeness auto
termination
proof (relation "measure (\<lambda>(_, _, s, _). length (input s) + (if good s then 1 else 0))", goal_cases)
  case (2 cb qt s args p line q read_count s' crt_arg args')
  then show ?case using getline_shrinks [of _ s line read_count s'] by simp
next
  case (3 cb qt s args p line q read_count s')
  then show ?case using getline_shrinks [of _ s line read_count s'] by simp
qed simp

declare client_read_loop.simps [simp del]

definition client_read_parameters ::
  "'b char_buffer_ops \<Rightarrow> ('t, 'b) qtree_ops \<Rightarrow> istream \<Rightarrow> ('t, 'b) arguments \<Rightarrow>
   (cpp_exception, ('t, 'b) arguments \<times> istream) outcome" where
  "client_read_parameters cb qt s args =
     (if badbit s then Raised (OsException IO_ERROR) (args, s)
      else bind_outcome (client_read_loop cb qt s args)
        (\<lambda>(args, s). if failbit s \<and> \<not> eofbit s then Raised (OsException IO_ERROR) (args, s)
                     else Normal (args, s)))"

section \<open>What reading comes to\<close>

text \<open>The outcome of an operation on arguments, seen as one on the finite map.\<close>

fun outcome_spec :: "('a \<Rightarrow> arg_spec) \<Rightarrow> (cpp_exception, 'a) outcome \<Rightarrow> arg_spec result option" where
  "outcome_spec f (Normal a) = Some (Inr (f a))"
| "outcome_spec f (Raised e a) = Some (Inl e)"
| "outcome_spec f Undefined_Behaviour = None"

text \<open>The server: each argument loses its prefix and is processed.\<close>

definition strip_prefix :: "bytes \<Rightarrow> bytes" where
  "strip_prefix text =
     (if take (length OPT_PREFIX) text = OPT_PREFIX then drop (length OPT_PREFIX) text else text)"

fun spec_read_server :: "bytes list \<Rightarrow> arg_spec \<Rightarrow> arg_spec result" where
  "spec_read_server [] m = Inr m"
| "spec_read_server (a # as) m =
     (if SERVER_MAX_PARAMETER_SIZE < length (c_string a)
      then Inl (ArgumentsException argument_length_message)
      else (case spec_process (strip_prefix (c_string a)) m of
              Inl e \<Rightarrow> Inl e
            | Inr m' \<Rightarrow> spec_read_server as m'))"

text \<open>
  The client: each line that is not empty is processed; a line too long for the buffer, and
  a last line without its newline that has two bytes or more, end with a \<open>RangeException\<close>.
\<close>

fun spec_read_client :: "bytes list \<Rightarrow> bytes \<Rightarrow> arg_spec \<Rightarrow> arg_spec result" where
  "spec_read_client [] tail m = (if 2 \<le> length tail then Inl RangeException else Inr m)"
| "spec_read_client (l # ls) tail m =
     (if l = [] then spec_read_client ls tail m
      else if CLIENT_MAX_PARAMETER_SIZE \<le> length l then Inl RangeException
      else (case spec_process l m of
              Inl e \<Rightarrow> Inl e
            | Inr m' \<Rightarrow> spec_read_client ls tail m'))"

lemma spec_process_error: "spec_process text m = Inl e \<Longrightarrow> \<exists>msg. e = ArgumentsException msg"
  by (auto simp: spec_process_def split: option.splits if_splits)

lemma c_string_OPT_PREFIX [simp]: "c_string OPT_PREFIX = OPT_PREFIX"
  by (simp add: OPT_PREFIX_def ascii_def c_string_def)

context argument_table
begin

lemma process_argument_spec:
  assumes "args_ok cb qt tree_ok args"
  shows "case process_argument cb qt arg args of
       Normal args' \<Rightarrow> args_ok cb qt tree_ok args' \<and>
         spec_process (cb_c_str cb arg) (abs_args cb cap qt args) = Inr (abs_args cb cap qt args')
     | Raised e args' \<Rightarrow> e \<noteq> RangeException \<and>
         spec_process (cb_c_str cb arg) (abs_args cb cap qt args) = Inl e
     | Undefined_Behaviour \<Rightarrow> False"
  using process_argument_implements [OF assms, of arg] spec_process_error
  by (cases "process_argument cb qt arg args") (fastforce simp: implements_def)+

lemma strip_assigned:
  assumes "cb_c_str cb crt = text"
  shows "\<exists>crt'. (if cb_starts_with cb crt (cb_of_c_str cb OPT_PREFIX)
            then cb_substring cb crt (cb_length cb (cb_of_c_str cb OPT_PREFIX)) (cb_length cb crt)
            else Some crt) = Some crt' \<and>
           cb_c_str cb crt' = strip_prefix text \<and> cap crt' = cap crt"
proof (cases "take (length OPT_PREFIX) text = OPT_PREFIX")
  case True
  then have le: "length OPT_PREFIX \<le> length text" by (metis length_take min.cobounded1)
  from substring_ok [of "length OPT_PREFIX" "length text" crt] assms le obtain crt'
    where "cb_substring cb crt (length OPT_PREFIX) (length text) = Some crt'"
      "cb_c_str cb crt' = drop (length OPT_PREFIX) text" "cap crt' = cap crt"
    by (auto simp: segment_to_end)
  with True assms show ?thesis
    by (simp add: starts_with of_c_str_str length_str strip_prefix_def)
next
  case False
  with assms show ?thesis by (simp add: starts_with of_c_str_str strip_prefix_def)
qed

lemma server_read_loop_spec:
  assumes "args_ok cb qt tree_ok args" and "cap crt = SERVER_MAX_PARAMETER_SIZE"
  shows "case server_read_loop cb qt crt as args of
       Normal args' \<Rightarrow> spec_read_server as (abs_args cb cap qt args) = Inr (abs_args cb cap qt args')
     | Raised e args' \<Rightarrow> spec_read_server as (abs_args cb cap qt args) =
         Inl (if e = RangeException then ArgumentsException argument_length_message else e)
     | Undefined_Behaviour \<Rightarrow> False"
  using assms
proof (induction as arbitrary: args crt)
  case (Cons a as)
  show ?case
  proof (cases "cb_assign_c_str cb crt a")
    case None
    then have "SERVER_MAX_PARAMETER_SIZE < length (c_string a)"
      using assign_c_str_fail [of crt a] Cons.prems(2) by simp
    then show ?thesis using None by (simp del: assign_c_str_fail)
  next
    case (Some crt1)
    then have fits: "\<not> SERVER_MAX_PARAMETER_SIZE < length (c_string a)"
      using assign_c_str_fail [of crt a] Cons.prems(2) by simp
    from strip_assigned [OF assign_c_str_str [OF Some]] assign_c_str_cap [OF Some] obtain crt2
      where strip: "(if cb_starts_with cb crt1 (cb_of_c_str cb OPT_PREFIX)
            then cb_substring cb crt1 (cb_length cb (cb_of_c_str cb OPT_PREFIX)) (cb_length cb crt1)
            else Some crt1) = Some crt2"
        and crt2: "cb_c_str cb crt2 = strip_prefix (c_string a)" "cap crt2 = cap crt" by metis
    note unfold = server_read_loop.simps(2) Some option.case Let_def strip
    show ?thesis
    proof (cases "process_argument cb qt crt2 args")
      case (Normal args')
      with process_argument_spec [OF Cons.prems(1), of crt2] Cons.IH [of args' crt2] Cons.prems(2)
      show ?thesis
        by (cases "server_read_loop cb qt crt2 as args'") (simp_all add: unfold fits crt2)
    qed (use process_argument_spec [OF Cons.prems(1), of crt2] in
        \<open>simp_all add: unfold fits crt2\<close>)
  qed
qed simp

lemma server_read_parameters_spec:
  assumes "args_ok cb qt tree_ok args"
  shows "outcome_spec (abs_args cb cap qt) (server_read_parameters cb qt argv args) =
         Some (spec_read_server (drop 1 argv) (abs_args cb cap qt args))"
  using server_read_loop_spec [OF assms, of "cb_new cb SERVER_MAX_PARAMETER_SIZE" "drop 1 argv"]
  by (auto simp: server_read_parameters_def new_cap split: outcome.splits cpp_exception.splits)

end

text \<open>With the prefix and without.\<close>

lemma c_string_prefixed: "c_string (OPT_PREFIX @ a) = OPT_PREFIX @ c_string a"
  by (simp add: OPT_PREFIX_def ascii_def c_string_def)

lemma spec_read_server_prefixed:
  assumes "\<forall>a \<in> set as. length (c_string a) + length OPT_PREFIX \<le> SERVER_MAX_PARAMETER_SIZE \<and>
             take (length OPT_PREFIX) (c_string a) \<noteq> OPT_PREFIX"
  shows "spec_read_server (map (\<lambda>a. OPT_PREFIX @ a) as) m = spec_read_server as m"
  using assms
proof (induction as arbitrary: m)
  case (Cons a as)
  then show ?case
    by (simp add: c_string_prefixed strip_prefix_def split: sum.split)
qed simp

section \<open>Lines\<close>

text \<open>The bytes of standard input: lines with their newline, then what follows the last one.\<close>

definition text_lines :: "bytes list \<Rightarrow> bytes \<Rightarrow> bytes" where
  "text_lines ls tail = concat (map (\<lambda>l. l @ [NEWLINE]) ls) @ tail"

definition plain_line :: "bytes \<Rightarrow> bool" where
  "plain_line l \<longleftrightarrow> NEWLINE \<notin> set l \<and> 0 \<notin> set l"

lemma takeWhile_line: "NEWLINE \<notin> set l \<Longrightarrow> takeWhile (\<lambda>b. b \<noteq> NEWLINE) (l @ NEWLINE # xs) = l"
  by (subst takeWhile_append2) auto

lemma takeWhile_tail: "NEWLINE \<notin> set l \<Longrightarrow> takeWhile (\<lambda>b. b \<noteq> NEWLINE) l = l"
  by (simp add: takeWhile_eq_all_conv) auto

lemma plain_line_take: "plain_line l \<Longrightarrow> c_string (take n l) = take n l"
  by (rule c_string_id) (auto simp: plain_line_def dest: in_set_takeD)

lemma getline_line:
  assumes "plain_line l" and "input s = l @ NEWLINE # rest" and "length l < n"
  shows "getline n s = Some (l, length l + 1, s\<lparr>input := rest\<rparr>)"
  using assms by (simp add: getline_def takeWhile_line plain_line_def)

lemma getline_long:
  assumes "NEWLINE \<notin> set l" and "input s = l @ rest" and "rest = [] \<or> (\<exists>r. rest = NEWLINE # r)"
    and "n \<le> length l"
  shows "getline n s = Some (take (n - 1) l, n - 1,
           s\<lparr>input := drop (n - 1) (input s), failbit := True\<rparr>)"
  using assms by (auto simp: getline_def takeWhile_line takeWhile_tail)

lemma getline_tail:
  assumes "NEWLINE \<notin> set l" and "input s = l" and "length l < n" and "\<not> source_fails s"
  shows "getline n s = Some (l, length l, s\<lparr>input := [], eofbit := True, failbit := (l = [])\<rparr>)"
  using assms by (simp add: getline_def takeWhile_tail)

lemma client_read_loop_ended: "\<not> good s \<Longrightarrow> client_read_loop cb qt s args = Normal (args, s)"
  by (subst client_read_loop.simps) simp

context argument_table
begin

text \<open>One turn of the loop that stops with a \<open>RangeException\<close>: more bytes than the count less one.\<close>

lemma client_read_loop_range:
  assumes "good s" and "getline CLIENT_MAX_PARAMETER_SIZE s = Some (line, count, s')"
    and "1 < count" and "length (c_string line) = count"
  shows "\<exists>a. client_read_loop cb qt s args = Raised RangeException a"
proof -
  have "cb_assign_c_str cb (cb_new cb (count - 1)) line = None"
    using assms(3,4) by (simp add: assign_c_str_fail new_cap)
  with assms(1-3) show ?thesis by (subst client_read_loop.simps) simp
qed

lemma client_read_loop_long:
  assumes "good s" and "plain_line l" and "input s = l @ rest"
    and "rest = [] \<or> (\<exists>r. rest = NEWLINE # r)" and "CLIENT_MAX_PARAMETER_SIZE \<le> length l"
  shows "\<exists>a. client_read_loop cb qt s args = Raised RangeException a"
proof -
  have nl: "NEWLINE \<notin> set l" using assms(2) by (simp add: plain_line_def)
  show ?thesis
    by (rule client_read_loop_range [OF assms(1) getline_long [OF nl assms(3-5)]])
      (use assms(2,5) in \<open>simp_all add: plain_line_take CLIENT_MAX_PARAMETER_SIZE_def\<close>)
qed

lemma client_read_loop_line:
  assumes "good s" and "plain_line l" and "input s = l @ NEWLINE # rest"
    and "length l < CLIENT_MAX_PARAMETER_SIZE" and "l \<noteq> []"
  shows "\<exists>arg. cb_c_str cb arg = l \<and> client_read_loop cb qt s args =
           (case process_argument cb qt arg args of
              Normal args' \<Rightarrow> client_read_loop cb qt (s\<lparr>input := rest\<rparr>) args'
            | Raised e args' \<Rightarrow> Raised e (args', s\<lparr>input := rest\<rparr>)
            | Undefined_Behaviour \<Rightarrow> Undefined_Behaviour)"
proof -
  have same: "c_string l = l" using assms(2) by (simp add: c_string_id plain_line_def)
  then have "cb_assign_c_str cb (cb_new cb (length l)) l \<noteq> None"
    by (simp add: assign_c_str_fail new_cap del: not_None_eq)
  then obtain arg where arg: "cb_assign_c_str cb (cb_new cb (length l)) l = Some arg" by blast
  from assign_c_str_str [OF arg] same have "cb_c_str cb arg = l" by simp
  moreover have "client_read_loop cb qt s args = (case process_argument cb qt arg args of
              Normal args' \<Rightarrow> client_read_loop cb qt (s\<lparr>input := rest\<rparr>) args'
            | Raised e args' \<Rightarrow> Raised e (args', s\<lparr>input := rest\<rparr>)
            | Undefined_Behaviour \<Rightarrow> Undefined_Behaviour)"
    using assms(1,5) by (subst client_read_loop.simps) (simp add: getline_line [OF assms(2-4)] arg)
  ultimately show ?thesis by blast
qed

lemma client_read_loop_empty:
  assumes "good s" and "input s = NEWLINE # rest"
  shows "client_read_loop cb qt s args = client_read_loop cb qt (s\<lparr>input := rest\<rparr>) args"
proof -
  have "getline CLIENT_MAX_PARAMETER_SIZE s = Some ([], 1, s\<lparr>input := rest\<rparr>)"
    using getline_line [of "[]" s rest CLIENT_MAX_PARAMETER_SIZE] assms(2)
    by (simp add: plain_line_def CLIENT_MAX_PARAMETER_SIZE_def)
  with assms(1) show ?thesis by (subst client_read_loop.simps) simp
qed

lemma client_read_loop_tail:
  assumes "good s" and "plain_line tail" and "input s = tail" and "\<not> source_fails s"
  shows "if 2 \<le> length tail then \<exists>a. client_read_loop cb qt s args = Raised RangeException a
         else \<exists>s'. client_read_loop cb qt s args = Normal (args, s') \<and> eofbit s'"
proof (cases "CLIENT_MAX_PARAMETER_SIZE \<le> length tail")
  case True
  then have "2 \<le> length tail" by (simp add: CLIENT_MAX_PARAMETER_SIZE_def)
  with client_read_loop_long [OF assms(1,2) _ _ True, of "[]"] assms(3) show ?thesis by simp
next
  case False
  have nl: "NEWLINE \<notin> set tail" using assms(2) by (simp add: plain_line_def)
  from False have get: "getline CLIENT_MAX_PARAMETER_SIZE s = Some (tail, length tail,
      s\<lparr>input := [], eofbit := True, failbit := (tail = [])\<rparr>)"
    by (intro getline_tail [OF nl assms(3) _ assms(4)]) simp
  show ?thesis
  proof (cases "2 \<le> length tail")
    case True
    with client_read_loop_range [OF assms(1) get] assms(2) show ?thesis
      by (simp add: c_string_id plain_line_def)
  next
    case False
    with assms(1) get show ?thesis
      by (subst client_read_loop.simps) (simp add: client_read_loop_ended good_def)
  qed
qed

lemma client_read_loop_spec:
  assumes "args_ok cb qt tree_ok args" and "good s" and "\<not> source_fails s"
    and "input s = text_lines ls tail" and "\<forall>l \<in> set ls. plain_line l" and "plain_line tail"
  shows "case client_read_loop cb qt s args of
       Normal (args', s') \<Rightarrow> eofbit s' \<and>
         spec_read_client ls tail (abs_args cb cap qt args) = Inr (abs_args cb cap qt args')
     | Raised e _ \<Rightarrow> spec_read_client ls tail (abs_args cb cap qt args) = Inl e
     | Undefined_Behaviour \<Rightarrow> False"
  using assms
proof (induction ls arbitrary: args s)
  case Nil
  then have "input s = tail" by (simp add: text_lines_def)
  with client_read_loop_tail [OF Nil.prems(2,6) _ Nil.prems(3), of args] show ?case
    by (auto split: if_splits)
next
  case (Cons l ls)
  let ?rest = "text_lines ls tail"
  have inp: "input s = l @ NEWLINE # ?rest" using Cons.prems(4) by (simp add: text_lines_def)
  have l: "plain_line l" using Cons.prems(5) by simp
  note IH = Cons.IH [of _ "s\<lparr>input := ?rest\<rparr>"]
  have ready: "good (s\<lparr>input := ?rest\<rparr>)" "\<not> source_fails (s\<lparr>input := ?rest\<rparr>)"
    using Cons.prems(2,3) by (simp_all add: good_def)
  consider (empty) "l = []" | (long) "CLIENT_MAX_PARAMETER_SIZE \<le> length l" "l \<noteq> []"
    | (line) "l \<noteq> []" "length l < CLIENT_MAX_PARAMETER_SIZE" by fastforce
  then show ?case
  proof cases
    case empty
    have spec: "spec_read_client (l # ls) tail m = spec_read_client ls tail m" for m
      by (simp add: empty)
    from empty inp have "client_read_loop cb qt s args = client_read_loop cb qt (s\<lparr>input := ?rest\<rparr>) args"
      by (intro client_read_loop_empty [OF Cons.prems(2)]) simp
    with IH [of args] ready Cons.prems show ?thesis by (simp only: spec) simp
  next
    case long
    with client_read_loop_long [OF Cons.prems(2) l inp _ long(1), of args] show ?thesis by auto
  next
    case line
    from client_read_loop_line [OF Cons.prems(2) l inp line(2,1), of args] obtain arg
      where arg: "cb_c_str cb arg = l"
        and loop: "client_read_loop cb qt s args = (case process_argument cb qt arg args of
              Normal args' \<Rightarrow> client_read_loop cb qt (s\<lparr>input := ?rest\<rparr>) args'
            | Raised e args' \<Rightarrow> Raised e (args', s\<lparr>input := ?rest\<rparr>)
            | Undefined_Behaviour \<Rightarrow> Undefined_Behaviour)" by blast
    show ?thesis
    proof (cases "process_argument cb qt arg args")
      case (Normal args')
      with process_argument_spec [OF Cons.prems(1), of arg] arg
      have step: "args_ok cb qt tree_ok args'"
        "spec_process l (abs_args cb cap qt args) = Inr (abs_args cb cap qt args')" by simp_all
      with line have spec: "spec_read_client (l # ls) tail (abs_args cb cap qt args) =
          spec_read_client ls tail (abs_args cb cap qt args')" by simp
      from loop Normal have "client_read_loop cb qt s args = client_read_loop cb qt (s\<lparr>input := ?rest\<rparr>) args'"
        by simp
      with IH [of args'] ready step(1) Cons.prems(5,6) show ?thesis by (simp only: spec) simp
    qed (use process_argument_spec [OF Cons.prems(1), of arg] line arg in \<open>simp_all add: loop\<close>)
  qed
qed

lemma client_read_parameters_spec:
  assumes "args_ok cb qt tree_ok args" and "good s" and "\<not> source_fails s"
    and "input s = text_lines ls tail" and "\<forall>l \<in> set ls. plain_line l" and "plain_line tail"
  shows "outcome_spec (\<lambda>(args, s). abs_args cb cap qt args) (client_read_parameters cb qt s args) =
         Some (spec_read_client ls tail (abs_args cb cap qt args))"
proof -
  have "\<not> badbit s" using assms(2) by (simp add: good_def)
  with client_read_loop_spec [OF assms] show ?thesis
    by (auto simp: client_read_parameters_def split: outcome.splits prod.splits)
qed

end

section \<open>Properties\<close>




definition sample_input :: istream where
  "sample_input = \<lparr>input = text_lines [] (ascii ''action=off''), source_fails = False,
     eofbit = False, failbit = False, badbit = False\<rparr>"


end
