(* ===== verification/Client_Meta_Data.thy ===== *)
theory Client_Meta_Data
  imports Prelude
begin

text \<open>
  The metadata the client prints (ClientMetaData.h, ClientMetaData.cpp), line by line, and
  the actions and parameters it declares.
\<close>

definition meta_data_lines :: "string list" where \<open>
  meta_data_lines =
    [''<resource-agent name="fence-universal"'',
     ''  shortdesc="Universal Fencing Hub client">'',
     ''  <longdesc>'',
     ''  </longdesc>'',
     ''  <vendor-url>'',
     ''  </vendor-url>'',
     ''  <parameters>'',
     ''    <parameter name="action" unique="1" required="1">'',
     ''      <content type="string" default="off"/>'',
     ''      <shortdesc lang="en">'',
     ''        Fencing action to perform: off, reboot, on'',
     ''      </shortdesc>'',
     ''    </parameter>'',
     ''    <parameter name="protocol" unique="1" required="1">'',
     ''      <content type="string"/>'',
     ''      <shortdesc lang="en">'',
     ''        Protocol for the connection to the Universal Fencing Hub server: IPV4, IPV6'',
     ''      </shortdesc>'',
     ''    </parameter>'',
     ''    <parameter name="ip_address" unique="1" required="1">'',
     ''      <content type="string"/>'',
     ''      <shortdesc lang="en">'',
     ''        IP address of the Universal Fencing Hub server'',
     ''      </shortdesc>'',
     ''    </parameter>'',
     ''    <parameter name="tcp_port" unique="1" required="1">'',
     ''      <content type="string"/>'',
     ''        TCP port address of the Universal Fencing Hub server'',
     ''      <shortdesc lang="en">'',
     ''      </shortdesc>'',
     ''    </parameter>'',
     ''    <parameter name="secret" unique="1" required="1">'',
     ''      <content type="string"/>'',
     ''      <shortdesc lang="en">'',
     ''        Password for sign in to the Univseral Fencing Hub server'',
     ''      </shortdesc>'',
     ''    </parameter>'',
     ''  </parameters>'',
     ''  <actions>'',
     ''    <action name="off"/>'',
     ''    <action name="reboot"/>'',
     ''    <action name="on"/>'',
     ''    <action name="metadata"/>'',
     ''    <action name="status"/>'',
     ''    <action name="list"/>'',
     ''    <action name="monitor"/>'',
     ''    <action name="start" timeout="20s"/>'',
     ''    <action name="stop" timeout="20s"/>'',
     ''  </actions>'',
     ''</resource-agent>'']\<close>

definition CRM_META_DATA_XML :: bytes where
  "CRM_META_DATA_XML = ascii (concat (map (\<lambda>l. l @ [CHR 0x0A]) meta_data_lines))"

text \<open>The names of the elements of one kind, from the lines that open them.\<close>

definition element_names :: "string \<Rightarrow> string list" where
  "element_names kind =
     map (takeWhile (\<lambda>c. c \<noteq> CHR 0x22)) (map (drop (length kind + 12))
       (filter (\<lambda>l. take (length kind + 12) l = ''    <'' @ kind @ '' name='' @ [CHR 0x22]) meta_data_lines))"

lemma meta_data_actions:
  "element_names ''action'' = [''off'', ''reboot'', ''on'', ''metadata'', ''status'', ''list'', ''monitor'', ''start'', ''stop'']"
  by (simp add: element_names_def meta_data_lines_def)

lemma meta_data_parameters:
  "element_names ''parameter'' = [''action'', ''protocol'', ''ip_address'', ''tcp_port'', ''secret'']"
  by (simp add: element_names_def meta_data_lines_def)

end
