(* ===== verification/Fence_Client.thy ===== *)
theory Fence_Client
  imports Parameters Client_Connector Client_Meta_Data
begin

text \<open>
  The fencing client (Client.h, Client.cpp): reading the parameters, the dispatch of the
  action, the request over a connector and the exit code of the process.
\<close>

section \<open>Constants\<close>

definition VERSION_CODE :: "32 word" where "VERSION_CODE = 0x00010000"
definition VERSION_STRING :: bytes where "VERSION_STRING = ascii ''1.0.0''"

definition DEFAULT_APP_NAME :: bytes where "DEFAULT_APP_NAME = ascii ''fence-universal''"

definition ACTION_OFF :: bytes where "ACTION_OFF = ascii ''off''"
definition ACTION_ON :: bytes where "ACTION_ON = ascii ''on''"
definition ACTION_REBOOT :: bytes where "ACTION_REBOOT = ascii ''reboot''"
definition ACTION_METADATA :: bytes where "ACTION_METADATA = ascii ''metadata''"
definition ACTION_STATUS :: bytes where "ACTION_STATUS = ascii ''status''"
definition ACTION_LIST :: bytes where "ACTION_LIST = ascii ''list''"
definition ACTION_MONITOR :: bytes where "ACTION_MONITOR = ascii ''monitor''"
definition ACTION_START :: bytes where "ACTION_START = ascii ''start''"
definition ACTION_STOP :: bytes where "ACTION_STOP = ascii ''stop''"

datatype ExitCode = FENCING_SUCCESS | FENCING_FAILURE

fun exit_code_value :: "ExitCode \<Rightarrow> nat" where
  "exit_code_value FENCING_SUCCESS = 0"
| "exit_code_value FENCING_FAILURE = 1"

section \<open>The environment\<close>

text \<open>
  What the process finds: the libraries, the system calls with their state, the uninitialised
  memory of the structures, its input and its two outputs. \<open>cw_shut\<close> are the descriptors
  that the connector has closed.
\<close>

record ('t, 'b, 'n) client_env =
  ce_cb :: "'b char_buffer_ops"
  ce_qt :: "('t, 'b) qtree_ops"
  ce_net :: net_lib
  ce_in :: sockaddr_in
  ce_in6 :: sockaddr_in6
  ce_memory :: bytes
  ce_os :: "'n client_os"

record 'n client_world =
  cw_net :: 'n
  cw_stdin :: istream
  cw_stdout :: bytes
  cw_stderr :: bytes
  cw_shut :: "int list"

type_synonym ('a, 'n) client_result = "(cpp_exception, 'a \<times> 'n client_world) outcome option"

definition print_out :: "bytes \<Rightarrow> 'n client_world \<Rightarrow> 'n client_world" where
  "print_out s w = w\<lparr>cw_stdout := cw_stdout w @ s\<rparr>"

definition print_err :: "bytes \<Rightarrow> 'n client_world \<Rightarrow> 'n client_world" where
  "print_err s w = w\<lparr>cw_stderr := cw_stderr w @ s\<rparr>"

section \<open>Talking to the server\<close>

text \<open>The connector, if it could be made. A failed one has not opened a socket.\<close>

definition init_connector ::
  "('t, 'b, 'n) client_env \<Rightarrow> ('t, 'b) arguments \<Rightarrow> (cpp_exception, client_connector option) outcome" where
  "init_connector env params =
     (case get_value (ce_cb env) (ce_qt env) KEY_PROTOCOL params of
        Inl e \<Rightarrow> Raised e None
      | Inr protocol \<Rightarrow>
          (case get_value (ce_cb env) (ce_qt env) KEY_IP_ADDRESS params of
             Inl e \<Rightarrow> Raised e None
           | Inr ip_address \<Rightarrow>
               (case get_value (ce_cb env) (ce_qt env) KEY_TCP_PORT params of
                  Inl e \<Rightarrow> Raised e None
                | Inr port \<Rightarrow>
                    (case construct_client_connector (ce_cb env) (ce_net env) (ce_in env) (ce_in6 env)
                            (ce_memory env) protocol ip_address port of
                       Normal c \<Rightarrow> Normal (Some c)
                     | Raised e _ \<Rightarrow> Raised e None
                     | Undefined_Behaviour \<Rightarrow> Undefined_Behaviour))))"

text \<open>
  The scope of \<open>connector_mgr\<close>: the connector is made, used and destroyed, also when an
  exception leaves the scope.
\<close>

definition with_connector ::
  "('t, 'b, 'n) client_env \<Rightarrow> ('t, 'b) arguments \<Rightarrow>
   (client_connector \<Rightarrow> 'n \<Rightarrow> 'n client_answer) \<Rightarrow> 'n client_world \<Rightarrow> (bool, 'n) client_result" where
  "with_connector env params body w =
     (case init_connector env params of
        Raised e _ \<Rightarrow> Some (Raised e (False, w))
      | Normal (Some c) \<Rightarrow>
          map_option (map_outcome (\<lambda>(rc, c, n).
              (rc, w\<lparr>cw_net := n, cw_shut := cw_shut w @ cc_closed (destruct_client_connector c)\<rparr>)))
            (body c (cw_net w))
      | _ \<Rightarrow> Some Undefined_Behaviour)"

text \<open>\<open>connect_to_server\<close>, the request, \<open>disconnect_from_server\<close>.\<close>

definition connected ::
  "('t, 'b, 'n) client_env \<Rightarrow> (client_connector \<Rightarrow> 'n \<Rightarrow> 'n client_answer) \<Rightarrow>
   client_connector \<Rightarrow> 'n \<Rightarrow> 'n client_answer" where
  "connected env request c n =
     (case connect_to_server (ce_net env) (ce_in env) (ce_in6 env) (ce_os env) c n of
        Raised e (c, n) \<Rightarrow> Some (Raised e (False, c, n))
      | Undefined_Behaviour \<Rightarrow> Some Undefined_Behaviour
      | Normal (c, n) \<Rightarrow>
          (case request c n of
             Some (Normal (rc, c, n)) \<Rightarrow> Some (Normal (rc, disconnect_from_server c, n))
           | r \<Rightarrow> r))"

definition server_keys :: "'b arg_op list" where
  "server_keys = [MarkRequired KEY_PROTOCOL, MarkRequired KEY_IP_ADDRESS, MarkRequired KEY_TCP_PORT]"

definition check_server_connection ::
  "('t, 'b, 'n) client_env \<Rightarrow> ('t, 'b) arguments \<Rightarrow> 'n client_world \<Rightarrow> (bool, 'n) client_result" where
  "check_server_connection env params w =
     (case run_args (ce_cb env) (ce_qt env) server_keys params of
        Raised e _ \<Rightarrow> Some (Raised e (False, w))
      | Undefined_Behaviour \<Rightarrow> Some Undefined_Behaviour
      | Normal params \<Rightarrow>
          (case check_required (ce_cb env) (ce_qt env) params of
             Inl e \<Rightarrow> Some (Raised e (False, w))
           | Inr _ \<Rightarrow> with_connector env params (connected env (check_connection (ce_os env))) w))"

definition fence_keys :: "'b arg_op list" where
  "fence_keys = [MarkRequired KEY_PROTOCOL, MarkRequired KEY_IP_ADDRESS, MarkRequired KEY_TCP_PORT,
     MarkRequired KEY_NODENAME, MarkRequired KEY_SECRET]"

definition logic_error_message :: "bytes \<Rightarrow> bytes" where
  "logic_error_message action =
     ascii ''Logic error: fence_action(...) called with invalid action '' @ QUOTE @ c_string action @ QUOTE"

text \<open>The choice of the request, once connected.\<close>

definition fence_request ::
  "('t, 'b, 'n) client_env \<Rightarrow> ('t, 'b) arguments \<Rightarrow> client_connector \<Rightarrow> 'n \<Rightarrow> 'n client_answer" where
  "fence_request env params c n =
     (case get_value (ce_cb env) (ce_qt env) KEY_ACTION params of
        Inl e \<Rightarrow> Some (Raised e (False, c, n))
      | Inr action \<Rightarrow>
          (case get_value (ce_cb env) (ce_qt env) KEY_NODENAME params of
             Inl e \<Rightarrow> Some (Raised e (False, c, n))
           | Inr node_name \<Rightarrow>
               (case get_value (ce_cb env) (ce_qt env) KEY_SECRET params of
                  Inl e \<Rightarrow> Some (Raised e (False, c, n))
                | Inr client_secret \<Rightarrow>
                    if cb_equals_c_str (ce_cb env) action ACTION_OFF then
                      client_fence_off (ce_cb env) (ce_os env) node_name client_secret c n
                    else if cb_equals_c_str (ce_cb env) action ACTION_ON then
                      client_fence_on (ce_cb env) (ce_os env) node_name client_secret c n
                    else if cb_equals_c_str (ce_cb env) action ACTION_REBOOT then
                      client_fence_reboot (ce_cb env) (ce_os env) node_name client_secret c n
                    else Some (Raised (ClientException (logic_error_message (cb_c_str (ce_cb env) action)))
                                 (False, c, n)))))"

definition client_fence_action ::
  "('t, 'b, 'n) client_env \<Rightarrow> ('t, 'b) arguments \<Rightarrow> 'n client_world \<Rightarrow> (bool, 'n) client_result" where
  "client_fence_action env params w =
     (case run_args (ce_cb env) (ce_qt env) fence_keys params of
        Raised e _ \<Rightarrow> Some (Raised e (False, w))
      | Undefined_Behaviour \<Rightarrow> Some Undefined_Behaviour
      | Normal params \<Rightarrow>
          (case check_required (ce_cb env) (ce_qt env) params of
             Inl e \<Rightarrow> Some (Raised e (False, w))
           | Inr _ \<Rightarrow> with_connector env params (connected env (fence_request env params)) w))"

section \<open>The action\<close>

definition output_metadata :: "'n client_world \<Rightarrow> 'n client_world" where
  "output_metadata = print_out (CRM_META_DATA_XML @ [NEWLINE])"

definition exit_code_of :: "bool \<Rightarrow> ExitCode" where
  "exit_code_of rc = (if rc then FENCING_SUCCESS else FENCING_FAILURE)"

definition with_exit_code :: "(bool, 'n) client_result \<Rightarrow> (ExitCode, 'n) client_result" where
  "with_exit_code = map_option (map_outcome (\<lambda>(rc, w). (exit_code_of rc, w)))"

definition invalid_action_message :: "bytes \<Rightarrow> bytes" where
  "invalid_action_message action =
     ascii ''Request for invalid action '' @ [0x27] @ c_string action @ [0x27]"

definition dispatch_request ::
  "('t, 'b, 'n) client_env \<Rightarrow> ('t, 'b) arguments \<Rightarrow> 'n client_world \<Rightarrow> (ExitCode, 'n) client_result" where
  "dispatch_request env params w =
     (case check_required (ce_cb env) (ce_qt env) params of
        Inl e \<Rightarrow> Some (Raised e (FENCING_FAILURE, w))
      | Inr _ \<Rightarrow>
          (case get_value (ce_cb env) (ce_qt env) KEY_ACTION params of
             Inl e \<Rightarrow> Some (Raised e (FENCING_FAILURE, w))
           | Inr action \<Rightarrow>
               (let is_action = cb_equals_c_str (ce_cb env) action in
                if is_action ACTION_OFF \<or> is_action ACTION_ON \<or> is_action ACTION_REBOOT then
                  with_exit_code (client_fence_action env params w)
                else if is_action ACTION_METADATA then Some (Normal (FENCING_SUCCESS, output_metadata w))
                else if is_action ACTION_LIST then with_exit_code (check_server_connection env params w)
                else if is_action ACTION_MONITOR then with_exit_code (check_server_connection env params w)
                else if is_action ACTION_STATUS then with_exit_code (check_server_connection env params w)
                else if is_action ACTION_START \<or> is_action ACTION_STOP then
                  Some (Normal (FENCING_SUCCESS, w))
                else Some (Raised (ClientException (invalid_action_message (cb_c_str (ce_cb env) action)))
                             (FENCING_FAILURE, w)))))"

definition client_run ::
  "('t, 'b, 'n) client_env \<Rightarrow> 'n client_world \<Rightarrow> (ExitCode, 'n) client_result" where
  "client_run env w =
     (case client_initialize (ce_cb env) (ce_qt env) (new_arguments (ce_cb env) (ce_qt env)) of
        Raised e _ \<Rightarrow> Some (Raised e (FENCING_FAILURE, w))
      | Undefined_Behaviour \<Rightarrow> Some Undefined_Behaviour
      | Normal params \<Rightarrow>
          (case client_read_parameters (ce_cb env) (ce_qt env) (cw_stdin w) params of
             Raised e (_, s) \<Rightarrow> Some (Raised e (FENCING_FAILURE, w\<lparr>cw_stdin := s\<rparr>))
           | Undefined_Behaviour \<Rightarrow> Some Undefined_Behaviour
           | Normal (params, s) \<Rightarrow> dispatch_request env params (w\<lparr>cw_stdin := s\<rparr>)))"

section \<open>The process\<close>

text \<open>
  How the process ends: with an exit code, by \<open>std::terminate\<close> after an exception nobody
  catches, or with undefined behaviour.
\<close>

datatype process_end = Exit nat | Terminate | Undefined_End

definition success_line :: bytes where
  "success_line = [0x1B] @ ascii ''[1;32mAction successful'' @ [0x1B] @ ascii ''[0m'' @ [NEWLINE]"

definition failure_line :: bytes where
  "failure_line = [0x1B] @ ascii ''[1;31mAction failed'' @ [0x1B] @ ascii ''[0m'' @ [NEWLINE]"

text \<open>The handlers of \<open>main\<close>; \<open>None\<close> for an exception that none of them takes.\<close>

definition client_handler :: "bytes \<Rightarrow> cpp_exception \<Rightarrow> bytes option" where
  "client_handler path e =
     (case e of
        ArgumentsException m \<Rightarrow>
          Some (path @ ascii '': Invalid arguments'' @ [NEWLINE] @ c_string m @ [NEWLINE])
      | ClientException m \<Rightarrow> Some (path @ ascii '': '' @ c_string m @ [NEWLINE])
      | InetException i \<Rightarrow> Some (path @ ascii '': Network communication failed: '' @
          ascii (inet_error_description i) @ [NEWLINE])
      | OsException i \<Rightarrow> Some (path @ ascii '': System error: '' @ ascii (os_error_description i) @ [NEWLINE])
      | BadAlloc \<Rightarrow> Some (path @ ascii '': Execution failed: Out of memory'' @ [NEWLINE])
      | _ \<Rightarrow> None)"

definition client_main ::
  "('t, 'b, 'n) client_env \<Rightarrow> bytes list \<Rightarrow> 'n client_world \<Rightarrow> (process_end \<times> 'n client_world) option" where
  "client_main env argv w =
     (let pgm_call_path = c_string (case argv of [] \<Rightarrow> DEFAULT_APP_NAME | path # _ \<Rightarrow> path) in
      case client_run env w of
        None \<Rightarrow> None
      | Some Undefined_Behaviour \<Rightarrow> Some (Undefined_End, w)
      | Some (Normal (rc, w)) \<Rightarrow>
          Some (Exit (exit_code_value rc),
                print_out (if rc = FENCING_SUCCESS then success_line else failure_line) w)
      | Some (Raised e (_, w)) \<Rightarrow>
          (case client_handler pgm_call_path e of
             Some message \<Rightarrow> Some (Exit (exit_code_value FENCING_FAILURE), print_err message w)
           | None \<Rightarrow> Some (Terminate, w)))"

section \<open>What exit code 0 means\<close>

lemma get_value_mark_required:
  assumes "mark_required cb qt k args = Normal args'"
  shows "get_value cb qt key args' = get_value cb qt key args"
  using assms by (auto simp: mark_required_def get_value_def Let_def split: option.splits)

text \<open>Marking keys as required does not change a value.\<close>

fun only_marks :: "'b arg_op \<Rightarrow> bool" where
  "only_marks (MarkRequired _) = True"
| "only_marks _ = False"

lemma get_value_marks:
  assumes "run_args cb qt xs args = Normal args'" and "\<forall>x\<in>set xs. only_marks x"
  shows "get_value cb qt key args' = get_value cb qt key args"
  using assms
proof (induction xs arbitrary: args)
  case (Cons x xs)
  from Cons.prems(2) obtain k where x: "x = MarkRequired k" by (cases x) auto
  with Cons.prems(1) obtain args1 where first: "mark_required cb qt k args = Normal args1"
    and rest: "run_args cb qt xs args1 = Normal args'"
    by (cases "mark_required cb qt k args") auto
  from Cons.IH [OF rest] Cons.prems(2) get_value_mark_required [OF first] show ?case by simp
qed simp

lemma init_connector_marks:
  assumes "run_args (ce_cb env) (ce_qt env) xs params = Normal ps" and "\<forall>x\<in>set xs. only_marks x"
  shows "init_connector env ps = init_connector env params"
  unfolding init_connector_def get_value_marks [OF assms] ..

lemma keys_only_mark: "\<forall>x\<in>set server_keys. only_marks x" "\<forall>x\<in>set fence_keys. only_marks x"
  by (simp_all add: server_keys_def fence_keys_def)

text \<open>The request an action stands for.\<close>

definition action_request :: "'b char_buffer_ops \<Rightarrow> 'b \<Rightarrow> MsgType option" where
  "action_request cb action =
     (if cb_equals_c_str cb action ACTION_OFF then Some FENCE_OFF
      else if cb_equals_c_str cb action ACTION_ON then Some FENCE_ON
      else if cb_equals_c_str cb action ACTION_REBOOT then Some FENCE_REBOOT
      else None)"

lemma fence_action_true:
  assumes "fence_action_impl cb os m node_name client_secret c n = Some (Normal (True, c', n'))"
  shows "is_msg_type (cc_header c') FENCE_SUCCESS"
  using assms by (auto simp: fence_action_impl_def Let_def split: sum.splits option.splits outcome.splits if_splits)

lemma check_connection_true:
  assumes "check_connection os c n = Some (Normal (True, c', n'))"
  shows "is_msg_type (cc_header c') ECHO_REPLY"
proof -
  have *: "is_msg_type (cc_header c') ECHO_REPLY"
    if "map_option (map_outcome (\<lambda>(c, n). (is_msg_type (cc_header c) ECHO_REPLY, c, n))) x = Some (Normal (True, c', n'))"
    for x
  proof (cases x)
    case (Some r)
    with that show ?thesis by (cases r) auto
  qed (use that in simp)
  from assms show ?thesis unfolding check_connection_def by (rule *)
qed

lemma connected_true:
  assumes "connected env request c n = Some (Normal (True, c2, n2))"
  shows "\<exists>c1 n1 c' n'. connect_to_server (ce_net env) (ce_in env) (ce_in6 env) (ce_os env) c n = Normal (c1, n1) \<and>
    request c1 n1 = Some (Normal (True, c', n')) \<and> c2 = disconnect_from_server c' \<and> n2 = n'"
  using assms by (auto simp: connected_def split: outcome.splits option.splits)

lemma with_connector_true:
  assumes "with_connector env params (connected env request) w = Some (Normal (True, w'))"
  shows "\<exists>c c1 n1 c' n'. init_connector env params = Normal (Some c) \<and>
    connect_to_server (ce_net env) (ce_in env) (ce_in6 env) (ce_os env) c (cw_net w) = Normal (c1, n1) \<and>
    request c1 n1 = Some (Normal (True, c', n')) \<and> cw_net w' = n'"
proof -
  from assms obtain c r where c: "init_connector env params = Normal (Some c)"
    and r: "connected env request c (cw_net w) = Some r"
    and out: "map_outcome (\<lambda>(rc, c, n).
      (rc, w\<lparr>cw_net := n, cw_shut := cw_shut w @ cc_closed (destruct_client_connector c)\<rparr>)) r = Normal (True, w')"
    by (auto simp: with_connector_def split: outcome.splits option.splits)
  from out obtain c2 n2 where r2: "r = Normal (True, c2, n2)" "cw_net w' = n2" by (cases r) auto
  from connected_true [OF r [unfolded r2(1)]] c r2(2) show ?thesis by blast
qed

lemma fence_request_true:
  assumes "fence_request env params c n = Some (Normal (True, c', n'))"
  shows "\<exists>action node_name client_secret m.
    get_value (ce_cb env) (ce_qt env) KEY_ACTION params = Inr action \<and>
    get_value (ce_cb env) (ce_qt env) KEY_NODENAME params = Inr node_name \<and>
    get_value (ce_cb env) (ce_qt env) KEY_SECRET params = Inr client_secret \<and>
    action_request (ce_cb env) action = Some m \<and>
    fence_action_impl (ce_cb env) (ce_os env) m node_name client_secret c n = Some (Normal (True, c', n'))"
  using assms
  by (auto simp: fence_request_def action_request_def client_fence_off_def client_fence_on_def
      client_fence_reboot_def split: sum.splits if_splits)

lemma client_fence_action_true:
  assumes "client_fence_action env params w = Some (Normal (True, w'))"
  shows "\<exists>action node_name client_secret m c0 c n c'.
    get_value (ce_cb env) (ce_qt env) KEY_ACTION params = Inr action \<and>
    get_value (ce_cb env) (ce_qt env) KEY_NODENAME params = Inr node_name \<and>
    get_value (ce_cb env) (ce_qt env) KEY_SECRET params = Inr client_secret \<and>
    action_request (ce_cb env) action = Some m \<and> init_connector env params = Normal (Some c0) \<and>
    connect_to_server (ce_net env) (ce_in env) (ce_in6 env) (ce_os env) c0 (cw_net w) = Normal (c, n) \<and>
    fence_action_impl (ce_cb env) (ce_os env) m node_name client_secret c n =
      Some (Normal (True, c', cw_net w')) \<and>
    is_msg_type (cc_header c') FENCE_SUCCESS"
proof -
  from assms obtain ps where marked: "run_args (ce_cb env) (ce_qt env) fence_keys params = Normal ps"
    and run: "with_connector env ps (connected env (fence_request env ps)) w = Some (Normal (True, w'))"
    by (auto simp: client_fence_action_def split: outcome.splits sum.splits)
  from with_connector_true [OF run] obtain c0 c n c' where
    conn: "init_connector env ps = Normal (Some c0)" "connect_to_server (ce_net env) (ce_in env) (ce_in6 env) (ce_os env) c0 (cw_net w) = Normal (c, n)"
    and req: "fence_request env ps c n = Some (Normal (True, c', cw_net w'))" by blast
  from fence_request_true [OF req] conn get_value_marks [OF marked keys_only_mark(2)]
    init_connector_marks [OF marked keys_only_mark(2)]
  show ?thesis using fence_action_true by metis
qed

lemma check_server_connection_true:
  assumes "check_server_connection env params w = Some (Normal (True, w'))"
  shows "\<exists>c0 c n c'. init_connector env params = Normal (Some c0) \<and>
    connect_to_server (ce_net env) (ce_in env) (ce_in6 env) (ce_os env) c0 (cw_net w) = Normal (c, n) \<and>
    check_connection (ce_os env) c n = Some (Normal (True, c', cw_net w')) \<and>
    is_msg_type (cc_header c') ECHO_REPLY"
proof -
  from assms obtain ps where marked: "run_args (ce_cb env) (ce_qt env) server_keys params = Normal ps"
    and run: "with_connector env ps (connected env (check_connection (ce_os env))) w = Some (Normal (True, w'))"
    by (auto simp: check_server_connection_def split: outcome.splits sum.splits)
  from with_connector_true [OF run] init_connector_marks [OF marked keys_only_mark(1)]
  show ?thesis using check_connection_true by metis
qed

lemma with_exit_code_success:
  assumes "with_exit_code r = Some (Normal (FENCING_SUCCESS, w'))"
  shows "r = Some (Normal (True, w'))"
proof -
  from assms obtain x where r: "r = Some x" and x: "map_outcome (\<lambda>(rc, w). (exit_code_of rc, w)) x = Normal (FENCING_SUCCESS, w')"
    by (auto simp: with_exit_code_def)
  from x show ?thesis unfolding r by (cases x) (auto simp: exit_code_of_def split: if_splits)
qed

lemma dispatch_success:
  assumes "dispatch_request env params w = Some (Normal (FENCING_SUCCESS, w'))"
  shows "\<exists>action. get_value (ce_cb env) (ce_qt env) KEY_ACTION params = Inr action \<and>
    check_required (ce_cb env) (ce_qt env) params = Inr () \<and>
    (if action_request (ce_cb env) action \<noteq> None
     then client_fence_action env params w = Some (Normal (True, w'))
     else cb_equals_c_str (ce_cb env) action ACTION_METADATA \<and> w' = output_metadata w \<or>
       (\<exists>a\<in>{ACTION_LIST, ACTION_MONITOR, ACTION_STATUS}. cb_equals_c_str (ce_cb env) action a) \<and>
         check_server_connection env params w = Some (Normal (True, w')) \<or>
       (\<exists>a\<in>{ACTION_START, ACTION_STOP}. cb_equals_c_str (ce_cb env) action a) \<and> w' = w)"
  using assms
  by (auto simp: dispatch_request_def action_request_def Let_def
      split: sum.splits if_splits dest: with_exit_code_success)

lemma client_main_exit_0:
  assumes "client_main env argv w = Some (Exit 0, w')"
  shows "\<exists>ps params s w2.
    client_initialize (ce_cb env) (ce_qt env) (new_arguments (ce_cb env) (ce_qt env)) = Normal ps \<and>
    client_read_parameters (ce_cb env) (ce_qt env) (cw_stdin w) ps = Normal (params, s) \<and>
    dispatch_request env params (w\<lparr>cw_stdin := s\<rparr>) = Some (Normal (FENCING_SUCCESS, w2)) \<and>
    w' = print_out success_line w2"
proof -
  have code: "exit_code_value rc = 0 \<longleftrightarrow> rc = FENCING_SUCCESS" for rc by (cases rc) simp_all
  from assms obtain w2 where run: "client_run env w = Some (Normal (FENCING_SUCCESS, w2))"
    and "w' = print_out success_line w2"
    by (auto simp: client_main_def Let_def code split: option.splits outcome.splits if_splits)
  moreover from run obtain ps params s where
    "client_initialize (ce_cb env) (ce_qt env) (new_arguments (ce_cb env) (ce_qt env)) = Normal ps"
    "client_read_parameters (ce_cb env) (ce_qt env) (cw_stdin w) ps = Normal (params, s)"
    "dispatch_request env params (w\<lparr>cw_stdin := s\<rparr>) = Some (Normal (FENCING_SUCCESS, w2))"
    by (auto simp: client_run_def split: outcome.splits)
  ultimately show ?thesis by blast
qed

text \<open>
  Property C10. What exit code 0 means for each action; the action is the value of the parameter
  \<open>action\<close> that was read from standard input. For \<open>off\<close>, \<open>on\<close> and \<open>reboot\<close>, whatever the
  network and the libraries do, a connection was made, the request that belongs to the action
  was sent on it with the values of \<open>nodename\<close> and \<open>secret\<close>, and the message received is a
  \<open>FENCE_SUCCESS\<close>. For \<open>list\<close>, \<open>monitor\<close> and \<open>status\<close> a connection was made and the message
  received is an \<open>ECHO_REPLY\<close>. Only three more actions end with 0: \<open>metadata\<close>, \<open>start\<close> and
  \<open>stop\<close>, which succeed without a server; no byte has gone over the network then.
\<close>

theorem client_success_is_confirmed:
  assumes main: "client_main env argv w = Some (Exit 0, w')"
    and cb: "ce_cb env = cb" and qt: "ce_qt env = qt" and os: "ce_os env = os"
  shows "\<exists>ps params s action.
    client_initialize cb qt (new_arguments cb qt) = Normal ps \<and>
    client_read_parameters cb qt (cw_stdin w) ps = Normal (params, s) \<and>
    check_required cb qt params = Inr () \<and> get_value cb qt KEY_ACTION params = Inr action \<and>
    (case action_request cb action of
       Some m \<Rightarrow> \<exists>node_name client_secret c0 c n c'.
         get_value cb qt KEY_NODENAME params = Inr node_name \<and>
         get_value cb qt KEY_SECRET params = Inr client_secret \<and>
         init_connector env params = Normal (Some c0) \<and>
         connect_to_server (ce_net env) (ce_in env) (ce_in6 env) os c0 (cw_net w) = Normal (c, n) \<and>
         fence_action_impl cb os m node_name client_secret c n = Some (Normal (True, c', cw_net w')) \<and>
         is_msg_type (cc_header c') FENCE_SUCCESS
     | None \<Rightarrow>
         (\<exists>a\<in>{ACTION_LIST, ACTION_MONITOR, ACTION_STATUS}. cb_equals_c_str cb action a) \<and>
         (\<exists>c0 c n c'. init_connector env params = Normal (Some c0) \<and>
            connect_to_server (ce_net env) (ce_in env) (ce_in6 env) os c0 (cw_net w) = Normal (c, n) \<and>
            check_connection os c n = Some (Normal (True, c', cw_net w')) \<and>
            is_msg_type (cc_header c') ECHO_REPLY) \<or>
         (\<exists>a\<in>{ACTION_METADATA, ACTION_START, ACTION_STOP}. cb_equals_c_str cb action a) \<and>
         cw_net w' = cw_net w)"
proof -
  from client_main_exit_0 [OF main] obtain ps params s w2 where
    read: "client_initialize cb qt (new_arguments cb qt) = Normal ps"
      "client_read_parameters cb qt (cw_stdin w) ps = Normal (params, s)"
    and run: "dispatch_request env params (w\<lparr>cw_stdin := s\<rparr>) = Some (Normal (FENCING_SUCCESS, w2))"
    and w': "w' = print_out success_line w2" by (auto simp: cb qt)
  have net: "cw_net (w\<lparr>cw_stdin := s\<rparr>) = cw_net w" "cw_net w2 = cw_net w'"
    by (simp_all add: w' print_out_def)
  from dispatch_success [OF run] obtain action where
    act: "get_value cb qt KEY_ACTION params = Inr action" "check_required cb qt params = Inr ()"
    and cases: "if action_request cb action \<noteq> None
     then client_fence_action env params (w\<lparr>cw_stdin := s\<rparr>) = Some (Normal (True, w2))
     else cb_equals_c_str cb action ACTION_METADATA \<and> cw_net w2 = cw_net w \<or>
       (\<exists>a\<in>{ACTION_LIST, ACTION_MONITOR, ACTION_STATUS}. cb_equals_c_str cb action a) \<and>
         check_server_connection env params (w\<lparr>cw_stdin := s\<rparr>) = Some (Normal (True, w2)) \<or>
       (\<exists>a\<in>{ACTION_START, ACTION_STOP}. cb_equals_c_str cb action a) \<and> cw_net w2 = cw_net w"
    by (auto simp: cb qt output_metadata_def print_out_def split: if_splits)
  show ?thesis
  proof (cases "action_request cb action")
    case (Some m)
    with cases have "client_fence_action env params (w\<lparr>cw_stdin := s\<rparr>) = Some (Normal (True, w2))" by simp
    from client_fence_action_true [OF this] act Some read show ?thesis
      unfolding net cb qt os by auto
  next
    case None
    with cases act read check_server_connection_true [of env params "w\<lparr>cw_stdin := s\<rparr>" w2]
    show ?thesis unfolding net os by auto
  qed
qed

section \<open>A run of the client\<close>

definition sample_env_with :: "(bytes \<Rightarrow> bytes) \<Rightarrow> (bounded_buffer list_tree, bounded_buffer, peer_state) client_env" where
  "sample_env_with peer = \<lparr>ce_cb = bounded_ops, ce_qt = list_tree_ops,
     ce_net = \<lparr>inet_pton = \<lambda>_ _ a. (1, a), parse_uint16 = \<lambda>_ _. Some 2301\<rparr>,
     ce_in = \<lparr>sin_family = AF_INET, sin_port = [0, 0], sin_addr = [0, 0, 0, 0]\<rparr>,
     ce_in6 = \<lparr>sin6_family = AF_INET6, sin6_port = [0, 0], sin6_flowinfo = 0,
               sin6_addr = replicate 16 0, sin6_scope_id = 0\<rparr>,
     ce_memory = replicate CLIENT_IO_BUFFER_SIZE 0, ce_os = peer_os peer\<rparr>"

abbreviation sample_client_env :: "(bounded_buffer list_tree, bounded_buffer, peer_state) client_env" where
  "sample_client_env \<equiv> sample_env_with (\<lambda>_. [0, 0xA0, 0, 4])"

definition sample_stdin :: istream where
  "sample_stdin = \<lparr>input = concat (map (\<lambda>s. ascii s @ [NEWLINE])
       [''action=off'', ''protocol=IPV4'', ''ip_address=1'', ''tcp_port=2'', ''nodename=n1'', ''secret=s'']),
     source_fails = False, eofbit = False, failbit = False, badbit = False\<rparr>"

definition sample_world :: "peer_state client_world" where
  "sample_world = \<lparr>cw_net = sample_peer, cw_stdin = sample_stdin, cw_stdout = [], cw_stderr = [], cw_shut = []\<rparr>"

definition sample_values_ok :: "(bounded_buffer list_tree, bounded_buffer) arguments \<Rightarrow> bool" where
  "sample_values_ok params \<longleftrightarrow>
     check_required bounded_ops list_tree_ops params = Inr () \<and>
     get_value bounded_ops list_tree_ops KEY_ACTION params = Inr (24, ascii ''off'') \<and>
     get_value bounded_ops list_tree_ops KEY_NODENAME params = Inr (255, ascii ''n1'') \<and>
     get_value bounded_ops list_tree_ops KEY_SECRET params = Inr (64, ascii ''s'') \<and>
     get_value bounded_ops list_tree_ops KEY_PROTOCOL params = Inr (10, ascii ''IPV4'') \<and>
     get_value bounded_ops list_tree_ops KEY_IP_ADDRESS params = Inr (60, ascii ''1'') \<and>
     get_value bounded_ops list_tree_ops KEY_TCP_PORT params = Inr (6, ascii ''2'')"

lemma sample_parameters:
  "\<exists>ps params s marked. client_initialize bounded_ops list_tree_ops (new_arguments bounded_ops list_tree_ops) = Normal ps \<and>
    client_read_parameters bounded_ops list_tree_ops sample_stdin ps = Normal (params, s) \<and>
    sample_values_ok params \<and>
    run_args bounded_ops list_tree_ops fence_keys params = Normal marked \<and> sample_values_ok marked"
proof -
  have "case client_initialize bounded_ops list_tree_ops (new_arguments bounded_ops list_tree_ops) of
      Normal ps \<Rightarrow>
        (case client_read_parameters bounded_ops list_tree_ops sample_stdin ps of
           Normal (params, s) \<Rightarrow> sample_values_ok params \<and>
             (case run_args bounded_ops list_tree_ops fence_keys params of
                Normal marked \<Rightarrow> sample_values_ok marked | _ \<Rightarrow> False)
         | _ \<Rightarrow> False)
    | _ \<Rightarrow> False"
    by code_simp
  then show ?thesis by (auto split: outcome.splits prod.splits)
qed

lemma sample_connected:
  "cc_address c = \<lparr>sa_domain = AF_INET, sa_address = a, sa_length = l\<rparr> \<Longrightarrow>
   connect_to_server (ce_net (sample_env_with peer)) (ce_in (sample_env_with peer)) (ce_in6 (sample_env_with peer)) (ce_os (sample_env_with peer)) c n =
   Normal (c\<lparr>cc_socket := 3\<rparr>, n)"
  by (simp add: connect_to_server_def sample_env_with_def peer_os_def local_address_def check_inet_pton_rc_def Let_def)

lemma sample_connector_made:
  assumes "sample_values_ok params"
  shows "\<exists>c a l. init_connector (sample_env_with peer) params = Normal (Some c) \<and>
    cc_address c = \<lparr>sa_domain = AF_INET, sa_address = a, sa_length = l\<rparr> \<and>
    length (cc_io_buffer c) = CLIENT_IO_BUFFER_SIZE"
proof -
  have "cb_equals_c_str bounded_ops (10, ascii ''IPV4'') PROTO_IPV4"
    "\<not> cb_equals_c_str bounded_ops (10, ascii ''IPV4'') PROTO_IPV6" by code_simp+
  with assms show ?thesis
    by (auto simp: init_connector_def sample_values_ok_def construct_client_connector_def sample_env_with_def
        init_socket_address_def parse_ipv4_def parse_port_number_def check_inet_pton_rc_def Let_def)
qed

text \<open>The request that these parameters lead to; a peer that answers it with \<open>FENCE_SUCCESS\<close>.\<close>

definition sample_request :: bytes where
  "sample_request = request_bytes FENCE_OFF (fence_params (c_string (ascii ''n1'')) (c_string (ascii ''s'')))"

lemma sample_fence_request:
  assumes vals: "sample_values_ok params" and c: "cc_socket c = 3" "length (cc_io_buffer c) = CLIENT_IO_BUFFER_SIZE"
    and peer: "peer sample_request = [0, 0xA0, 0, 4]"
  shows "\<exists>c' n'. fence_request (sample_env_with peer) params c sample_peer = Some (Normal (True, c', n'))"
proof -
  let ?node = "(255, ascii ''n1'') :: bounded_buffer" and ?secret = "(64, ascii ''s'') :: bounded_buffer"
  have fit: "params_fit bounded_ops ?node ?secret"
    by (simp add: params_fit_def bounded_ops_def ascii_def c_string_def bounds_simps)
  have off: "cb_equals_c_str bounded_ops (24, ascii ''off'') ACTION_OFF" by code_simp
  have fd: "0 \<le> cc_socket c" using c by simp
  from peer_client.fence_exchange [OF fd c(2) fit refl,
      where peer = peer and n = sample_peer and m = FENCE_OFF]
  obtain c' n' where "fence_action_impl bounded_ops (peer_os peer) FENCE_OFF ?node ?secret c sample_peer =
      Some (Normal (True, c', n'))"
    by (auto simp: peer_incoming_def sample_peer_def sample_reply fence_answer_def bounds_simps
        peer [unfolded sample_request_def])
  with off vals show ?thesis
    by (simp add: fence_request_def sample_values_ok_def client_fence_off_def sample_env_with_def)
qed

lemma sample_main:
  assumes peer: "peer sample_request = [0, 0xA0, 0, 4]"
  shows "\<exists>w'. client_main (sample_env_with peer) [] sample_world = Some (Exit 0, w')"
proof -
  from sample_parameters obtain ps params s marked where
    read: "client_initialize bounded_ops list_tree_ops (new_arguments bounded_ops list_tree_ops) = Normal ps"
      "client_read_parameters bounded_ops list_tree_ops sample_stdin ps = Normal (params, s)"
    and vals: "sample_values_ok params" "sample_values_ok marked"
    and marked: "run_args bounded_ops list_tree_ops fence_keys params = Normal marked" by blast
  from sample_connector_made [OF vals(2)] obtain c a l where c: "init_connector (sample_env_with peer) marked = Normal (Some c)"
    "cc_address c = \<lparr>sa_domain = AF_INET, sa_address = a, sa_length = l\<rparr>"
    "length (cc_io_buffer c) = CLIENT_IO_BUFFER_SIZE" by blast
  from sample_fence_request [OF vals(2), of "c\<lparr>cc_socket := 3\<rparr>" peer] c(3) peer obtain c' n' where
    "fence_request (sample_env_with peer) marked (c\<lparr>cc_socket := 3\<rparr>) sample_peer = Some (Normal (True, c', n'))" by auto
  then have conn: "connected (sample_env_with peer) (fence_request (sample_env_with peer) marked) c sample_peer =
      Some (Normal (True, disconnect_from_server c', n'))"
    by (simp add: connected_def sample_connected [OF c(2)])
  have env: "ce_cb (sample_env_with peer) = bounded_ops" "ce_qt (sample_env_with peer) = list_tree_ops"
    by (simp_all add: sample_env_with_def)
  let ?w = "sample_world\<lparr>cw_stdin := s\<rparr>"
  have net: "cw_net ?w = sample_peer" "cw_stdin sample_world = sample_stdin" by (simp_all add: sample_world_def)
  obtain w2 where fence: "client_fence_action (sample_env_with peer) params ?w = Some (Normal (True, w2))"
    using vals(2) marked c(1) conn
    by (simp add: client_fence_action_def env with_connector_def net sample_values_ok_def)
  have off: "cb_equals_c_str bounded_ops (24, ascii ''off'') ACTION_OFF" by code_simp
  have "client_run (sample_env_with peer) sample_world = Some (Normal (FENCING_SUCCESS, w2))"
    using vals(1) off
    by (simp add: client_run_def dispatch_request_def env net read fence with_exit_code_def exit_code_of_def
        sample_values_ok_def)
  then show ?thesis by (simp add: client_main_def)
qed

theorem client_success_is_confirmed_witness:
  "\<exists>c c' n n'. fence_action_impl bounded_ops (ce_os sample_client_env) FENCE_OFF (255, ascii ''n1'') (64, ascii ''s'') c n =
      Some (Normal (True, c', n')) \<and> is_msg_type (cc_header c') FENCE_SUCCESS"
proof -
  from sample_main [of "\<lambda>_. [0, 0xA0, 0, 4]"] obtain w' where main: "client_main sample_client_env [] sample_world = Some (Exit 0, w')" by blast
  have env: "ce_cb sample_client_env = bounded_ops" "ce_qt sample_client_env = list_tree_ops"
    by (simp_all add: sample_env_with_def)
  have off: "action_request bounded_ops (24, ascii ''off'') = Some FENCE_OFF" by code_simp
  have stdin: "cw_stdin sample_world = sample_stdin" by (simp add: sample_world_def)
  from sample_parameters client_success_is_confirmed [OF main env refl]
  show ?thesis by (auto simp: stdin sample_values_ok_def off) blast
qed

end
