(* ===== verification/Server_Run.thy ===== *)
theory Server_Run
  imports Server_System Fence_Client
begin

text \<open>
  The life of the server process (server_main.cpp, Server.cpp, the set-up in
  ServerConnector.cpp, socket_setup.cpp): parameters, plugin, connector, worker pool, the
  selector loop, and the way back through the destructors and the handlers. The loop with the
  workers beside it is the subject of Server_System; here it is a parameter.
\<close>

section \<open>Log prefixes\<close>

definition LOGPFX_WARNING :: bytes where "LOGPFX_WARNING = ascii ''[ WARN  ] ''"
definition LOGPFX_ERROR :: bytes where "LOGPFX_ERROR = ascii ''[ ERROR ] ''"

section \<open>Opening the sockets\<close>

definition MAX_CONNECTION_BACKLOG :: nat where "MAX_CONNECTION_BACKLOG = 24"

text \<open>What the system calls return; \<open>sc_pipe\<close> is \<open>None\<close> when \<open>pipe\<close> fails.\<close>

record socket_calls =
  sc_socket :: "domain \<Rightarrow> int"
  sc_no_linger :: "int \<Rightarrow> int"
  sc_bind :: "int \<Rightarrow> sockaddr option \<Rightarrow> nat \<Rightarrow> int"
  sc_nonblock :: "int \<Rightarrow> int"
  sc_listen :: "int \<Rightarrow> nat \<Rightarrow> int"
  sc_pipe :: "(int \<times> int) option"

text \<open>The warning that goes to standard error. The descriptor is not negative here.\<close>

definition set_no_linger :: "socket_calls \<Rightarrow> int \<Rightarrow> bytes" where
  "set_no_linger calls fd =
     (if sc_no_linger calls fd \<noteq> 0
      then LOGPFX_WARNING @ ascii ''Warning: Clearing the SO_LINGER option for socket with socket_fd = '' @
        decimal (nat fd) @ ascii '' failed'' @ [NEWLINE]
      else [])"

definition connector_init ::
  "socket_calls \<Rightarrow> socket_address \<Rightarrow> 'b connector \<Rightarrow> bytes \<Rightarrow> (cpp_exception, 'b connector \<times> bytes) outcome" where
  "connector_init calls sa cn err =
     (let fd = sc_socket calls (server_domain cn); cn = cn\<lparr>server_fd := fd\<rparr> in
      if fd < 0 then Raised (InetException SOCKET_ERROR) (cn, err)
      else
        (let err = err @ set_no_linger calls fd in
         if sc_bind calls fd (sa_address sa) (sa_length sa) \<noteq> 0 then Raised (InetException BIND_FAILED) (cn, err)
         else if sc_nonblock calls fd \<noteq> 0 then Raised (OsException NBLK_IO_ERROR) (cn, err)
         else if sc_listen calls fd MAX_CONNECTION_BACKLOG \<noteq> 0 then Raised (InetException LISTEN_ERROR) (cn, err)
         else (case sc_pipe calls of
                 None \<Rightarrow> Raised (OsException IPC_ERROR) (cn, err)
               | Some (rfd, wfd) \<Rightarrow>
                   (let cn = cn\<lparr>trigger_read_fd := rfd, trigger_write_fd := wfd\<rparr> in
                    if sc_nonblock calls rfd \<noteq> 0 \<or> sc_nonblock calls wfd \<noteq> 0
                    then Raised (OsException NBLK_IO_ERROR) (cn, err)
                    else Normal (cn, err)))))"

definition destruct_connector :: "'b connector \<Rightarrow> 'b connector" where
  "destruct_connector cn =
     (case close_fd (server_fd cn) (closed_fds cn) of
        (fd, closed) \<Rightarrow> cn\<lparr>server_fd := fd, closed_fds := closed\<rparr>)"

section \<open>Running the connector\<close>

text \<open>
  \<open>se_loop\<close> is the selector loop together with the workers that run beside it: \<open>None\<close> if it
  does not end, otherwise how it ends, the connector and the state of the plugin. \<open>se_pool\<close>
  is the exception that making or starting the worker threads throws, if any.
\<close>

record ('t, 'b, 'p) server_env =
  se_cb :: "'b char_buffer_ops"
  se_qt :: "('t, 'b) qtree_ops"
  se_net :: net_lib
  se_in :: sockaddr_in
  se_in6 :: sockaddr_in6
  se_memory :: bytes
  se_plugins :: "'p plugin_env"
  se_calls :: socket_calls
  se_pool :: "cpp_exception option"
  se_loop :: "fence_server \<Rightarrow> 'p \<Rightarrow> 'b connector \<Rightarrow> ((cpp_exception, 'b connector) outcome \<times> 'p) option"
  se_library_std :: bool
  se_logic_text :: bytes

text \<open>\<open>cleanup\<close> runs in the handler, before the exception goes on, and after a normal end.\<close>

definition cleaned_up ::
  "'b char_buffer_ops \<Rightarrow> (cpp_exception, 'b connector) outcome \<Rightarrow> (cpp_exception, 'b connector) outcome option" where
  "cleaned_up cb r =
     (case r of
        Normal cn \<Rightarrow> map_option Normal (cleanup cb cn)
      | Raised e cn \<Rightarrow> map_option (Raised e) (cleanup cb cn)
      | Undefined_Behaviour \<Rightarrow> Some Undefined_Behaviour)"

definition connector_run ::
  "('t, 'b, 'p) server_env \<Rightarrow> socket_address \<Rightarrow> fence_server \<Rightarrow> 'p \<Rightarrow> 'b connector \<Rightarrow> bytes \<Rightarrow>
   ((cpp_exception, 'b connector) outcome \<times> 'p \<times> bytes) option" where
  "connector_run env sa srv p cn err =
     (case connector_init (se_calls env) sa cn err of
        Undefined_Behaviour \<Rightarrow> Some (Undefined_Behaviour, p, err)
      | Raised e (cn, err) \<Rightarrow> map_option (\<lambda>r. (r, p, err)) (cleaned_up (se_cb env) (Raised e cn))
      | Normal (cn, err) \<Rightarrow>
          (case se_loop env srv p cn of
             None \<Rightarrow> None
           | Some (r, p) \<Rightarrow> map_option (\<lambda>r. (r, p, err)) (cleaned_up (se_cb env) r)))"

section \<open>The body of Server::run\<close>

definition server_parameters ::
  "('t, 'b, 'p) server_env \<Rightarrow> bytes list \<Rightarrow> (cpp_exception, ('b \<times> 'b \<times> 'b \<times> 'b) option) outcome" where
  "server_parameters env argv =
     (let cb = se_cb env; qt = se_qt env in
      case bind_outcome (server_initialize cb qt (new_arguments cb qt)) (server_read_parameters cb qt argv) of
        Raised e _ \<Rightarrow> Raised e None
      | Undefined_Behaviour \<Rightarrow> Undefined_Behaviour
      | Normal params \<Rightarrow>
          (case check_required cb qt params of
             Inl e \<Rightarrow> Raised e None
           | Inr _ \<Rightarrow>
               (case get_value cb qt KEY_PROTOCOL params of
                  Inl e \<Rightarrow> Raised e None
                | Inr protocol \<Rightarrow>
                    (case get_value cb qt KEY_BIND_ADDRESS params of
                       Inl e \<Rightarrow> Raised e None
                     | Inr bind_address \<Rightarrow>
                         (case get_value cb qt KEY_TCP_PORT params of
                            Inl e \<Rightarrow> Raised e None
                          | Inr port \<Rightarrow>
                              (case get_value cb qt KEY_FENCE_MODULE params of
                                 Inl e \<Rightarrow> Raised e None
                               | Inr fence_module \<Rightarrow>
                                   Normal (Some (protocol, bind_address, port, fence_module))))))))"

text \<open>
  A destructor at the end of a scope, also when an exception leaves it; an exception out of it
  would end the process, which no destructor here does.
\<close>

fun at_scope_end ::
  "('s \<Rightarrow> (cpp_exception, 's) outcome) \<Rightarrow> (cpp_exception, 's) outcome \<Rightarrow> (cpp_exception, 's) outcome" where
  "at_scope_end d (Normal s) = d s"
| "at_scope_end d (Raised e s) =
     (case d s of Normal s \<Rightarrow> Raised e s | _ \<Rightarrow> Undefined_Behaviour)"
| "at_scope_end d Undefined_Behaviour = Undefined_Behaviour"

text \<open>The connector, the pool and the run, with the plugin loaded.\<close>

definition serve_requests ::
  "('t, 'b, 'p) server_env \<Rightarrow> signal_handler \<Rightarrow> 'b \<Rightarrow> 'b \<Rightarrow> 'b \<Rightarrow> fence_server \<Rightarrow> 'p \<Rightarrow> bytes \<Rightarrow>
   (cpp_exception, fence_server \<times> 'p \<times> bytes) outcome option" where
  "serve_requests env sh protocol bind_address port srv p err =
     (case init_socket_address (se_cb env) (se_net env) (se_in env) (se_in6 env) protocol bind_address port
            \<lparr>sa_domain = AF_INET6, sa_address = None, sa_length = 0\<rparr> of
        Raised e _ \<Rightarrow> Some (Raised e (srv, p, err))
      | Undefined_Behaviour \<Rightarrow> Some Undefined_Behaviour
      | Normal sa \<Rightarrow>
          (let cn = new_connector (se_cb env) (se_memory env) (sa_domain sa) sh in
           case se_pool env of
             Some e \<Rightarrow> Some (Raised e (srv, p, err))
           | None \<Rightarrow>
               map_option (\<lambda>(r, p, err). map_outcome (\<lambda>_. (srv, p, err)) r)
                 (connector_run env sa srv p cn err)))"

definition server_try ::
  "('t, 'b, 'p) server_env \<Rightarrow> signal_handler \<Rightarrow> bytes list \<Rightarrow> fence_server \<Rightarrow> 'p \<Rightarrow>
   (cpp_exception, fence_server \<times> 'p \<times> bytes) outcome option" where
  "server_try env sh argv srv p =
     (case server_parameters env argv of
        Raised e _ \<Rightarrow> Some (Raised e (srv, p, []))
      | Normal (Some (protocol, bind_address, port, fence_module)) \<Rightarrow>
          (case construct_plugin_mgr (se_plugins env) (c_string (cb_c_str (se_cb env) fence_module)) srv p of
             Raised e (_, srv, p) \<Rightarrow> Some (Raised e (srv, p, []))
           | Normal (Some mgr, srv, p) \<Rightarrow>
               map_option
                 (at_scope_end (\<lambda>(srv, p, err).
                    map_outcome (\<lambda>(srv, p). (srv, p, err)) (destruct_plugin_mgr (se_plugins env) mgr srv p)))
                 (serve_requests env sh protocol bind_address port srv p [])
           | _ \<Rightarrow> Some Undefined_Behaviour)
      | _ \<Rightarrow> Some Undefined_Behaviour)"

section \<open>The handlers and the process\<close>

definition EXIT_SUCCESS :: nat where "EXIT_SUCCESS = 0"
definition EXIT_FAILURE :: nat where "EXIT_FAILURE = 1"

text \<open>
  The handlers of \<open>Server::run\<close>; the last one takes every exception derived from
  \<open>std::exception\<close>. \<open>se_library_std\<close> says whether those of the two libraries are. An
  exception that none takes leaves a \<open>noexcept\<close> function.
\<close>

definition unhandled_message :: bytes where
  "unhandled_message = LOGPFX_ERROR @
     ascii ''Error: Unhandled exception caught in class Server, method run: terminating'' @ [NEWLINE]"

definition server_handler :: "('t, 'b, 'p) server_env \<Rightarrow> cpp_exception \<Rightarrow> bytes option" where
  "server_handler env e =
     (case e of
        BadAlloc \<Rightarrow> Some (LOGPFX_ERROR @ ascii ''Initialization failed: Out of memory'' @ [NEWLINE])
      | ArgumentsException m \<Rightarrow>
          Some (LOGPFX_ERROR @ ascii ''Server initialization failed due to incorrect arguments'' @ [NEWLINE] @
            c_string m @ [NEWLINE, NEWLINE])
      | OsException i \<Rightarrow> Some (LOGPFX_ERROR @ ascii ''System error: '' @ ascii (os_error_description i) @ [NEWLINE])
      | InetException i \<Rightarrow> Some (LOGPFX_ERROR @ ascii ''Network server intialization failed: '' @
          ascii (inet_error_description i) @ [NEWLINE])
      | LogicError \<Rightarrow> Some (LOGPFX_ERROR @
          ascii ''Error: Logic error caught by class Server, method run: '' @ se_logic_text env @ [NEWLINE])
      | RangeException \<Rightarrow> if se_library_std env then Some unhandled_message else None
      | DuplicateInsertException \<Rightarrow> if se_library_std env then Some unhandled_message else None
      | _ \<Rightarrow> Some unhandled_message)"

definition server_run ::
  "('t, 'b, 'p) server_env \<Rightarrow> signal_handler \<Rightarrow> bytes list \<Rightarrow> fence_server \<Rightarrow> 'p \<Rightarrow>
   (process_end \<times> bytes \<times> 'p) option" where
  "server_run env sh argv srv p =
     map_option (\<lambda>r. case r of
          Undefined_Behaviour \<Rightarrow> (Undefined_End, [], p)
        | Normal (_, p, err) \<Rightarrow> (Exit EXIT_SUCCESS, err, p)
        | Raised e (_, p, err) \<Rightarrow>
            (case server_handler env e of
               Some message \<Rightarrow> (Exit EXIT_FAILURE, err @ message, p)
             | None \<Rightarrow> (Terminate, err, p)))
       (server_try env sh argv srv p)"

text \<open>\<open>main\<close>: only \<open>std::bad_alloc\<close> is caught around the signal handler's constructor.\<close>

definition server_main ::
  "('t, 'b, 'p) server_env \<Rightarrow> int list \<Rightarrow> int list \<Rightarrow> bytes list \<Rightarrow> 'p \<Rightarrow> (process_end \<times> bytes \<times> 'p) option" where
  "server_main env mask_rcs action_rcs argv p =
     (case get_instance False \<lparr>signal_flag = False, wakeup_fd = FD_NONE\<rparr> mask_rcs action_rcs of
        Inl e \<Rightarrow>
          if e = BadAlloc
          then Some (Exit EXIT_FAILURE, LOGPFX_ERROR @ ascii ''Initialization failed: Out of memory'' @ [NEWLINE], p)
          else Some (Terminate, [], p)
      | Inr (_, sh) \<Rightarrow> server_run env sh argv new_fence_server p)"

section \<open>What holds of a run\<close>

text \<open>
  A successful \<open>init\<close>, with the wakeup descriptor the selector loop sets first, gives the
  connector that the system of Server_System starts from.
\<close>

lemma connector_init_started:
  assumes "connector_init calls sa (new_connector cb memory d sh) err = Normal (cn, err')"
  shows "\<exists>sfd rfd wfd. sc_pipe calls = Some (rfd, wfd) \<and> 0 \<le> sfd \<and>
    cn\<lparr>stop_signal := enable_wakeup_fd (stop_signal cn) (trigger_write_fd cn)\<rparr> =
      started_connector cb memory d sh sfd rfd wfd"
  using assms
  by (auto simp: connector_init_def started_connector_def new_connector_def Let_def
      split: if_splits option.splits)

lemma connector_init_error:
  assumes "connector_init calls sa cn err = Raised e (cn', err')"
  shows "e \<in> {InetException SOCKET_ERROR, InetException BIND_FAILED, InetException LISTEN_ERROR,
      OsException NBLK_IO_ERROR, OsException IPC_ERROR}" (is ?error)
    and "e = InetException SOCKET_ERROR \<longleftrightarrow> server_fd cn' < 0" (is ?socket)
  using assms by (auto simp: connector_init_def Let_def split: if_splits option.splits)

text \<open>However the run ends, a plugin that was made is destroyed and unloaded.\<close>

lemma destruct_plugin_mgr_unloads:
  assumes "destruct_plugin_mgr penv \<lparr>plugin_handle = Some handle, have_plugin_init = i\<rparr> srv p = Normal (srv', p')"
  shows "plugin_functions srv' = new_function_table"
  using assms
  by (auto simp: destruct_plugin_mgr_def unload_plugin_def new_function_table_def
      split: option.splits if_splits prod.splits)

lemma at_scope_end_state:
  assumes "outcome_state (at_scope_end d r) = Some s'"
  shows "\<exists>s. outcome_state r = Some s \<and> outcome_state (d s) = Some s'"
  using assms by (cases r) (auto split: outcome.splits)

lemma destruct_plugin_mgr_no_exception: "destruct_plugin_mgr penv mgr srv p \<noteq> Raised e s"
  by (auto simp: destruct_plugin_mgr_def split: option.splits if_splits prod.splits)

lemma server_try_unloads:
  assumes params: "server_parameters env argv = Normal (Some (protocol, bind_address, port, fence_module))"
    and mgr: "construct_plugin_mgr (se_plugins env) (c_string (cb_c_str (se_cb env) fence_module)) srv p =
      Normal (mgr, srv1, p1)"
    and run: "server_try env sh argv srv p = Some r" "outcome_state r = Some (srv', p', err)"
  shows "plugin_functions srv' = new_function_table"
proof -
  from construct_plugin_mgr_complete [OF mgr] obtain handle where
    m: "mgr = Some \<lparr>plugin_handle = Some handle, have_plugin_init = True\<rparr>" by blast
  let ?mgr = "\<lparr>plugin_handle = Some handle, have_plugin_init = True\<rparr>"
  let ?d = "\<lambda>(srv, p, err). map_outcome (\<lambda>(srv, p). (srv, p, err)) (destruct_plugin_mgr (se_plugins env) ?mgr srv p)"
  from run(1) params mgr m obtain r0 where "r = at_scope_end ?d r0" by (auto simp: server_try_def)
  with run(2) at_scope_end_state [of ?d r0 "(srv', p', err)"] obtain s where
    "outcome_state (?d s) = Some (srv', p', err)" by auto
  then obtain srv2 p2 err2 where
    d: "outcome_state (map_outcome (\<lambda>(srv, p). (srv, p, err2)) (destruct_plugin_mgr (se_plugins env) ?mgr srv2 p2)) =
      Some (srv', p', err)" by (cases s) auto
  show ?thesis
  proof (cases "destruct_plugin_mgr (se_plugins env) ?mgr srv2 p2")
    case (Normal t)
    with d have "destruct_plugin_mgr (se_plugins env) ?mgr srv2 p2 = Normal (srv', snd t)" by (cases t) auto
    then show ?thesis by (rule destruct_plugin_mgr_unloads)
  next
    case (Raised e t)
    with destruct_plugin_mgr_no_exception [of "se_plugins env" ?mgr srv2 p2 e t] show ?thesis by simp
  next
    case Undefined_Behaviour
    with d show ?thesis by simp
  qed
qed

text \<open>
  The exit code of the server, and the two ways out that no handler covers: a signal handler
  that cannot be installed ends the process by \<open>std::terminate\<close>.
\<close>

lemma server_run_success:
  "(\<exists>err p'. server_run env sh argv srv p = Some (Exit EXIT_SUCCESS, err, p')) \<longleftrightarrow>
   (\<exists>s. server_try env sh argv srv p = Some (Normal s))"
proof (cases "server_try env sh argv srv p")
  case (Some r)
  then show ?thesis
  proof (cases r)
    case (Raised e s)
    with Some show ?thesis
      by (cases s; cases "server_handler env e") (simp_all add: server_run_def EXIT_SUCCESS_def EXIT_FAILURE_def)
  qed (auto simp: server_run_def)
qed (simp add: server_run_def)

lemma signal_setup_failure_terminates:
  assumes "(\<exists>rc \<in> set mask_rcs. rc \<noteq> 0) \<or> (\<exists>rc \<in> set action_rcs. rc \<noteq> 0)"
  shows "server_main env mask_rcs action_rcs argv p = Some (Terminate, [], p)"
  using assms by (auto simp: server_main_def get_instance_def construct_signal_handler_def Let_def)

end
