(* ===== verification/Fence_Log.thy ===== *)
theory Fence_Log
  imports Server_Run
begin

text \<open>
  The log of the fencing actions (Server.cpp): each action is reported on standard output
  before the plugin is called and again with its result. Both reports hold \<open>stdio_lock\<close>, so a
  report is one step on what has been written, which is a byte string here.
\<close>

section \<open>The reports\<close>

definition LOGPFX_FENCE :: bytes where "LOGPFX_FENCE = ascii ''[ FENCE ] ''"

definition LABEL_OFF :: bytes where "LABEL_OFF = ascii ''OFF''"
definition LABEL_ON :: bytes where "LABEL_ON = ascii ''ON''"
definition LABEL_REBOOT :: bytes where "LABEL_REBOOT = ascii ''REBOOT''"

definition report_fence_action :: "'b char_buffer_ops \<Rightarrow> bytes \<Rightarrow> 'b \<Rightarrow> bytes \<Rightarrow> bytes" where
  "report_fence_action cb action node_name out =
     out @ LOGPFX_FENCE @ ascii ''Executing fencing action '' @ QUOTE @ action @ QUOTE @
     ascii '' affecting node '' @ QUOTE @ c_string (cb_c_str cb node_name) @ QUOTE @ [NEWLINE]"

definition report_fence_action_result ::
  "'b char_buffer_ops \<Rightarrow> bytes \<Rightarrow> 'b \<Rightarrow> bool \<Rightarrow> bytes \<Rightarrow> bytes" where
  "report_fence_action_result cb action node_name success_flag out =
     out @ LOGPFX_FENCE @ ascii ''Fencing action '' @ QUOTE @ action @ QUOTE @
     ascii '' affecting node '' @ QUOTE @ c_string (cb_c_str cb node_name) @ QUOTE @ ascii '' '' @
     (if success_flag then ascii ''SUCCEEDED'' else ascii ''FAILED'') @ [NEWLINE]"

text \<open>The three actions with their reports; the plugin call between them is that of Fence_Server.\<close>

definition fence_and_report ::
  "'b char_buffer_ops \<Rightarrow> bytes \<Rightarrow> 'b \<Rightarrow> ('p \<Rightarrow> (bool \<times> 'p) option) \<Rightarrow> 'p \<Rightarrow> bytes \<Rightarrow>
   (bool \<times> 'p \<times> bytes) option" where
  "fence_and_report cb label node_name action p out =
     (let out = report_fence_action cb label node_name out in
      case action p of
        None \<Rightarrow> None
      | Some (success_flag, p) \<Rightarrow>
          Some (success_flag, p, report_fence_action_result cb label node_name success_flag out))"

definition reported_fence_off ::
  "'b char_buffer_ops \<Rightarrow> 'p plugin_env \<Rightarrow> fence_server \<Rightarrow> 'b \<Rightarrow> 'b \<Rightarrow> 'p \<Rightarrow> bytes \<Rightarrow>
   (bool \<times> 'p \<times> bytes) option" where
  "reported_fence_off cb env srv node_name client_secret =
     fence_and_report cb LABEL_OFF node_name (fence_action_off cb env srv node_name client_secret)"

definition reported_fence_on ::
  "'b char_buffer_ops \<Rightarrow> 'p plugin_env \<Rightarrow> fence_server \<Rightarrow> 'b \<Rightarrow> 'b \<Rightarrow> 'p \<Rightarrow> bytes \<Rightarrow>
   (bool \<times> 'p \<times> bytes) option" where
  "reported_fence_on cb env srv node_name client_secret =
     fence_and_report cb LABEL_ON node_name (fence_action_on cb env srv node_name client_secret)"

definition reported_fence_reboot ::
  "'b char_buffer_ops \<Rightarrow> 'p plugin_env \<Rightarrow> fence_server \<Rightarrow> 'b \<Rightarrow> 'b \<Rightarrow> 'p \<Rightarrow> bytes \<Rightarrow>
   (bool \<times> 'p \<times> bytes) option" where
  "reported_fence_reboot cb env srv node_name client_secret =
     fence_and_report cb LABEL_REBOOT node_name (fence_action_reboot cb env srv node_name client_secret)"

section \<open>A log of reports\<close>

text \<open>
  What the threads of the server write is any sequence of reports, since those of different
  workers come in any order.
\<close>

datatype 'b fence_report = Executing bytes 'b | Finished bytes 'b bool

fun write_report :: "'b char_buffer_ops \<Rightarrow> 'b fence_report \<Rightarrow> bytes \<Rightarrow> bytes" where
  "write_report cb (Executing label node) out = report_fence_action cb label node out"
| "write_report cb (Finished label node ok) out = report_fence_action_result cb label node ok out"

definition write_reports :: "'b char_buffer_ops \<Rightarrow> 'b fence_report list \<Rightarrow> bytes \<Rightarrow> bytes" where
  "write_reports cb reports out = fold (write_report cb) reports out"

text \<open>What a reader of the log is meant to learn from a report.\<close>

definition node_text :: "'b char_buffer_ops \<Rightarrow> 'b \<Rightarrow> bytes" where
  "node_text cb node = c_string (cb_c_str cb node)"

fun report_label :: "'b fence_report \<Rightarrow> bytes" where
  "report_label (Executing label node) = label"
| "report_label (Finished label node ok) = label"

fun report_node :: "'b fence_report \<Rightarrow> 'b" where
  "report_node (Executing label node) = node"
| "report_node (Finished label node ok) = node"

definition on_one_line :: "'b char_buffer_ops \<Rightarrow> 'b fence_report \<Rightarrow> bool" where
  "on_one_line cb r \<longleftrightarrow> report_label r \<in> {LABEL_OFF, LABEL_ON, LABEL_REBOOT} \<and>
     NEWLINE \<notin> set (node_text cb (report_node r))"

fun report_line :: "'b char_buffer_ops \<Rightarrow> 'b fence_report \<Rightarrow> bytes" where
  "report_line cb (Executing label node) =
     LOGPFX_FENCE @ ascii ''Executing fencing action '' @ QUOTE @ label @ QUOTE @
     ascii '' affecting node '' @ QUOTE @ node_text cb node @ QUOTE"
| "report_line cb (Finished label node ok) =
     LOGPFX_FENCE @ ascii ''Fencing action '' @ QUOTE @ label @ QUOTE @
     ascii '' affecting node '' @ QUOTE @ node_text cb node @ QUOTE @ ascii '' '' @
     (if ok then ascii ''SUCCEEDED'' else ascii ''FAILED'')"

lemma write_report_line: "write_report cb r out = out @ report_line cb r @ [NEWLINE]"
  by (cases r) (simp_all add: report_fence_action_def report_fence_action_result_def node_text_def)

lemma write_reports_lines:
  "write_reports cb rs out = out @ concat (map (\<lambda>r. report_line cb r @ [NEWLINE]) rs)"
  by (induction rs arbitrary: out) (simp_all add: write_reports_def write_report_line)

lemmas log_texts = ascii_def QUOTE_def LOGPFX_FENCE_def LABEL_OFF_def LABEL_ON_def
  LABEL_REBOOT_def

lemma report_line_one_line: "on_one_line cb r \<Longrightarrow> NEWLINE \<notin> set (report_line cb r)"
  by (cases r) (auto simp: on_one_line_def log_texts)

text \<open>An action writes its two reports, around the call of the plugin.\<close>

lemma fence_and_report_writes:
  "fence_and_report cb label node action p out =
     map_option (\<lambda>(ok, p'). (ok, p', write_reports cb [Executing label node, Finished label node ok] out))
       (action p)"
  by (auto simp: fence_and_report_def write_reports_def Let_def split: option.split)

lemma reported_actions_write:
  "reported_fence_off cb env srv node secret p out =
     map_option (\<lambda>(ok, p'). (ok, p', write_reports cb [Executing LABEL_OFF node, Finished LABEL_OFF node ok] out))
       (fence_action_off cb env srv node secret p)"
  "reported_fence_on cb env srv node secret p out =
     map_option (\<lambda>(ok, p'). (ok, p', write_reports cb [Executing LABEL_ON node, Finished LABEL_ON node ok] out))
       (fence_action_on cb env srv node secret p)"
  "reported_fence_reboot cb env srv node secret p out =
     map_option (\<lambda>(ok, p'). (ok, p', write_reports cb [Executing LABEL_REBOOT node, Finished LABEL_REBOOT node ok] out))
       (fence_action_reboot cb env srv node secret p)"
  by (simp_all add: reported_fence_off_def reported_fence_on_def reported_fence_reboot_def
      fence_and_report_writes)

section \<open>Reading the log\<close>

lemma first_line:
  assumes "x \<notin> set as" "x \<notin> set bs" "as @ x # as' = bs @ x # bs'"
  shows "as = bs \<and> as' = bs'"
  using assms
proof (induction as arbitrary: bs)
  case Nil then show ?case by (cases bs) auto
next
  case (Cons a as) then show ?case by (cases bs) auto
qed

lemma result_texts_differ:
  "node @ [34, 32, 83, 85, 67, 67, 69, 69, 68, 69, 68] \<noteq> node' @ [34, 32, 70, 65, 73, 76, 69, 68 :: byte]"
  by (auto dest: arg_cong [where f = rev])

lemma report_line_injective:
  assumes "on_one_line cb r" "on_one_line cb r'" "report_line cb r = report_line cb r'"
  shows "map_fence_report (node_text cb) r = map_fence_report (node_text cb) r'"
  using assms
  by (cases r; cases r')
    (auto simp: on_one_line_def log_texts result_texts_differ result_texts_differ [symmetric] split: if_splits)

text \<open>
  A node name that contains a newline can forge reports: the report of one action, on a node
  that does not exist, is the text of three reports on two other nodes.
\<close>

definition forged_name :: "bytes \<Rightarrow> bytes \<Rightarrow> bytes" where
  "forged_name node other = node @ QUOTE @ [NEWLINE] @ LOGPFX_FENCE @ ascii ''Fencing action '' @ QUOTE @
     LABEL_OFF @ QUOTE @ ascii '' affecting node '' @ QUOTE @ node @ QUOTE @ ascii '' '' @ ascii ''SUCCEEDED'' @
     [NEWLINE] @
     LOGPFX_FENCE @ ascii ''Executing fencing action '' @ QUOTE @ LABEL_OFF @ QUOTE @
     ascii '' affecting node '' @ QUOTE @ other"

lemma length_forged_name: "length (forged_name node other) = 2 * length node + length other + 118"
  by (simp add: forged_name_def LOGPFX_FENCE_def LABEL_OFF_def QUOTE_def)

lemma fence_log_forged:
  assumes "node_text cb n = forged_name (node_text cb n1) (node_text cb n2)"
  shows "write_reports cb [Executing LABEL_OFF n] out =
    write_reports cb [Executing LABEL_OFF n1, Finished LABEL_OFF n1 True, Executing LABEL_OFF n2] out"
  by (simp add: write_reports_lines assms forged_name_def)

section \<open>Properties\<close>

text \<open>
  Property C38. As long as no node name contains a newline, the log tells exactly which actions
  were started for which nodes, in which order, and how each ended: two sequences of reports
  that leave the same text are the same reports, however the workers interleave them.
\<close>

theorem fence_log_readable:
  assumes same: "write_reports cb rs out = write_reports cb rs' out"
    and lines: "\<forall>r \<in> set rs. on_one_line cb r" "\<forall>r \<in> set rs'. on_one_line cb r"
  shows "map (map_fence_report (node_text cb)) rs = map (map_fence_report (node_text cb)) rs'"
proof -
  let ?text = "\<lambda>rs. concat (map (\<lambda>r. report_line cb r @ [NEWLINE]) rs)"
  have "?text rs = ?text rs'" using same by (simp add: write_reports_lines)
  then show ?thesis using lines
  proof (induction rs arbitrary: rs')
    case Nil
    then show ?case by (cases rs') auto
  next
    case (Cons r rs)
    then obtain r' rest where rs': "rs' = r' # rest" by (cases rs') auto
    from Cons.prems have ok: "on_one_line cb r" "on_one_line cb r'" by (simp_all add: rs')
    from Cons.prems(1) have "report_line cb r @ NEWLINE # ?text rs = report_line cb r' @ NEWLINE # ?text rest"
      by (simp add: rs')
    from first_line [OF report_line_one_line [OF ok(1)] report_line_one_line [OF ok(2)] this]
    have "report_line cb r = report_line cb r'" "?text rs = ?text rest" by auto
    with report_line_injective [OF ok] Cons.IH [of rest] Cons.prems show ?case by (simp add: rs')
  qed
qed

theorem fence_log_readable_witness:
  "map (map_fence_report (node_text bounded_ops))
     [Executing LABEL_OFF (255, ascii ''n1''), Executing LABEL_ON (255, ascii ''n2''),
      Finished LABEL_ON (255, ascii ''n2'') True, Finished LABEL_OFF (255, ascii ''n1'') False] =
   map (map_fence_report (node_text bounded_ops))
     [Executing LABEL_OFF (16, ascii ''n1''), Executing LABEL_ON (16, ascii ''n2''),
      Finished LABEL_ON (16, ascii ''n2'') True, Finished LABEL_OFF (16, ascii ''n1'') False]"
proof (rule fence_log_readable [where out = "[]"])
  have names: "node_text bounded_ops (n, ascii ''n1'') = [110, 49]"
    "node_text bounded_ops (n, ascii ''n2'') = [110, 50]" for n
    by (simp_all add: node_text_def bounded_ops_def ascii_def c_string_def)
  show "write_reports bounded_ops
     [Executing LABEL_OFF (255, ascii ''n1''), Executing LABEL_ON (255, ascii ''n2''),
      Finished LABEL_ON (255, ascii ''n2'') True, Finished LABEL_OFF (255, ascii ''n1'') False] [] =
    write_reports bounded_ops
     [Executing LABEL_OFF (16, ascii ''n1''), Executing LABEL_ON (16, ascii ''n2''),
      Finished LABEL_ON (16, ascii ''n2'') True, Finished LABEL_OFF (16, ascii ''n1'') False] []"
    by (simp add: write_reports_lines names)
qed (simp_all add: on_one_line_def node_text_def bounded_ops_def ascii_def c_string_def)

end
