(* ===== verification/Fencing_Confirmed.thy ===== *)
theory Fencing_Confirmed
  imports Request_Served Fence_Client
begin

text \<open>
  The whole system: what the exit code of the client says about the plugin of the server. The
  client process of Fence_Client talks over a stream socket to a server of Server_Traffic.
\<close>

section \<open>The parameters fit the server's buffers\<close>

text \<open>
  An argument never holds a value longer than the capacity it was added with.
\<close>

definition within_size :: "bytes \<Rightarrow> nat \<Rightarrow> arg_spec \<Rightarrow> bool" where
  "within_size key n m \<longleftrightarrow> (\<forall>e. m key = Some e \<longrightarrow> spec_capacity e = n \<and>
     (\<forall>v. spec_value e = Some v \<longrightarrow> length v \<le> n))"

lemma within_size_process:
  assumes "spec_process text m = Inr m'" and "within_size key n m"
  shows "within_size key n m'"
  using assms by (auto simp: spec_process_def within_size_def split: option.splits if_splits)

lemma within_size_step:
  assumes "spec_step cb x m = Inr m'" and "within_size key n m"
    and "\<And>k n'. x = AddEntry k n' \<Longrightarrow> c_string k = key \<Longrightarrow> n' = n"
  shows "within_size key n m'"
proof (cases x)
  case (AddEntry k n')
  with assms show ?thesis by (auto simp: spec_add_def within_size_def split: if_splits)
next
  case (MarkRequired k)
  with assms show ?thesis by (auto simp: spec_require_def within_size_def split: option.splits if_splits)
next
  case (ProcessArgument a)
  with assms within_size_process show ?thesis by simp
qed

lemma within_size_run:
  assumes "run_spec cb xs m = Inr m'" and "within_size key n m"
    and "\<And>k n'. AddEntry k n' \<in> set xs \<Longrightarrow> c_string k = key \<Longrightarrow> n' = n"
  shows "within_size key n m'"
  using assms
proof (induction xs arbitrary: m)
  case (Cons x xs)
  then obtain m1 where "spec_step cb x m = Inr m1" "run_spec cb xs m1 = Inr m'" by (auto split: sum.splits)
  with Cons.IH [of m1] within_size_step [of cb x m m1 key n] Cons.prems(2,3) show ?case by force
qed simp

context argument_table begin

lemma read_loop_sizes:
  assumes "args_ok cb qt tree_ok args" and "within_size key n (abs_args cb cap qt args)"
    and "client_read_loop cb qt s args = Normal (args', s')"
  shows "args_ok cb qt tree_ok args' \<and> within_size key n (abs_args cb cap qt args')"
proof -
  have "args_ok cb qt tree_ok args' \<and> within_size key n (abs_args cb cap qt args')"
    if "cb1 = cb" "qt1 = qt" "args_ok cb qt tree_ok args" "within_size key n (abs_args cb cap qt args)"
      "client_read_loop cb1 qt1 s args = Normal (args', s')" for cb1 qt1 args
    using that
  proof (induction cb1 qt1 s args rule: client_read_loop.induct)
    case (1 cb1 qt1 s args)
    note eq = 1(7) [unfolded 1(3,4) client_read_loop.simps [of cb qt s args]]
    show ?case
    proof (cases "good s")
      case False
      with eq 1(5,6) show ?thesis by simp
    next
      case True
      with eq obtain line k s1 where g: "getline CLIENT_MAX_PARAMETER_SIZE s = Some (line, k, s1)"
        by (auto split: option.splits)
      show ?thesis
      proof (cases "1 < k")
        case False
        with eq True g have "client_read_loop cb1 qt1 s1 args = Normal (args', s')" by (simp add: 1(3,4))
        with 1(2) [OF _ g refl refl False 1(3-6)] True show ?thesis by simp
      next
        case k: True
        with eq True g obtain arg where a: "cb_assign_c_str cb (cb_new cb (k - 1)) line = Some arg"
          by (auto split: option.splits)
        from eq True g k a obtain args1 where p: "process_argument cb qt arg args = Normal args1"
          and rest: "client_read_loop cb qt s1 args1 = Normal (args', s')"
          by (auto split: outcome.splits)
        from process_argument_spec [OF 1(5), of arg] p
        have "args_ok cb qt tree_ok args1"
          "spec_process (cb_c_str cb arg) (abs_args cb cap qt args) = Inr (abs_args cb cap qt args1)" by simp_all
        with within_size_process [OF this(2) 1(6)]
          1(1) [of "(line, k, s1)" line "(k, s1)" k s1 arg args1] True g k a p rest 1(3,4)
        show ?thesis by simp
      qed
    qed
  qed
  with assms show ?thesis by blast
qed

lemma value_text_fits:
  assumes init: "client_initialize cb qt (new_arguments cb qt) = Normal ps"
    and read: "client_read_parameters cb qt s ps = Normal (params, s')"
    and val: "get_value cb qt key params = Inr v"
    and key: "\<And>k n'. AddEntry k n' \<in> set (client_parameter_ops :: 'b arg_op list) \<Longrightarrow> c_string k = c_string key \<Longrightarrow> n' = n"
  shows "length (cb_c_str cb v) \<le> n"
proof -
  have new: "args_ok cb qt tree_ok (new_arguments cb qt)" "abs_args cb cap qt (new_arguments cb qt) = Map.empty"
    by (rule new_arguments_ok)+
  from run_args_refines [OF new(1), of client_parameter_ops] init have
    ps: "args_ok cb qt tree_ok ps" "run_spec cb client_parameter_ops Map.empty = Inr (abs_args cb cap qt ps)"
    by (simp_all add: client_initialize_def new(2))
  have "within_size (c_string key) n (abs_args cb cap qt ps)"
  proof (rule within_size_run [OF ps(2)])
    show "within_size (c_string key) n Map.empty" by (simp add: within_size_def)
    show "n' = n" if "AddEntry k n' \<in> set (client_parameter_ops :: 'b arg_op list)" "c_string k = c_string key" for k n'
      by (rule key [OF that])
  qed
  moreover from read have "client_read_loop cb qt s ps = Normal (params, s')"
    by (auto simp: client_read_parameters_def split: if_splits outcome.splits)
      (cases "client_read_loop cb qt s ps"; auto split: if_splits)
  ultimately have "args_ok cb qt tree_ok params" "within_size (c_string key) n (abs_args cb cap qt params)"
    using read_loop_sizes [OF ps(1)] by blast+
  with get_value_abs [of params key] val show ?thesis
    by (auto simp: within_size_def split: option.splits)
qed

end

lemma client_keys:
  "c_string KEY_ACTION \<noteq> c_string KEY_NODENAME" "c_string KEY_PROTOCOL \<noteq> c_string KEY_NODENAME"
  "c_string KEY_IP_ADDRESS \<noteq> c_string KEY_NODENAME" "c_string KEY_TCP_PORT \<noteq> c_string KEY_NODENAME"
  "c_string KEY_SECRET \<noteq> c_string KEY_NODENAME"
  "c_string KEY_ACTION \<noteq> c_string KEY_SECRET" "c_string KEY_PROTOCOL \<noteq> c_string KEY_SECRET"
  "c_string KEY_IP_ADDRESS \<noteq> c_string KEY_SECRET" "c_string KEY_TCP_PORT \<noteq> c_string KEY_SECRET"
  by code_simp+

context argument_table begin

lemma client_values_fit:
  assumes "client_initialize cb qt (new_arguments cb qt) = Normal ps"
    and "client_read_parameters cb qt s ps = Normal (params, s')"
    and "get_value cb qt KEY_NODENAME params = Inr node" and "get_value cb qt KEY_SECRET params = Inr pass"
  shows "params_fit cb node pass"
proof -
  have "length (cb_c_str cb node) \<le> NODENAME_SIZE"
    by (rule value_text_fits [OF assms(1,2,3)])
      (use client_keys in \<open>auto simp: client_parameter_ops_def NODENAME_PARAM_SIZE_def bounds_simps\<close>)
  moreover have "length (cb_c_str cb pass) \<le> MAX_SECRET_LENGTH"
    by (rule value_text_fits [OF assms(1,2,4)])
      (use client_keys in \<open>auto simp: client_parameter_ops_def SECRET_PARAM_SIZE_def bounds_simps\<close>)
  ultimately show ?thesis
    by (simp add: params_fit_def order_trans [OF length_c_string])
qed

end

section \<open>The connection the client makes\<close>

lemma init_connector_buffer:
  assumes "init_connector env params = Normal (Some c)" and "CLIENT_IO_BUFFER_SIZE \<le> length (ce_memory env)"
  shows "length (cc_io_buffer c) = CLIENT_IO_BUFFER_SIZE"
proof -
  from assms(1) obtain a1 a2 a3 where
    "construct_client_connector (ce_cb env) (ce_net env) (ce_in env) (ce_in6 env) (ce_memory env) a1 a2 a3 = Normal c"
    by (auto simp: init_connector_def split: sum.splits outcome.splits)
  moreover have "map_outcome (\<lambda>sa. \<lparr>cc_io_buffer = take CLIENT_IO_BUFFER_SIZE (ce_memory env),
      cc_header = new_msg_header, cc_address = sa, cc_socket = FD_NONE, cc_closed = []\<rparr>) r = Normal c \<Longrightarrow> ?thesis" for r
    using assms(2) by (cases r) auto
  ultimately show ?thesis unfolding construct_client_connector_def by blast
qed

lemma connect_open:
  assumes "connect_to_server net new_in new_in6 os c n = Normal (c', n')"
  shows "0 \<le> cc_socket c'" "cc_io_buffer c' = cc_io_buffer c"
  using assms
  by (auto simp: connect_to_server_def Let_def split: prod.splits sum.splits option.splits if_splits)

lemma answers_bare: "answers penv srv req calls reply \<Longrightarrow> \<exists>m. reply = bare_message m"
  by (auto simp: answers_def split: option.splits MsgType.splits)

lemma length_bare_message [simp]: "length (bare_message m) = HEADER_SIZE"
  using request_bytes_sel(1) [of "[]" m] by (simp add: bounds_simps)

lemma bare_message_type:
  "deserialize h (bare_message m) = \<lparr>msg_type = msg_type_code m, data_length = of_nat HEADER_SIZE\<rparr>"
  using request_bytes_sel(3) [of "[]" h m] by (simp add: bounds_simps)

lemma bare_message_inject:
  assumes "bare_message a = bare_message b"
  shows "a = b"
proof -
  have "msg_type (deserialize new_msg_header (bare_message a)) = msg_type (deserialize new_msg_header (bare_message b))"
    by (simp only: assms)
  then show ?thesis unfolding bare_message_type by simp
qed

lemma answers_success:
  assumes a: "answers penv srv (request_bytes m kvs) (p, p') (bare_message FENCE_SUCCESS)"
    and kvs: "well_formed kvs" "apply_fields kvs ([], []) = Some (node, pass)"
  shows "\<exists>f. fence_function m (plugin_functions srv) = Some f \<and>
    call_fence penv f (plugin_context srv) node (length node) p = (True, p')"
proof -
  have ty: "switch_msg_type (bytes_to_field_value (request_bytes m kvs) MSG_TYPE_OFFSET) = Some m"
    by (simp add: request_bytes_type [OF kvs(1)])
  have "\<exists>f node ok. fence_function m (plugin_functions srv) = Some f \<and> names_node (request_bytes m kvs) node \<and>
      call_fence penv f (plugin_context srv) node (length node) p = (ok, p') \<and>
      bare_message FENCE_SUCCESS = bare_message (if ok then FENCE_SUCCESS else FENCE_FAIL)"
  proof (cases "m = ECHO_REQUEST")
    case True
    with a have "bare_message FENCE_SUCCESS = bare_message ECHO_REPLY"
      unfolding answers_def ty by simp
    from bare_message_inject [OF this] show ?thesis by simp
  next
    case False
    then show ?thesis
      using a unfolding answers_def ty option.case fst_conv snd_conv
      by (cases m; simp only: MsgType.case simp_thms)
  qed
  then obtain f node' ok where f: "fence_function m (plugin_functions srv) = Some f"
    "names_node (request_bytes m kvs) node'"
    "call_fence penv f (plugin_context srv) node' (length node') p = (ok, p')"
    and "bare_message FENCE_SUCCESS = bare_message (if ok then FENCE_SUCCESS else FENCE_FAIL)" by blast
  then have ok: ok
    using bare_message_inject [of FENCE_SUCCESS "if ok then FENCE_SUCCESS else FENCE_FAIL"] by (auto split: if_splits)
  have "node' = node" using f(2) by (simp add: names_request [OF kvs])
  with f ok show ?thesis by simp
qed

text \<open>
  What a client that got \<open>true\<close> from its fencing action knows, when the bytes it receives are
  those the server has sent in reply to its request.
\<close>

lemma fence_action_confirmed:
  assumes client: "fence_client cb cap os incoming outgoing received"
    and c: "0 \<le> cc_socket c" "length (cc_io_buffer c) = CLIENT_IO_BUFFER_SIZE"
    and fit: "params_fit cb node_name client_secret" and fresh: "outgoing n = []" "received n = 0"
    and run: "fence_action_impl cb os m node_name client_secret c n = Some (Normal (True, c', n'))"
    and server: "exchanges_ok penv srv t"
    and link: "\<And>n. received n = 0 \<Longrightarrow> incoming n \<noteq> [] \<Longrightarrow> \<exists>calls reply.
      (outgoing n, calls, reply) \<in> set (exchanges t) \<and> incoming n = take (length (incoming n)) reply"
  shows "\<exists>f p p'. fence_function m (plugin_functions srv) = Some f \<and>
    call_fence penv f (plugin_context srv) (c_string (cb_c_str cb node_name))
      (length (c_string (cb_c_str cb node_name))) p = (True, p') \<and>
    (request_bytes m (fence_params (c_string (cb_c_str cb node_name)) (c_string (cb_c_str cb client_secret))),
     (p, p'), bare_message FENCE_SUCCESS) \<in> set (exchanges t)"
proof -
  let ?node = "c_string (cb_c_str cb node_name)" and ?pass = "c_string (cb_c_str cb client_secret)"
  let ?kvs = "fence_params ?node ?pass"
  have lens: "length ?node \<le> NODENAME_SIZE" "length ?pass \<le> MAX_SECRET_LENGTH"
    using fit by (simp_all add: params_fit_def)
  note params = fence_params_ok [OF lens]
  have wf: "well_formed ?kvs" using params(1,2) by (simp add: well_formed_def)
  from fence_client.fence_exchange [OF client c fit refl, of n m] obtain n1 where
    n1: "outgoing n1 = request_bytes m ?kvs" "received n1 = 0"
    and r: "if frame_length (incoming n1) \<le> length (incoming n1)
     then \<exists>c' n'. fence_action_impl cb os m node_name client_secret c n =
            Some (fence_answer (deserialize new_msg_header (incoming n1)) c' n') \<and>
          cc_socket c' = cc_socket c \<and> cc_header c' = deserialize new_msg_header (incoming n1) \<and>
          incoming n' = drop (frame_length (incoming n1)) (incoming n1) \<and> outgoing n' = outgoing n1
     else fence_action_impl cb os m node_name client_secret c n = None"
    unfolding fresh by auto
  have full: "frame_length (incoming n1) \<le> length (incoming n1)" using r run by (auto split: if_splits)
  then have four: "HEADER_SIZE \<le> length (incoming n1)" using frame_length_ge order_trans by blast
  then have "incoming n1 \<noteq> []" by (auto simp: bounds_simps)
  from link [OF n1(2) this] obtain p p' reply where
    ex: "(request_bytes m ?kvs, (p, p'), reply) \<in> set (exchanges t)"
    and inc: "incoming n1 = take (length (incoming n1)) reply" unfolding n1(1) by auto
  have a: "answers penv srv (request_bytes m ?kvs) (p, p') reply"
    using server ex by (auto simp: exchanges_ok_def)
  then obtain m' where m': "reply = bare_message m'" using answers_bare by blast
  have "incoming n1 = reply" using inc four by (simp add: m')
  moreover have "msg_type_code m' = 0xA0 \<Longrightarrow> m' = FENCE_SUCCESS" by (cases m') simp_all
  ultimately have m'_def: "m' = FENCE_SUCCESS"
    using r run full by (auto simp: m' bare_message_type fence_answer_def is_msg_type_def split: if_splits)
  from answers_success [OF a [unfolded m' m'_def] wf params(3)] ex show ?thesis
    unfolding m' m'_def by blast
qed

section \<open>Properties\<close>

text \<open>
  Property C1. Exit code 0 means fenced. Take a client process and a server in any run with any
  other clients, such that what the client reads on its new connection are bytes the server has
  sent there in reply to the request received on it. If the process ends with exit code 0 and
  the action on its input was \<open>off\<close>, \<open>on\<close> or \<open>reboot\<close>, then the server has called the plugin
  function of that action, with the value of the parameter \<open>nodename\<close>, in this run, and the
  function has returned true. Nothing is assumed of the parameters; that they fit the server's
  buffers follows from the sizes the client gives them.
\<close>

theorem exit_code_0_means_fenced:
  assumes tab: "argument_table cb cap qt tree_ok" and lib: "ce_cb env = cb" "ce_qt env = qt"
    and memory: "CLIENT_IO_BUFFER_SIZE \<le> length (ce_memory env)"
    and sock: "stream_socket (ce_os env) incoming outgoing received"
    and fresh: "\<forall>c0 c n. connect_to_server (ce_net env) (ce_in env) (ce_in6 env) (ce_os env) c0 (cw_net w) =
      Normal (c, n) \<longrightarrow> outgoing n = [] \<and> received n = 0"
    and cb: "char_buffer scb scap" and table: "table_complete (plugin_functions srv)"
    and g: "IO_BUFFER_SIZE \<le> length garbage"
    and fds: "valid_select_fd sfd" "valid_select_fd rfd" "sfd \<noteq> rfd"
    and server: "recorded_run scb penv srv
      (start_system (started_connector scb garbage d sh sfd rfd wfd) p0, silence p0) (s, t)"
    and link: "\<And>n. received n = 0 \<Longrightarrow> incoming n \<noteq> [] \<Longrightarrow> \<exists>calls reply.
      (outgoing n, calls, reply) \<in> set (exchanges t) \<and> incoming n = take (length (incoming n)) reply"
    and main: "client_main env argv w = Some (Exit 0, w')"
  shows "\<exists>ps params rest action.
    client_initialize cb qt (new_arguments cb qt) = Normal ps \<and>
    client_read_parameters cb qt (cw_stdin w) ps = Normal (params, rest) \<and>
    get_value cb qt KEY_ACTION params = Inr action \<and>
    (case action_request cb action of
       None \<Rightarrow> True
     | Some m \<Rightarrow> \<exists>node_name node f p p' req.
         get_value cb qt KEY_NODENAME params = Inr node_name \<and> node = c_string (cb_c_str cb node_name) \<and>
         fence_function m (plugin_functions srv) = Some f \<and>
         call_fence penv f (plugin_context srv) node (length node) p = (True, p') \<and>
         (req, (p, p'), bare_message FENCE_SUCCESS) \<in> set (exchanges t))"
proof -
  have ccb: "char_buffer cb cap" using tab by (simp add: argument_table_def)
  have ex: "exchanges_ok penv srv t"
    using char_buffer.recorded_run_inv [OF cb server table start_recorded [OF cb g fds]]
    by (simp add: recorded_inv_def traffic_inv_def conn_traffic_def)
  from client_main_exit_0 [OF main] obtain ps params rest w2 where
    read: "client_initialize cb qt (new_arguments cb qt) = Normal ps"
      "client_read_parameters cb qt (cw_stdin w) ps = Normal (params, rest)"
    and run: "dispatch_request env params (w\<lparr>cw_stdin := rest\<rparr>) = Some (Normal (FENCING_SUCCESS, w2))"
    by (auto simp: lib)
  from dispatch_success [OF run] obtain action where act: "get_value cb qt KEY_ACTION params = Inr action"
    and fence: "action_request cb action \<noteq> None \<Longrightarrow>
      client_fence_action env params (w\<lparr>cw_stdin := rest\<rparr>) = Some (Normal (True, w2))"
    by (auto simp: lib)
  have "\<exists>node_name node f p p' req.
      get_value cb qt KEY_NODENAME params = Inr node_name \<and> node = c_string (cb_c_str cb node_name) \<and>
      fence_function m (plugin_functions srv) = Some f \<and>
      call_fence penv f (plugin_context srv) node (length node) p = (True, p') \<and>
      (req, (p, p'), bare_message FENCE_SUCCESS) \<in> set (exchanges t)"
    if m: "action_request cb action = Some m" for m
  proof -
    from client_fence_action_true [OF fence] m act obtain node_name pass c0 c n c' where
      v: "get_value cb qt KEY_NODENAME params = Inr node_name" "get_value cb qt KEY_SECRET params = Inr pass"
      and conn: "init_connector env params = Normal (Some c0)"
        "connect_to_server (ce_net env) (ce_in env) (ce_in6 env) (ce_os env) c0 (cw_net w) = Normal (c, n)"
      and impl: "fence_action_impl cb (ce_os env) m node_name pass c n = Some (Normal (True, c', cw_net w2))"
      by (auto simp: lib)
    note fit = argument_table.client_values_fit [OF tab read v]
    have c: "0 \<le> cc_socket c" "length (cc_io_buffer c) = CLIENT_IO_BUFFER_SIZE"
      using connect_open [OF conn(2)] init_connector_buffer [OF conn(1) memory] by simp_all
    have start: "outgoing n = []" "received n = 0" using fresh conn(2) by blast+
    from fence_action_confirmed [OF fence_client.intro [OF ccb sock] c fit start impl ex link] v(1)
    show ?thesis by blast
  qed
  with read act show ?thesis by (auto split: option.split)
qed

definition sample_server_peer :: "bytes \<Rightarrow> bytes" where
  "sample_server_peer req = (if req = sample_request then bare_message FENCE_SUCCESS else [])"

lemma sample_connect_fresh:
  "connect_to_server (ce_net (sample_env_with peer)) (ce_in (sample_env_with peer)) (ce_in6 (sample_env_with peer))
     (ce_os (sample_env_with peer)) c0 n = Normal (c, n') \<Longrightarrow> n' = n"
  by (auto simp: connect_to_server_def sample_env_with_def peer_os_def Let_def
      split: prod.splits sum.splits option.splits if_splits)

theorem exit_code_0_means_fenced_witness:
  "\<exists>s t w'. recorded_run bounded_ops sample_env sample_server sample_launch (s, t) \<and>
    client_main (sample_env_with sample_server_peer) [] sample_world = Some (Exit 0, w') \<and>
    (\<exists>p p' req. call_fence sample_env 13 (Some 9) (ascii ''n1'') 2 p = (True, p') \<and>
       (req, (p, p'), bare_message FENCE_SUCCESS) \<in> set (exchanges t))"
proof -
  let ?env = "sample_env_with sample_server_peer"
  have reply: "bare_message FENCE_SUCCESS = [0, 0xA0, 0, 4]" by code_simp
  have req: "sample_request = request_bytes FENCE_OFF sample_fields"
    by (simp add: sample_request_def sample_fields_def fence_params_def ascii_def c_string_def)
  from sample_exchange obtain s t where run: "recorded_run bounded_ops sample_env sample_server sample_launch (s, t)"
    and ex: "exchanges t = [(sample_request, ([], [(13, Some 9, ascii ''n1'')]), bare_message FENCE_SUCCESS)]"
    unfolding req by blast
  obtain w' where main: "client_main ?env [] sample_world = Some (Exit 0, w')"
    using sample_main [of sample_server_peer] by (auto simp: sample_server_peer_def reply)
  have lib: "ce_cb ?env = bounded_ops" "ce_qt ?env = list_tree_ops"
    "CLIENT_IO_BUFFER_SIZE \<le> length (ce_memory ?env)" "ce_os ?env = peer_os sample_server_peer"
    by (simp_all add: sample_env_with_def)
  have fresh: "\<forall>c0 c n. connect_to_server (ce_net ?env) (ce_in ?env) (ce_in6 ?env) (ce_os ?env) c0 (cw_net sample_world) =
      Normal (c, n) \<longrightarrow> ps_sent n = [] \<and> ps_read n = 0"
    by (auto dest!: sample_connect_fresh simp: sample_world_def sample_peer_def)
  have link: "\<exists>calls reply. (ps_sent n, calls, reply) \<in> set (exchanges t) \<and>
      peer_incoming sample_server_peer n = take (length (peer_incoming sample_server_peer n)) reply"
    if "ps_read n = 0" "peer_incoming sample_server_peer n \<noteq> []" for n
    using that by (auto simp: peer_incoming_def sample_server_peer_def ex split: if_splits)
  have stream: "stream_socket (ce_os ?env) (peer_incoming sample_server_peer) ps_sent ps_read"
    unfolding lib(4) by (rule peer_stream.stream_socket_axioms)
  from sample_parameters obtain ps params rest where
    read: "client_initialize bounded_ops list_tree_ops (new_arguments bounded_ops list_tree_ops) = Normal ps"
      "client_read_parameters bounded_ops list_tree_ops sample_stdin ps = Normal (params, rest)"
    and vals: "get_value bounded_ops list_tree_ops KEY_ACTION params = Inr (24, ascii ''off'')"
      "get_value bounded_ops list_tree_ops KEY_NODENAME params = Inr (255, ascii ''n1'')"
    by (auto simp: sample_values_ok_def)
  have off: "action_request bounded_ops (24, ascii ''off'') = Some FENCE_OFF" by code_simp
  have node: "c_string (ascii ''n1'') = ascii ''n1''" "length (ascii ''n1'') = 2"
    by (simp_all add: ascii_def c_string_def)
  have stdin: "cw_stdin sample_world = sample_stdin" by (simp add: sample_world_def)
  note fenced = exit_code_0_means_fenced [OF listed.argument_table_axioms lib(1-3) stream fresh
      bounded.char_buffer_axioms sample_start_ok(1-5) run link main]
  have "\<exists>p p' req. call_fence sample_env 13 (Some 9) (ascii ''n1'') 2 p = (True, p') \<and>
      (req, (p, p'), bare_message FENCE_SUCCESS) \<in> set (exchanges t)"
    using fenced by (auto simp: stdin read vals off node sample_server_def numeral_2_eq_2)
  with run main show ?thesis by blast
qed

end
