(* ===== verification/Call_Audit.thy ===== *)
theory Call_Audit
  imports Request_Served "HOL-Library.Multiset"
begin

text \<open>
  The plugin's calls against the requests received. A run of the server is audited by two
  lists: the messages that connections have received whole, as they join the action queue, and
  those that workers have executed. The plugin's state is at any time what the executed
  messages make of it, one after the other, and no message is executed more often than it was
  received.
\<close>

section \<open>The effect of a message\<close>

text \<open>The call that a message asks for, read off its bytes alone.\<close>

definition requested_call :: "fence_server \<Rightarrow> bytes \<Rightarrow> (fn_address \<times> bytes) option" where
  "requested_call srv req =
     (case switch_msg_type (bytes_to_field_value req MSG_TYPE_OFFSET) of
        None \<Rightarrow> None
      | Some m \<Rightarrow>
          (case fence_function m (plugin_functions srv) of
             None \<Rightarrow> None
           | Some f \<Rightarrow>
               (case parse_request (drop HEADER_SIZE req) ([], []) of
                  Inl e \<Rightarrow> None
                | Inr (node, pass) \<Rightarrow> if node = [] then None else Some (f, node))))"

definition run_call :: "'p plugin_env \<Rightarrow> fence_server \<Rightarrow> bytes \<Rightarrow> 'p \<Rightarrow> 'p" where
  "run_call penv srv req p =
     (case requested_call srv req of
        None \<Rightarrow> p
      | Some (f, node) \<Rightarrow> snd (call_fence penv f (plugin_context srv) node (length node) p))"

context char_buffer begin

lemma fence_action_effect:
  assumes caps: "client_caps cap cl" and h: "heard_ok cb cl h" and mc: "message_complete cl"
    and ty: "switch_msg_type (bytes_to_field_value h MSG_TYPE_OFFSET) = Some m"
    and f: "fence_function m (plugin_functions srv) = Some f"
    and act: "fence_action cb (\<lambda>n s p. Some (call_fence penv f (plugin_context srv) (cb_c_str cb n) (cb_length cb n) p))
      cl p \<in> {Normal (cl', p'), Raised e (cl', p')}"
  shows "p' = run_call penv srv h p"
proof -
  have texts: "cb_c_str cb (nodename cl) = []" "cb_c_str cb (secret cl) = []"
    using h by (simp_all add: heard_ok_def)
  note parsed = fence_fields_parsed [OF caps heard_body(2,3) [OF h mc] heard_body(1) [OF h mc] refl]
  show ?thesis
  proof (cases "parse_request (drop HEADER_SIZE h) ([], [])")
    case (Inl x)
    with parsed obtain cl1 where "fence_fields cb cl HEADER_SIZE = Raised x cl1" by (auto simp: texts)
    with act Inl show ?thesis by (auto simp: fence_action_def run_call_def requested_call_def ty f split: if_splits)
  next
    case (Inr v)
    obtain node pass where v: "v = (node, pass)" by (cases v)
    with parsed Inr obtain cl1 where
      "fence_fields cb cl HEADER_SIZE = Normal cl1" "cb_c_str cb (nodename cl1) = node" by (auto simp: texts)
    with act Inr v show ?thesis
      by (auto simp: fence_action_def run_call_def requested_call_def ty f length_str split: if_splits prod.splits)
  qed
qed

lemma process_effect:
  assumes caps: "client_caps cap cl" and h: "heard_ok cb cl h" and mc: "message_complete cl"
    and table: "table_complete (plugin_functions srv)"
    and act: "process_client_message cb penv srv cl p \<in> {Normal (cl', p'), Raised e (cl', p')}"
  shows "p' = run_call penv srv h p"
proof (cases "switch_msg_type (msg_type (header cl))")
  case None
  with heard_request(1) [OF h mc] act show ?thesis
    by (auto simp: process_client_message_def run_call_def requested_call_def)
next
  case (Some m)
  note ty = Some [unfolded heard_request(1) [OF h mc]]
  show ?thesis
  proof (cases "fence_function m (plugin_functions srv)")
    case None
    with Some table act show ?thesis
      by (cases m) (auto simp: process_client_message_def run_call_def requested_call_def ty table_complete_def)
  next
    case f: (Some f)
    have "msg_type (header cl) = msg_type_code m" using Some by (simp add: switch_msg_type_Some)
    note pm = process_fence_message [OF f this, of cb penv p]
    show ?thesis by (rule fence_action_effect [OF caps h mc ty f act [unfolded pm]])
  qed
qed

end

section \<open>The audit of a run\<close>

text \<open>
  A client joins the action queue with a whole message; a worker that has executed one moves
  the client to \<open>executed\<close>.
\<close>

record audit =
  requests :: "bytes list"
  calls :: "bytes list"

definition joined :: "'b connector \<Rightarrow> 'b connector \<Rightarrow> nat list" where
  "joined cn cn' = filter (\<lambda>c. c \<notin> set (action_list cn)) (action_list cn')"

fun audit_step ::
  "('b, 'p) server_system \<times> 'p traffic \<Rightarrow> ('b, 'p) server_system \<times> 'p traffic \<Rightarrow> audit \<Rightarrow> audit" where
  "audit_step (s, t) (s', t') a =
     \<lparr>requests = requests a @ map (heard t') (joined (conn s) (conn s')),
      calls = calls a @ map (heard t) (sorted_list_of_set (executed s' - executed s))\<rparr>"

inductive audited_run ::
  "'b char_buffer_ops \<Rightarrow> 'p plugin_env \<Rightarrow> fence_server \<Rightarrow> ('b, 'p) server_system \<times> 'p traffic \<Rightarrow>
   ('b, 'p) server_system \<times> 'p traffic \<Rightarrow> audit \<Rightarrow> bool" for cb penv srv st0 where
  start: "audited_run cb penv srv st0 st0 \<lparr>requests = [], calls = []\<rparr>"
| step: "audited_run cb penv srv st0 st a \<Longrightarrow> recorded_step cb penv srv st st' \<Longrightarrow>
     audited_run cb penv srv st0 st' (audit_step st st' a)"

text \<open>The audit only observes.\<close>

lemma audited_run_erase: "audited_run cb penv srv st0 st a \<Longrightarrow> recorded_run cb penv srv st0 st"
  by (induction rule: audited_run.induct) (auto intro: rtranclp.rtrancl_into_rtrancl)

lemma recorded_run_audited:
  "recorded_run cb penv srv st0 st \<Longrightarrow> \<exists>a. audited_run cb penv srv st0 st a"
  by (induction rule: rtranclp_induct) (blast intro: audited_run.intros)+

section \<open>The books balance\<close>

definition waiting :: "('b, 'p) server_system \<Rightarrow> nat set" where
  "waiting s = set (action_list (conn s)) \<union> taken s"

definition audit_ok ::
  "'p plugin_env \<Rightarrow> fence_server \<Rightarrow> 'p \<Rightarrow> ('b, 'p) server_system \<times> 'p traffic \<Rightarrow> audit \<Rightarrow> bool" where
  "audit_ok penv srv p0 st a \<longleftrightarrow>
     plugin (fst st) = fold (run_call penv srv) (calls a) p0 \<and>
     mset (calls a) + image_mset (heard (snd st)) (mset_set (waiting (fst st))) \<subseteq># mset (requests a) \<and>
     (\<forall>r \<in> set (requests a). frame_length r = length r)"

lemma waiting_whole:
  assumes "traffic_inv cb penv srv s t" and "c \<in> waiting s"
  shows "frame_length (heard t c) = length (heard t c)"
proof -
  have "waiting_traffic cb (clients (conn s) c) t c"
    using assms by (auto simp: traffic_inv_def conn_traffic_def waiting_def)
  then have "heard_ok cb (clients (conn s) c) (heard t c)" "message_complete (clients (conn s) c)"
    by (simp_all add: waiting_traffic_def)
  then show ?thesis
    using frame_length_header by (auto simp: heard_ok_def has_read_def message_complete_def)
qed

lemma mset_set_covered:
  assumes "finite A" and "distinct xs" and "B \<subseteq> A \<union> set xs"
  shows "mset_set B \<subseteq># mset_set A + mset xs"
proof -
  have "mset_set B \<subseteq># mset_set (A \<union> (set xs - A))"
    by (rule subset_imp_msubset_mset_set) (use assms in auto)
  moreover have "mset_set (A \<union> (set xs - A)) = mset_set A + mset_set (set xs - A)"
    by (rule mset_set_Union) (use assms in auto)
  moreover have "mset_set (set xs - A) \<subseteq># mset_set (set xs)"
    by (rule subset_imp_msubset_mset_set) auto
  ultimately show ?thesis
    using mset_set_set [OF assms(2)] by (metis subset_mset.add_left_mono subset_mset.order_trans)
qed

text \<open>A step that executes nothing.\<close>

lemma audit_quiet:
  assumes ok: "audit_ok penv srv p0 (s, t) a" and tr: "traffic_inv cb penv srv s' t'"
    and p: "plugin s' = plugin s" and ex: "executed s' \<subseteq> executed s"
    and fin: "finite (taken s)" and dist: "distinct (action_list (conn s'))"
    and taken: "taken s' \<subseteq> waiting s" and same: "\<forall>x \<in> waiting s. heard t' x = heard t x"
  shows "audit_ok penv srv p0 (s', t') (audit_step (s, t) (s', t') a)"
proof -
  let ?new = "joined (conn s) (conn s')"
  have no_call: "executed s' - executed s = {}" using ex by blast
  have sub: "waiting s' \<subseteq> waiting s \<union> set ?new" using taken by (auto simp: waiting_def joined_def)
  have "finite (waiting s)" "distinct ?new" using fin dist by (simp_all add: waiting_def joined_def)
  from image_mset_subseteq_mono [OF mset_set_covered [OF this sub], of "heard t'"]
  have "image_mset (heard t') (mset_set (waiting s')) \<subseteq>#
    image_mset (heard t') (mset_set (waiting s)) + mset (map (heard t') ?new)" by simp
  also have "image_mset (heard t') (mset_set (waiting s)) = image_mset (heard t) (mset_set (waiting s))"
    using same by (intro image_mset_cong) (metis elem_mset_set mset_set.infinite empty_iff set_mset_empty)
  finally have "mset (calls a) + image_mset (heard t') (mset_set (waiting s')) \<subseteq>#
    mset (calls a) + image_mset (heard t) (mset_set (waiting s)) + mset (map (heard t') ?new)"
    by (simp add: add.assoc)
  also have "\<dots> \<subseteq># mset (requests a) + mset (map (heard t') ?new)"
    using ok by (simp add: audit_ok_def)
  finally have "mset (calls a) + image_mset (heard t') (mset_set (waiting s')) \<subseteq>#
    mset (requests a) + mset (map (heard t') ?new)" .
  moreover have "frame_length (heard t' c) = length (heard t' c)" if "c \<in> set ?new" for c
    using waiting_whole [OF tr] that by (simp add: waiting_def joined_def)
  ultimately show ?thesis using ok p by (auto simp: audit_ok_def no_call)
qed

text \<open>A step that executes the message of \<open>c\<close>.\<close>

lemma audit_executed:
  assumes ok: "audit_ok penv srv p0 (s, t) a"
    and p: "plugin s' = run_call penv srv (heard t c) (plugin s)"
    and ex: "executed s' = insert c (executed s)" "c \<notin> executed s"
    and lists: "action_list (conn s') = action_list (conn s)" "c \<notin> set (action_list (conn s))"
    and taken: "taken s' = taken s - {c}" "c \<in> taken s" "finite (taken s)" and same: "heard t' = heard t"
  shows "audit_ok penv srv p0 (s', t') (audit_step (s, t) (s', t') a)"
proof -
  have "executed s' - executed s = {c}" "joined (conn s) (conn s') = []" using ex lists by (auto simp: joined_def)
  then have a: "audit_step (s, t) (s', t') a = \<lparr>requests = requests a, calls = calls a @ [heard t c]\<rparr>" by simp
  have "waiting s' = waiting s - {c}" "c \<in> waiting s" "finite (waiting s)"
    using lists taken by (auto simp: waiting_def)
  then have "mset_set (waiting s) = add_mset c (mset_set (waiting s'))" by (simp add: mset_set.remove)
  with ok p show ?thesis unfolding a by (simp add: audit_ok_def same)
qed

context char_buffer begin

lemma execute_effect:
  assumes inv: "system_inv cap s xs ys W L" and tr: "traffic_inv cb penv srv s t" and c: "c \<in> taken s"
    and table: "table_complete (plugin_functions srv)"
    and eq: "worker_execute cb penv srv (conn s) c (plugin s) \<in> {Normal (cn', p'), Raised e (cn', p')}"
  shows "p' = run_call penv srv (heard t c) (plugin s)"
proof -
  let ?cl = "(clients (conn s) c)\<lparr>current_phase := EXECUTING\<rparr>"
  have "client_ok cap (clients (conn s) c)" using inv by (simp add: system_inv_def conn_inv_def conn_core_def)
  then have caps: "client_caps cap ?cl" by (simp add: client_ok_def client_caps_def)
  have "waiting_traffic cb (clients (conn s) c) t c" using tr c by (simp add: traffic_inv_def)
  then have h: "heard_ok cb ?cl (heard t c)" "message_complete ?cl" by (simp_all add: waiting_traffic_def)
  from eq obtain cl2 where "process_client_message cb penv srv ?cl (plugin s) \<in> {Normal (cl2, p'), Raised e (cl2, p')}"
    by (auto simp: worker_execute_def split: outcome.splits)
  from process_effect [OF caps h table this] show ?thesis .
qed

lemma thrown_no_call:
  assumes "worker_execute cb penv srv cn c p = Raised e (cn', p')"
  shows "p' = p"
  using assms
  by (auto simp: worker_execute_def process_client_message_def fence_action_def Let_def
      split: outcome.splits option.splits MsgType.splits if_splits prod.splits)

lemma recorded_step_audit:
  assumes step: "recorded_step cb penv srv (s, t) (s', t')" and table: "table_complete (plugin_functions srv)"
    and inv: "system_inv cap s xs ys W L" and tr: "traffic_inv cb penv srv s t"
    and ok: "audit_ok penv srv p0 (s, t) a"
  shows "audit_ok penv srv p0 (s', t') (audit_step (s, t) (s', t') a)"
proof -
  have conn: "conn_inv cap L (conn s) xs ys W" and te: "taken s \<union> executed s = W - L" "taken s \<inter> executed s = {}"
    using inv by (simp_all add: system_inv_def)
  have "W \<subseteq> used_objects (client_pool (conn s))" using conn by (auto simp: conn_inv_def conn_core_def)
  then have fin: "finite (taken s)" using te(1) by (auto simp: used_objects_def intro: finite_subset)
  have tr': "traffic_inv cb penv srv s' t'" by (rule recorded_step_traffic [OF step table inv tr])
  from server_step_inv [OF recorded_step_erase [OF step, simplified] table inv] obtain xs' ys' W' L' where
    inv': "system_inv cap s' xs' ys' W' L'" by blast
  have dist: "distinct (action_list (conn s'))"
    using inv' conn_core_distinct unfolding system_inv_lost(3) [OF inv'] system_inv_def conn_inv_def by blast
  note quiet = audit_quiet [OF ok tr' _ _ fin dist]
  from step show ?thesis
  proof cases
    case (serve rd wr it cn')
    have "\<forall>x \<in> waiting s. heard t' x = heard t x"
      using serve_step_record(2) [OF inv tr serve(3-6)] te(1) serve(2)
      by (auto simp: waiting_def same_record_def)
    then show ?thesis by (intro quiet) (auto simp: serve(1) waiting_def)
  next
    case (execute c cn' p')
    from execute_step_cases [OF inv execute(3) table, of penv cn' p' RangeException] execute(4)
    have l: "action_list cn' = action_list (conn s)" "c \<notin> set (action_list (conn s))" "c \<notin> executed s" by auto
    from execute_effect [OF inv tr execute(3) table, of cn' p' RangeException] execute(4)
    have "p' = run_call penv srv (heard t c) (plugin s)" by simp
    then show ?thesis
      by (intro audit_executed [OF ok, where c = c]) (use execute l fin in simp_all)
  next
    case other
    have same: "\<forall>x \<in> waiting s. heard t' x = heard t x" using other(1) by simp
    from other(2) show ?thesis
    proof cases
      case (take c cn')
      then have "c \<in> set (action_list (conn s))"
        using worker_take_inv [OF conn] inv conn_inv_lists(2) [OF conn]
        by (auto simp: system_inv_def split: list.splits)
      with take same show ?thesis by (intro quiet) (auto simp: waiting_def)
    next
      case (execute c cn' p')
      with other te show ?thesis by auto
    next
      case (execute_throws c e cn' p')
      from execute_step_cases [OF inv execute_throws(2) table, of penv cn' p' e] execute_throws(3)
      have l: "action_list cn' = action_list (conn s)" by auto
      have "p' = plugin s" using execute_throws(3) by (rule thrown_no_call)
      with execute_throws l same show ?thesis by (intro quiet) (auto simp: waiting_def)
    qed (rule quiet; use same other in \<open>auto simp: waiting_def split: option.splits\<close>)+
  qed
qed

lemma audited_run_ok:
  assumes run: "audited_run cb penv srv st0 st a" and table: "table_complete (plugin_functions srv)"
    and inv: "recorded_inv cap cb penv srv st0"
    and start: "audit_ok penv srv p0 st0 \<lparr>requests = [], calls = []\<rparr>"
  shows "audit_ok penv srv p0 st a"
  using run
proof (induction rule: audited_run.induct)
  case (step st a st')
  obtain s t s' t' where st: "st = (s, t)" "st' = (s', t')" by (cases st; cases st')
  have "recorded_inv cap cb penv srv st"
    by (rule recorded_run_inv [OF audited_run_erase [OF step.hyps(1)] table inv])
  then obtain xs ys W L where "system_inv cap s xs ys W L" "traffic_inv cb penv srv s t"
    by (auto simp: recorded_inv_def st)
  from recorded_step_audit [OF step.hyps(2) [unfolded st] table this step.IH [unfolded st]]
  show ?case unfolding st .
qed (rule start)

end

section \<open>Properties\<close>

text \<open>
  Property C3. The plugin does nothing that no client has asked for: in every run of the server,
  with any number of clients and workers, however the threads interleave and whatever bytes come
  in, the state of the plugin is what the executed messages make of it one after the other, each
  by the one call that its bytes ask for or none; and each of them is a message that a connection
  has received whole, executed at most as often as it was received.
\<close>

theorem plugin_runs_only_requests:
  assumes cb: "char_buffer cb cap" and table: "table_complete (plugin_functions srv)"
    and g: "IO_BUFFER_SIZE \<le> length garbage"
    and fds: "valid_select_fd sfd" "valid_select_fd rfd" "sfd \<noteq> rfd"
    and run: "audited_run cb penv srv
      (start_system (started_connector cb garbage d sh sfd rfd wfd) p, silence p) (s, t) a"
  shows "plugin s = fold (run_call penv srv) (calls a) p \<and> mset (calls a) \<subseteq># mset (requests a) \<and>
    (\<forall>r \<in> set (requests a). frame_length r = length r)"
proof -
  let ?st0 = "(start_system (started_connector cb garbage d sh sfd rfd wfd) p, silence p)"
  note start = start_recorded [OF cb g fds, of penv srv d sh wfd p p]
  have "audit_ok penv srv p ?st0 \<lparr>requests = [], calls = []\<rparr>"
    using start system_inv_lost(3) [OF start_system_inv [OF cb g fds]]
    by (simp add: audit_ok_def waiting_def start_system_def)
  from char_buffer.audited_run_ok [OF cb run table start this]
  have "audit_ok penv srv p (s, t) a" .
  then show ?thesis by (auto simp: audit_ok_def dest: subset_mset.order_trans [OF mset_subset_eq_add_left])
qed

theorem plugin_runs_only_requests_witness:
  "\<exists>s t a. audited_run bounded_ops sample_env sample_server sample_launch (s, t) a \<and>
    plugin s = [(13, Some 9, ascii ''n1'')] \<and> calls a \<noteq> [] \<and>
    fold (run_call sample_env sample_server) (calls a) [] = plugin s \<and>
    mset (calls a) \<subseteq># mset (requests a)"
proof -
  from sample_exchange obtain s t where
    run: "recorded_run bounded_ops sample_env sample_server sample_launch (s, t)"
    and pl: "plugin s = [(13, Some 9, ascii ''n1'')]" by blast
  from recorded_run_audited [OF run] obtain a where
    a: "audited_run bounded_ops sample_env sample_server sample_launch (s, t) a" by blast
  from plugin_runs_only_requests [OF bounded.char_buffer_axioms sample_start_ok(1-5) a]
  have f: "plugin s = fold (run_call sample_env sample_server) (calls a) []"
    "mset (calls a) \<subseteq># mset (requests a)" by blast+
  from f(1) pl have "calls a \<noteq> []" by auto
  with a pl f show ?thesis by (intro exI [of _ s] exI [of _ t] exI [of _ a]) simp
qed

end
