(* ===== verification/Pass_Interleaving.thy ===== *)
theory Pass_Interleaving
  imports Request_Served
begin

text \<open>
  The selector's pass at the granularity of its locks. In Server_System the accepted connection
  and the turns of all clients are one step; in the code workers run between them, since only
  \<open>com_queue_lock\<close> is held during the pass. Here each of them is a step of its own, and the
  runs at this granularity are shown to be those of Server_System: what workers do meanwhile
  commutes with the turns of the clients, so it might as well happen after the pass.
\<close>

section \<open>Queue operations that do not meet\<close>

lemma remove_node_upd:
  assumes "c \<noteq> n" and "prev_node (h n) \<noteq> Some c" and "next_node (h n) \<noteq> Some c"
    and "remove_node h q n = (h', q')"
  shows "remove_node (h(c := v)) q n = (h'(c := v), q') \<and> h' c = h c"
proof -
  have "fst (remove_node (h(c := v)) q n) x = (h'(c := v)) x" for x
    using assms by (cases "x = c") (auto simp: remove_node_def set_next_def set_prev_def split: option.splits)
  moreover have "snd (remove_node (h(c := v)) q n) = q'"
    using assms by (auto simp: remove_node_def set_next_def set_prev_def split: option.splits)
  moreover have "h' c = h c"
    using assms by (auto simp: remove_node_def set_next_def set_prev_def split: option.splits)
  ultimately show ?thesis by (metis ext prod.collapse)
qed

lemma add_last_upd:
  assumes "c \<noteq> n" and "tail_node q \<noteq> Some c" and "add_last h q n = (h', q')"
  shows "add_last (h(c := v)) q n = (h'(c := v), q') \<and> h' c = h c"
proof -
  have "fst (add_last (h(c := v)) q n) x = (h'(c := v)) x" for x
    using assms by (cases "x = c") (auto simp: add_last_def set_next_def set_prev_def split: option.splits)
  moreover have "snd (add_last (h(c := v)) q n) = q'"
    using assms by (auto simp: add_last_def split: option.splits prod.splits)
  moreover have "h' c = h c"
    using assms by (auto simp: add_last_def set_next_def set_prev_def split: option.splits)
  ultimately show ?thesis by (metis ext prod.collapse)
qed

lemma size_inc_dec: "size_inc (size_dec n) = size_dec (size_inc n)"
proof (cases "Suc n mod SIZE_MODULUS = 0")
  case True
  then show ?thesis
    by (cases n) (auto simp: size_inc_def size_dec_def size_sub_def mod_Suc SIZE_MODULUS_def split: if_splits)
next
  case False
  then show ?thesis
    by (cases n) (auto simp: size_inc_def size_dec_def size_sub_def mod_Suc SIZE_MODULUS_def split: if_splits)
qed

text \<open>Taking the first node and adding another at the end of the same queue.\<close>

lemma remove_first_add_last:
  assumes q: "queue_links h q (c # zs)" and n: "n \<notin> set (c # zs)"
    and rm: "remove_first h q = (r, h1, q1)" and add: "add_last h1 q1 n = (h2, q2)"
    and add': "add_last h q n = (h3, q3)"
  shows "remove_first h3 q3 = (Some c, h2, q2)"
proof (cases zs)
  case Nil
  with q have e: "head_node q = Some c" "tail_node q = Some c" by (simp_all add: queue_links_def)
  have nc: "n \<noteq> c" "c \<noteq> n" using n by auto
  have "remove_first (fst (add_last h q n)) (snd (add_last h q n)) =
      (Some c, add_last (fst (snd (remove_first h q))) (snd (snd (remove_first h q))) n)"
    using nc by (simp add: remove_first_def add_last_def set_next_def set_prev_def e size_inc_dec fun_eq_iff)
  then show ?thesis using rm add add' by simp
next
  case (Cons z zs')
  then have c: "c \<noteq> z" "z \<noteq> c" "c \<notin> set zs'" "n \<noteq> c" "n \<noteq> z" "n \<notin> set zs'" "c \<noteq> n" "z \<noteq> n"
    using q n by (auto simp: queue_links_def)
  define t where "t = (if zs' = [] then z else last zs')"
  have t: "t \<noteq> c" "t \<noteq> n" using c by (auto simp: t_def dest: last_in_set)
  have e: "head_node q = Some c" "tail_node q = Some t" "next_node (h c) = Some z"
    using q Cons by (auto simp: queue_links_def last_or_def t_def)
  have "remove_first (fst (add_last h q n)) (snd (add_last h q n)) =
      (Some c, add_last (fst (snd (remove_first h q))) (snd (snd (remove_first h q))) n)"
    using c t by (simp add: remove_first_def add_last_def set_next_def set_prev_def e size_inc_dec fun_eq_iff)
  then show ?thesis using rm add add' by simp
qed

text \<open>Removing a node and adding another at the end of the same queue.\<close>

lemma remove_node_add_last:
  assumes q: "queue_links h q xs" and n: "n \<in> set xs" and c: "c \<notin> set xs"
    and rm: "remove_node h q n = (h1, q1)" and add: "add_last h1 q1 c = (h2, q2)"
    and add': "add_last h q c = (h3, q3)"
  shows "remove_node h3 q3 n = (h2, q2)"
proof -
  from n obtain as bs where xs: "xs = as @ n # bs" by (meson split_list)
  have d: "distinct xs" using q by (rule queue_links_distinct)
  obtain f where f: "first_or (Some n) as = Some f" by (cases as) auto
  have p: "prev_node (h n) = last_or None as" "next_node (h n) = first_or None bs"
    "head_node q = Some f" "tail_node q = last_or (Some n) bs"
    using q xs f by (auto simp: queue_links_def)
  note defs = remove_node_def add_last_def set_next_def set_prev_def size_inc_dec fun_eq_iff
  have lp: "a \<noteq> n \<and> a \<noteq> c \<and> a \<notin> set bs" if "as = as' @ [a]" for a as' using that d c xs by auto
  have nc: "n \<noteq> c" "c \<noteq> n" using c xs by auto
  have "remove_node (fst (add_last h q c)) (snd (add_last h q c)) n =
      add_last (fst (remove_node h q n)) (snd (remove_node h q n)) c"
  proof (cases bs)
    case Nil
    show ?thesis
    proof (cases as rule: rev_cases)
      case (snoc as' a)
      with nc lp [OF snoc] Nil p show ?thesis by (simp add: defs)
    qed (use nc Nil p in \<open>simp add: defs\<close>)
  next
    case (Cons b bs')
    define t where "t = (if bs' = [] then b else last bs')"
    have t: "b \<noteq> n" "b \<noteq> c" "n \<noteq> b" "t \<noteq> n" "t \<noteq> c" "t \<in> set bs" "b \<in> set bs"
      using c d xs Cons by (auto simp: t_def dest: last_in_set)
    have e: "first_or None bs = Some b" "last_or (Some n) bs = Some t"
      using Cons by (auto simp: last_or_def t_def)
    show ?thesis
    proof (cases as rule: rev_cases)
      case (snoc as' a)
      have "a \<noteq> b" "a \<noteq> t" "b \<noteq> a" "t \<noteq> a" using lp [OF snoc] t by auto
      with nc t lp [OF snoc] snoc p show ?thesis by (simp add: defs e)
    qed (use nc t p in \<open>simp add: defs e\<close>)
  qed
  then show ?thesis using rm add add' by simp
qed

section \<open>A client's turn in two parts\<close>

text \<open>
  What a turn makes of the client, which depends on the client alone, and what it then does to
  the queues and the pool.
\<close>

datatype 'b turn = Stay "'b net_client" | Close "'b net_client" | Hand "'b net_client"

definition after_receive :: "'b net_client \<Rightarrow> 'b turn" where
  "after_receive cl =
     (let cl = cl\<lparr>current_phase := next_phase cl\<rparr> in
      if current_phase cl = CANCELED then Close cl
      else if current_phase cl = PENDING then Hand cl else Stay cl)"

definition after_send :: "'b net_client \<Rightarrow> 'b turn" where
  "after_send cl =
     (let cl = cl\<lparr>current_phase := next_phase cl\<rparr> in
      if current_phase cl = CANCELED then Close cl
      else if current_phase cl = RECV
      then Stay ((clear_io_buffer cl)\<lparr>next_phase := PENDING, io_state := READ\<rparr>) else Stay cl)"

definition receiving :: "os_env \<Rightarrow> 'b net_client \<Rightarrow> 'b turn" where
  "receiving env cl =
     (case os_recv env (socket_fd cl) (req_read_size cl) of
        Received data \<Rightarrow>
          (if data \<noteq> [] then
             (case receive_bytes cl data of (complete, cl) \<Rightarrow> if complete then after_receive cl else Stay cl)
           else Close cl)
      | _ \<Rightarrow> Close cl)"

definition sending :: "os_env \<Rightarrow> 'b net_client \<Rightarrow> 'b turn" where
  "sending env cl =
     (let cl = prepare_send cl in
      case os_send env (socket_fd cl) (send_buffer cl) of
        SendFailed \<Rightarrow> Close cl
      | SendWouldBlock \<Rightarrow> (case sent_bytes cl 0 of (complete, cl) \<Rightarrow> if complete then after_send cl else Stay cl)
      | Sent n \<Rightarrow> (case sent_bytes cl n of (complete, cl) \<Rightarrow> if complete then after_send cl else Stay cl))"

definition turn_of :: "os_env \<Rightarrow> fd_set \<Rightarrow> fd_set \<Rightarrow> 'b net_client \<Rightarrow> 'b turn option" where
  "turn_of env rd wr cl =
     (if current_phase cl = CANCELED then Some (Close cl)
      else
        (case FD_ISSET (socket_fd cl) rd of
           None \<Rightarrow> None
         | Some True \<Rightarrow> Some (receiving env cl)
         | Some False \<Rightarrow>
             (case FD_ISSET (socket_fd cl) wr of
                None \<Rightarrow> None
              | Some True \<Rightarrow> Some (sending env cl)
              | Some False \<Rightarrow> Some (Stay cl))))"

definition leave_com :: "'b connector \<Rightarrow> nat \<Rightarrow> 'b connector" where
  "leave_com cn c =
     (case remove_node (clients cn) (com_queue cn) c of
        (h, q) \<Rightarrow> cn\<lparr>clients := h(c := (h c)\<lparr>io_state := NOOP\<rparr>), com_queue := q\<rparr>)"

definition join_action :: "'b connector \<Rightarrow> nat \<Rightarrow> 'b connector" where
  "join_action cn c =
     (case add_last (clients cn) (action_queue cn) c of
        (h, q) \<Rightarrow> cn\<lparr>clients := h, action_queue := q, notifications := notifications cn + 1\<rparr>)"

fun leave_turn :: "'b char_buffer_ops \<Rightarrow> 'b connector \<Rightarrow> nat \<Rightarrow> 'b turn \<Rightarrow> 'b connector" where
  "leave_turn cb cn c (Stay cl) = set_client c cl cn"
| "leave_turn cb cn c (Close cl) = close_connection cb (set_client c cl cn) c"
| "leave_turn cb cn c (Hand cl) = leave_com (set_client c cl cn) c"

fun hands :: "'b turn \<Rightarrow> bool" where
  "hands (Hand cl) = True"
| "hands t = False"

definition apply_turn :: "'b char_buffer_ops \<Rightarrow> 'b connector \<Rightarrow> nat \<Rightarrow> 'b turn \<Rightarrow> 'b connector" where
  "apply_turn cb cn c t =
     (let cn = leave_turn cb cn c t in if hands t then join_action cn c else cn)"

lemma apply_turn_simps [simp]:
  "apply_turn cb cn c (Stay cl) = set_client c cl cn"
  "apply_turn cb cn c (Close cl) = close_connection cb (set_client c cl cn) c"
  "apply_turn cb cn c (Hand cl) = join_action (leave_com (set_client c cl cn) c) c"
  by (simp_all add: apply_turn_def)

lemma apply_after_receive:
  "finish_receive cb (set_client c cl cn) c = apply_turn cb cn c (after_receive cl)"
  by (simp add: finish_receive_def after_receive_def leave_com_def join_action_def Let_def split: prod.splits)

lemma apply_after_send:
  "finish_send cb (set_client c cl cn) c = apply_turn cb cn c (after_send cl)"
  by (simp add: finish_send_def after_send_def Let_def)

lemma set_client_same [simp]: "set_client c (clients cn c) cn = cn"
  by simp

lemma apply_receiving:
  "(case receive_message cb (os_recv env) cn c of
      (complete, cn) \<Rightarrow> if complete then finish_receive cb cn c else cn) =
   apply_turn cb cn c (receiving env (clients cn c))"
  by (simp add: receive_message_def receiving_def Let_def apply_after_receive
      split: recv_result.splits prod.splits)

lemma apply_sending:
  "(case send_message cb (os_send env) cn c of
      (complete, cn) \<Rightarrow> if complete then finish_send cb cn c else cn) =
   apply_turn cb cn c (sending env (clients cn c))"
  by (simp add: send_message_def sending_def Let_def apply_after_send
      split: send_result.splits prod.splits)

lemma client_io_turn_of:
  "client_io cb env rd wr cn c = map_option (apply_turn cb cn c) (turn_of env rd wr (clients cn c))"
proof -
  have case_Some: "(case r of (complete, cn) \<Rightarrow> Some (if complete then f cn else cn)) =
      Some (case r of (complete, cn) \<Rightarrow> if complete then f cn else cn)" for r and f :: "'b connector \<Rightarrow> 'b connector"
    by (simp split: prod.splits)
  show ?thesis
    by (simp add: client_io_def turn_of_def Let_def case_Some apply_receiving apply_sending
        split: option.splits bool.splits)
qed

section \<open>Turns and updates elsewhere\<close>

fun turn_client :: "'b turn \<Rightarrow> 'b net_client" where
  "turn_client (Stay cl) = cl"
| "turn_client (Close cl) = cl"
| "turn_client (Hand cl) = cl"

definition same_links :: "'b net_client \<Rightarrow> 'b net_client \<Rightarrow> bool" where
  "same_links cl cl' \<longleftrightarrow> next_node cl' = next_node cl \<and> prev_node cl' = prev_node cl"

lemma after_links:
  "same_links cl (turn_client (after_receive cl))" "same_links cl (turn_client (after_send cl))"
  by (simp_all add: after_receive_def after_send_def Let_def same_links_def)

lemma same_links_trans: "same_links a b \<Longrightarrow> same_links b c \<Longrightarrow> same_links a c"
  by (simp add: same_links_def)

lemma receiving_links: "same_links cl (turn_client (receiving env cl))"
proof -
  have rb: "same_links cl cl'" if "receive_bytes cl data = (f, cl')" for data f cl'
    using receive_bytes_sel [OF that] by (simp add: same_links_def)
  show ?thesis
    by (auto simp: receiving_def split: recv_result.splits prod.splits
        intro: same_links_trans [OF rb after_links(1)] rb) (simp_all add: same_links_def)
qed

lemma sending_links: "same_links cl (turn_client (sending env cl))"
proof -
  have p: "same_links cl (prepare_send cl)" by (simp add: same_links_def prepare_send_sel)
  have sb: "same_links cl cl'" if "sent_bytes (prepare_send cl) n = (f, cl')" for n f cl'
    using sent_bytes_sel(5,6) [OF that] by (simp add: same_links_def prepare_send_sel)
  show ?thesis
    by (auto simp: sending_def Let_def split: send_result.splits prod.splits
        intro: same_links_trans [OF sb after_links(2)] sb p)
qed

lemma turn_of_links: "turn_of env rd wr cl = Some t \<Longrightarrow> same_links cl (turn_client t)"
  using receiving_links [of cl env] sending_links [of cl env]
  by (auto simp: turn_of_def same_links_def split: if_splits option.splits bool.splits)

lemma close_connection_eq:
  "close_connection cb cn c =
    (case remove_node ((clients cn)(c := (clients cn c)\<lparr>socket_fd :=
            fst (close_fd (socket_fd (clients cn c)) (closed_fds cn))\<rparr>)) (com_queue cn) c of
       (h, q) \<Rightarrow> cn\<lparr>clients := h(c := clear_client cb (h c)), com_queue := q,
                   closed_fds := snd (close_fd (socket_fd (clients cn c)) (closed_fds cn)),
                   client_pool := deallocate (client_pool cn) c\<rparr>)"
  by (simp add: close_connection_def Let_def split: prod.splits)

lemma leave_turn_upd:
  assumes c: "c \<noteq> x" "prev_node (clients cn x) \<noteq> Some c" "next_node (clients cn x) \<noteq> Some c"
    and t: "same_links (clients cn x) (turn_client t)"
  shows "leave_turn cb (set_client c v cn) x t = set_client c v (leave_turn cb cn x t) \<and>
    clients (leave_turn cb cn x t) c = clients cn c"
proof (cases t)
  case (Stay cl)
  with c(1) show ?thesis by (simp add: fun_upd_twist [OF c(1)])
next
  case (Close cl)
  let ?fd = "close_fd (socket_fd cl) (closed_fds cn)"
  let ?h = "(clients cn)(x := cl\<lparr>socket_fd := fst ?fd\<rparr>)"
  obtain h q where r: "remove_node ?h (com_queue cn) x = (h, q)" by fastforce
  have l: "prev_node (?h x) \<noteq> Some c" "next_node (?h x) \<noteq> Some c"
    using c t Close by (simp_all add: same_links_def)
  note u = remove_node_upd [OF c(1) l r, of v]
  have "(clients cn)(c := v, x := cl\<lparr>socket_fd := fst ?fd\<rparr>) = ?h(c := v)" by (simp add: fun_upd_twist [OF c(1)])
  with u r c(1) Close show ?thesis
    by (simp add: close_connection_eq fun_upd_twist [OF c(1)])
next
  case (Hand cl)
  let ?h = "(clients cn)(x := cl)"
  obtain h q where r: "remove_node ?h (com_queue cn) x = (h, q)" by fastforce
  have l: "prev_node (?h x) \<noteq> Some c" "next_node (?h x) \<noteq> Some c"
    using c t Hand by (simp_all add: same_links_def)
  note u = remove_node_upd [OF c(1) l r, of v]
  have "(clients cn)(c := v, x := cl) = ?h(c := v)" by (simp add: fun_upd_twist [OF c(1)])
  with u r c(1) Hand show ?thesis by (simp add: leave_com_def fun_upd_twist [OF c(1)])
qed

lemma leave_turn_action:
  "leave_turn cb (cn\<lparr>action_queue := q\<rparr>) x t = (leave_turn cb cn x t)\<lparr>action_queue := q\<rparr>"
  "action_queue (leave_turn cb cn x t) = action_queue cn"
  by (cases t; simp add: close_connection_eq leave_com_def split: prod.splits)+

lemma join_action_upd:
  assumes c: "c \<noteq> x" "tail_node (action_queue cn) \<noteq> Some c"
  shows "join_action (set_client c v cn) x = set_client c v (join_action cn x) \<and>
    clients (join_action cn x) c = clients cn c"
proof -
  obtain h q where a: "add_last (clients cn) (action_queue cn) x = (h, q)" by fastforce
  from add_last_upd [OF c a] a show ?thesis by (simp add: join_action_def)
qed

lemma queue_neighbours:
  assumes "queue_links h q xs" and "x \<in> set xs"
  shows "prev_node (h x) = Some p \<Longrightarrow> p \<in> set xs" "next_node (h x) = Some p \<Longrightarrow> p \<in> set xs"
proof -
  from assms(2) obtain as bs where xs: "xs = as @ x # bs" by (meson split_list)
  with assms(1) have "prev_node (h x) = last_or None as" "next_node (h x) = first_or None bs"
    by (simp_all add: queue_links_def)
  with xs show "prev_node (h x) = Some p \<Longrightarrow> p \<in> set xs" "next_node (h x) = Some p \<Longrightarrow> p \<in> set xs"
    by (auto simp: last_or_def first_or_def split: if_splits list.splits)
qed

text \<open>A client of the com queue, its turn, and nodes that are not on that queue.\<close>

definition com_turn :: "'b connector \<Rightarrow> nat list \<Rightarrow> nat \<Rightarrow> 'b turn \<Rightarrow> bool" where
  "com_turn cn xs x t \<longleftrightarrow> queue_links (clients cn) (com_queue cn) xs \<and> x \<in> set xs \<and>
     same_links (clients cn x) (turn_client t)"

lemma com_turn_upd:
  assumes "com_turn cn xs x t" and "c \<notin> set xs"
  shows "leave_turn cb (set_client c v cn) x t = set_client c v (leave_turn cb cn x t)"
    "clients (leave_turn cb cn x t) c = clients cn c" "com_turn (set_client c v cn) xs x t"
proof -
  have q: "queue_links (clients cn) (com_queue cn) xs" "x \<in> set xs" "same_links (clients cn x) (turn_client t)"
    using assms(1) by (simp_all add: com_turn_def)
  have c: "c \<noteq> x" "prev_node (clients cn x) \<noteq> Some c" "next_node (clients cn x) \<noteq> Some c"
    using q(2) queue_neighbours [OF q(1,2)] assms(2) by auto
  note leave_turn_upd [OF c q(3), of cb v]
  then show "leave_turn cb (set_client c v cn) x t = set_client c v (leave_turn cb cn x t)"
    "clients (leave_turn cb cn x t) c = clients cn c" by simp_all
  show "com_turn (set_client c v cn) xs x t"
    unfolding com_turn_def
    using q(2,3) c(1) assms(2) by (auto intro: queue_links_local [OF _ q(1)])
qed

section \<open>Turns and what workers do meanwhile\<close>

text \<open>A worker takes a request.\<close>

lemma worker_take_first:
  assumes q: "queue_links (clients cn) (action_queue cn) (c # zs)"
  shows "\<exists>q' f. worker_take cn = (Some c, cn\<lparr>clients := f (clients cn), action_queue := q'\<rparr>) \<and>
    (\<forall>cn'. action_queue cn' = action_queue cn \<longrightarrow> clients cn' c = clients cn c \<longrightarrow>
       worker_take cn' = (Some c, cn'\<lparr>clients := f (clients cn'), action_queue := q'\<rparr>)) \<and>
    (f = (\<lambda>h. set_next h c None) \<or> (\<exists>z \<in> set zs. f = (\<lambda>h. set_next (set_prev h z None) c None)))"
proof (cases zs)
  case Nil
  with q have e: "head_node (action_queue cn) = Some c" "tail_node (action_queue cn) = Some c"
    by (simp_all add: queue_links_def)
  let ?q = "(action_queue cn)\<lparr>head_node := None, tail_node := None, q_size := size_dec (q_size (action_queue cn))\<rparr>"
  show ?thesis
    by (rule exI [of _ ?q], rule exI [of _ "\<lambda>h. set_next h c None"])
      (simp add: worker_take_def remove_first_def e)
next
  case (Cons z zs')
  define t where "t = (if zs' = [] then z else last zs')"
  have t: "t \<noteq> c" using q Cons by (auto simp: queue_links_def t_def dest: last_in_set)
  have e: "head_node (action_queue cn) = Some c" "tail_node (action_queue cn) = Some t"
    "next_node (clients cn c) = Some z"
    using q Cons by (auto simp: queue_links_def last_or_def t_def)
  let ?q = "(action_queue cn)\<lparr>head_node := Some z, tail_node := Some t, q_size := size_dec (q_size (action_queue cn))\<rparr>"
  show ?thesis
    by (rule exI [of _ ?q], rule exI [of _ "\<lambda>h. set_next (set_prev h z None) c None"])
      (use t Cons in \<open>simp add: worker_take_def remove_first_def e\<close>)
qed

lemma take_leave:
  assumes tn: "com_turn cn xs x t" and q: "queue_links (clients cn) (action_queue cn) (c # zs)"
    and disj: "set xs \<inter> set (c # zs) = {}" and take: "worker_take cn = (Some c, cnH)"
  shows "worker_take (leave_turn cb cn x t) = (Some c, leave_turn cb cnH x t)" "com_turn cnH xs x t"
proof -
  have nc: "c \<notin> set xs" using disj by auto
  from worker_take_first [OF q] obtain q' f where
    w: "worker_take cn = (Some c, cn\<lparr>clients := f (clients cn), action_queue := q'\<rparr>)"
    and other: "\<forall>cn'. action_queue cn' = action_queue cn \<longrightarrow> clients cn' c = clients cn c \<longrightarrow>
       worker_take cn' = (Some c, cn'\<lparr>clients := f (clients cn'), action_queue := q'\<rparr>)"
    and f: "f = (\<lambda>h. set_next h c None) \<or> (\<exists>z \<in> set zs. f = (\<lambda>h. set_next (set_prev h z None) c None))"
    by (elim exE conjE)
  have cnH: "cnH = cn\<lparr>clients := f (clients cn), action_queue := q'\<rparr>" using w take by simp
  let ?G = "leave_turn cb cn x t"
  have c: "clients ?G c = clients cn c" by (rule com_turn_upd(2) [OF tn nc])
  have "leave_turn cb cnH x t = ?G\<lparr>clients := f (clients ?G), action_queue := q'\<rparr> \<and> com_turn cnH xs x t"
    using f
  proof
    assume f: "f = (\<lambda>h. set_next h c None)"
    let ?cn = "set_client c ((clients cn c)\<lparr>next_node := None\<rparr>) cn"
    have "cnH = ?cn\<lparr>action_queue := q'\<rparr>" by (simp add: cnH f set_next_def)
    with com_turn_upd(1,3) [OF tn nc, where v = "(clients cn c)\<lparr>next_node := None\<rparr>"] show ?thesis
      by (simp add: leave_turn_action f set_next_def c) (simp add: com_turn_def)
  next
    assume "\<exists>z \<in> set zs. f = (\<lambda>h. set_next (set_prev h z None) c None)"
    then obtain z where z: "z \<in> set zs" and f: "f = (\<lambda>h. set_next (set_prev h z None) c None)" by blast
    have nz: "z \<notin> set xs" "z \<noteq> c" using disj z q by (auto simp: queue_links_def)
    let ?cn1 = "set_client z ((clients cn z)\<lparr>prev_node := None\<rparr>) cn"
    let ?cn = "set_client c ((clients cn c)\<lparr>next_node := None\<rparr>) ?cn1"
    note u = com_turn_upd(1,3) [OF tn nz(1), where v = "(clients cn z)\<lparr>prev_node := None\<rparr>"]
    note u2 = com_turn_upd(1,3) [OF u(2) nc, where v = "(clients cn c)\<lparr>next_node := None\<rparr>"]
    have "cnH = ?cn\<lparr>action_queue := q'\<rparr>" using nz(2) by (simp add: cnH f set_next_def set_prev_def)
    with u u2 nz(2) com_turn_upd(2) [OF tn nz(1), of cb] show ?thesis
      by (simp add: leave_turn_action f set_next_def set_prev_def c) (simp add: com_turn_def)
  qed
  with other [THEN spec, of ?G] c leave_turn_action(2) [of cb cn x t]
  show "worker_take ?G = (Some c, leave_turn cb cnH x t)" "com_turn cnH xs x t" by simp_all
qed

lemma take_join:
  assumes q: "queue_links (clients cn) (action_queue cn) (c # zs)" and x: "x \<notin> set (c # zs)"
    and take: "worker_take cn = (Some c, cnH)"
  shows "worker_take (join_action cn x) = (Some c, join_action cnH x)"
proof -
  obtain r h1 q1 where rm: "remove_first (clients cn) (action_queue cn) = (r, h1, q1)" by (metis prod_cases3)
  obtain h2 q2 where a: "add_last h1 q1 x = (h2, q2)" by fastforce
  obtain h3 q3 where b: "add_last (clients cn) (action_queue cn) x = (h3, q3)" by fastforce
  from remove_first_add_last [OF q x rm a b] take rm a b show ?thesis
    by (auto simp: worker_take_def join_action_def)
qed

lemma take_turn:
  assumes tn: "com_turn cn xs x t" and q: "queue_links (clients cn) (action_queue cn) (c # zs)"
    and disj: "set xs \<inter> set (c # zs) = {}" and take: "worker_take cn = (Some c, cnH)"
  shows "worker_take (apply_turn cb cn x t) = (Some c, apply_turn cb cnH x t)" "com_turn cnH xs x t"
proof -
  note l = take_leave [OF tn q disj take]
  show "com_turn cnH xs x t" by (rule l(2))
  let ?G = "leave_turn cb cn x t"
  have x: "x \<notin> set (c # zs)" using tn disj by (auto simp: com_turn_def)
  have "clients ?G y = clients cn y" if "y \<in> set (c # zs)" for y
    by (rule com_turn_upd(2) [OF tn]) (use disj that in blast)
  then have "queue_links (clients ?G) (action_queue ?G) (c # zs)"
    using queue_links_local [OF _ q] by (simp add: leave_turn_action)
  from take_join [OF this x l(1)] l(1) show "worker_take (apply_turn cb cn x t) = (Some c, apply_turn cb cnH x t)"
    by (simp add: apply_turn_def Let_def)
qed

text \<open>A worker executes a request.\<close>

lemma busy_turn:
  assumes tn: "com_turn cn xs x t" and q: "queue_links (clients cn) (action_queue cn) ys"
    and c: "c \<notin> set xs" "c \<notin> set ys"
  shows "apply_turn cb (set_client c v cn) x t = set_client c v (apply_turn cb cn x t)"
    "clients (apply_turn cb cn x t) c = clients cn c" "com_turn (set_client c v cn) xs x t"
proof -
  have nx: "c \<noteq> x" using tn c(1) by (auto simp: com_turn_def)
  have "tail_node (action_queue cn) \<noteq> Some c"
    using q c(2) by (auto simp: queue_links_def last_or_def split: if_splits)
  then have tail: "tail_node (action_queue (leave_turn cb cn x t)) \<noteq> Some c" by (simp add: leave_turn_action)
  note u = com_turn_upd [OF tn c(1)] and j = join_action_upd [OF nx tail, of v]
  show "apply_turn cb (set_client c v cn) x t = set_client c v (apply_turn cb cn x t)"
    "clients (apply_turn cb cn x t) c = clients cn c"
    using u(1,2) [of cb] j by (simp_all add: apply_turn_def Let_def)
  show "com_turn (set_client c v cn) xs x t" by (rule u(3))
qed

section \<open>Turns do not look at the links\<close>

definition relink :: "'b net_client \<Rightarrow> 'b net_client \<Rightarrow> 'b net_client" where
  "relink l cl = cl\<lparr>next_node := next_node l, prev_node := prev_node l\<rparr>"

lemma relink_sel [simp]:
  "socket_fd (relink l cl) = socket_fd cl" "current_phase (relink l cl) = current_phase cl"
  "next_phase (relink l cl) = next_phase cl" "io_state (relink l cl) = io_state cl"
  "io_offset (relink l cl) = io_offset cl" "header (relink l cl) = header cl"
  "have_header (relink l cl) = have_header cl" "io_buffer (relink l cl) = io_buffer cl"
  "next_node (relink l cl) = next_node l" "prev_node (relink l cl) = prev_node l"
  by (simp_all add: relink_def)

lemma relink_more: "link.more cl' = link.more cl \<Longrightarrow> cl' = relink cl' cl"
  by (cases cl; cases cl') (simp add: relink_def)

lemma relink_upd:
  "(relink l cl)\<lparr>current_phase := ph\<rparr> = relink l (cl\<lparr>current_phase := ph\<rparr>)"
  "(relink l cl)\<lparr>next_phase := ph\<rparr> = relink l (cl\<lparr>next_phase := ph\<rparr>)"
  "(relink l cl)\<lparr>io_state := op\<rparr> = relink l (cl\<lparr>io_state := op\<rparr>)"
  "(relink l cl)\<lparr>io_offset := n\<rparr> = relink l (cl\<lparr>io_offset := n\<rparr>)"
  "(relink l cl)\<lparr>io_buffer := buf\<rparr> = relink l (cl\<lparr>io_buffer := buf\<rparr>)"
  "(relink l cl)\<lparr>header := hdr\<rparr> = relink l (cl\<lparr>header := hdr\<rparr>)"
  "(relink l cl)\<lparr>have_header := b\<rparr> = relink l (cl\<lparr>have_header := b\<rparr>)"
  "(relink l cl)\<lparr>socket_fd := fd\<rparr> = relink l (cl\<lparr>socket_fd := fd\<rparr>)"
  by (cases cl; simp add: relink_def)+

lemma relink_clear: "clear_io_buffer (relink l cl) = relink l (clear_io_buffer cl)"
  by (cases cl) (simp add: clear_io_buffer_def relink_def)

fun relink_turn :: "'b net_client \<Rightarrow> 'b turn \<Rightarrow> 'b turn" where
  "relink_turn l (Stay cl) = Stay (relink l cl)"
| "relink_turn l (Close cl) = Close (relink l cl)"
| "relink_turn l (Hand cl) = Hand (relink l cl)"

lemma relink_bytes:
  "receive_bytes (relink l cl) data = (case receive_bytes cl data of (f, cl) \<Rightarrow> (f, relink l cl))"
  "sent_bytes (relink l cl) n = (case sent_bytes cl n of (f, cl) \<Rightarrow> (f, relink l cl))"
  "prepare_send (relink l cl) = relink l (prepare_send cl)"
  "req_read_size (relink l cl) = req_read_size cl" "send_buffer (relink l cl) = send_buffer cl"
  by (simp_all add: receive_bytes_def sent_bytes_def prepare_send_def req_read_size_def send_buffer_def
      req_write_size_def Let_def relink_upd)

lemma relink_after:
  "after_receive (relink l cl) = relink_turn l (after_receive cl)"
  "after_send (relink l cl) = relink_turn l (after_send cl)"
  by (simp_all add: after_receive_def after_send_def Let_def relink_upd relink_clear)

lemma turn_of_relink:
  "turn_of env rd wr (relink l cl) = map_option (relink_turn l) (turn_of env rd wr cl)"
  by (auto simp: turn_of_def receiving_def sending_def Let_def relink_bytes relink_after
      split: option.splits bool.splits recv_result.splits send_result.splits prod.splits)

text \<open>A node's other fields and the links that an operation gives it.\<close>

lemma add_last_payload:
  assumes "same_links (h x) cl" and "add_last h q n = (h', q')"
  shows "add_last (h(x := cl)) q n = (h'(x := relink (h' x) cl), q')"
proof -
  have "fst (add_last (h(x := cl)) q n) y = (h'(x := relink (h' x) cl)) y" for y
    using assms
    by (cases cl; cases "h x")
      (auto simp: add_last_def set_next_def set_prev_def relink_def same_links_def split: option.splits)
  moreover have "snd (add_last (h(x := cl)) q n) = q'"
    using assms by (auto simp: add_last_def split: option.splits prod.splits)
  ultimately show ?thesis by (metis ext prod.collapse)
qed

lemma add_last_twice:
  assumes "n \<noteq> m" and "tail_node q \<noteq> Some m" and "tail_node p \<noteq> Some n"
    and "tail_node q = None \<or> tail_node q \<noteq> tail_node p"
    and "add_last h q n = (h1, q1)" and "add_last h1 p m = (h2, p2)" and "add_last h p m = (h3, p3)"
  shows "add_last h3 q n = (h2, q1)" "p3 = p2"
proof -
  have "fst (add_last h3 q n) y = h2 y" for y
    using assms by (auto simp: add_last_def set_next_def set_prev_def split: option.splits)
  moreover have "snd (add_last h3 q n) = q1"
    using assms by (auto simp: add_last_def split: option.splits prod.splits)
  ultimately show "add_last h3 q n = (h2, q1)" by (metis ext prod.collapse)
  show "p3 = p2" using assms by (auto simp: add_last_def split: option.splits prod.splits)
qed

section \<open>A worker gives a client back\<close>

definition rejoin_com :: "'b connector \<Rightarrow> nat \<Rightarrow> 'b connector" where
  "rejoin_com cn c =
     (case add_last (clients cn) (com_queue cn) c of (h, q) \<Rightarrow> cn\<lparr>clients := h, com_queue := q\<rparr>)"

lemma tail_member: "queue_links h q xs \<Longrightarrow> tail_node q = Some t \<Longrightarrow> t \<in> set xs"
  by (auto simp: queue_links_def last_or_def split: if_splits)

lemma detach_rejoin:
  assumes q: "queue_links h q xs" and x: "x \<in> set xs" and c: "c \<notin> set xs"
    and rm: "remove_node h q x = (h1, q1)" and add: "add_last h q c = (h3, q3)"
  obtains h2 q2 where "remove_node h3 q3 x = (h2, q2)" "h2 x = h1 x"
    "\<And>v. add_last (h1(x := v)) q1 c = (h2(x := v), q2)" "tail_node q1 \<noteq> Some x"
proof -
  obtain h2 q2 where a: "add_last h1 q1 c = (h2, q2)" by fastforce
  have l: "queue_links h1 q1 (remove1 x xs)" by (rule remove_node_links [OF q x rm])
  have "x \<notin> set (remove1 x xs)" using q by (simp add: queue_links_distinct)
  with tail_member [OF l] have t: "tail_node q1 \<noteq> Some x" by blast
  have nx: "x \<noteq> c" using x c by blast
  show thesis
    by (rule that [of h2 q2])
      (use remove_node_add_last [OF q x c rm a add] add_last_upd [OF nx t a] t in simp_all)
qed

lemma rejoin_leave:
  assumes tn: "com_turn cn xs x t" and c: "c \<notin> set xs" and l: "l = clients (rejoin_com cn c) x"
  shows "leave_turn cb (rejoin_com cn c) x (relink_turn l t) = rejoin_com (leave_turn cb cn x t) c"
proof -
  have q: "queue_links (clients cn) (com_queue cn) xs" "x \<in> set xs" "same_links (clients cn x) (turn_client t)"
    using tn by (simp_all add: com_turn_def)
  obtain h3 q3 where a: "add_last (clients cn) (com_queue cn) c = (h3, q3)" by fastforce
  then have re: "rejoin_com cn c = cn\<lparr>clients := h3, com_queue := q3\<rparr>" and l3: "l = h3 x"
    using l by (simp_all add: rejoin_com_def)
  have links: "queue_links ((clients cn)(x := v)) (com_queue cn) xs" if "same_links (clients cn x) v" for v
    using q(1) that by (simp add: queue_links_upd same_links_def)
  show ?thesis
  proof (cases t)
    case (Stay cl)
    with add_last_payload [OF _ a, of x cl] q(3) show ?thesis by (simp add: re l3) (simp add: rejoin_com_def)
  next
    case (Close cl)
    let ?fd = "close_fd (socket_fd cl) (closed_fds cn)"
    let ?cl = "cl\<lparr>socket_fd := fst ?fd\<rparr>"
    have s: "same_links (clients cn x) ?cl" using q(3) Close by (simp add: same_links_def)
    obtain h1 q1 where r: "remove_node ((clients cn)(x := ?cl)) (com_queue cn) x = (h1, q1)" by fastforce
    from detach_rejoin [OF links [OF s] q(2) c r add_last_payload [OF s a]] obtain h2 q2 where
      "remove_node (h3(x := relink (h3 x) ?cl)) q3 x = (h2, q2)" "h2 x = h1 x"
      "\<And>v. add_last (h1(x := v)) q1 c = (h2(x := v), q2)" by blast
    with r Close show ?thesis
      by (simp add: re l3 close_connection_eq relink_upd) (simp add: rejoin_com_def)
  next
    case (Hand cl)
    have s: "same_links (clients cn x) cl" using q(3) Hand by simp
    obtain h1 q1 where r: "remove_node ((clients cn)(x := cl)) (com_queue cn) x = (h1, q1)" by fastforce
    from detach_rejoin [OF links [OF s] q(2) c r add_last_payload [OF s a]] obtain h2 q2 where
      "remove_node (h3(x := relink (h3 x) cl)) q3 x = (h2, q2)" "h2 x = h1 x"
      "\<And>v. add_last (h1(x := v)) q1 c = (h2(x := v), q2)" by blast
    with r Hand show ?thesis
      by (simp add: re l3 leave_com_def) (simp add: rejoin_com_def)
  qed
qed

lemma rejoin_join:
  assumes "x \<noteq> c" and "tail_node (com_queue cn) \<noteq> Some x" and "tail_node (action_queue cn) \<noteq> Some c"
    and "tail_node (com_queue cn) = None \<or> tail_node (com_queue cn) \<noteq> tail_node (action_queue cn)"
  shows "join_action (rejoin_com cn c) x = rejoin_com (join_action cn x) c"
proof -
  obtain h1 q1 where a: "add_last (clients cn) (com_queue cn) c = (h1, q1)" by fastforce
  obtain h2 p2 where b: "add_last h1 (action_queue cn) x = (h2, p2)" by fastforce
  obtain h3 p3 where d: "add_last (clients cn) (action_queue cn) x = (h3, p3)" by fastforce
  from add_last_twice [OF assms(1) [symmetric] assms(2,3,4) a b d] a b d show ?thesis
    by (simp add: join_action_def rejoin_com_def)
qed

lemma rejoin_turn:
  assumes tn: "com_turn cn xs x t" and q: "queue_links (clients cn) (action_queue cn) ys"
    and c: "c \<notin> set xs" "c \<notin> set ys" and disj: "set xs \<inter> set ys = {}"
    and l: "l = clients (rejoin_com cn c) x"
  shows "apply_turn cb (rejoin_com cn c) x (relink_turn l t) = rejoin_com (apply_turn cb cn x t) c"
proof (cases t)
  case (Hand cl)
  let ?G = "leave_turn cb cn x t"
  have w: "queue_links (clients cn) (com_queue cn) xs" "x \<in> set xs" "same_links (clients cn x) cl"
    using tn Hand by (simp_all add: com_turn_def)
  have nx: "x \<noteq> c" using w(2) c by auto
  have "queue_links ((clients cn)(x := cl)) (com_queue cn) xs" using w by (simp add: queue_links_upd same_links_def)
  from remove_node_links [OF this w(2)] have l1: "queue_links (fst r) (snd r) (remove1 x xs)"
    if "r = remove_node ((clients cn)(x := cl)) (com_queue cn) x" for r using that by (cases r) simp
  then have tail: "p \<in> set xs \<and> p \<noteq> x" if "tail_node (com_queue ?G) = Some p" for p
  proof -
    obtain h1 q1 where r: "remove_node ((clients cn)(x := cl)) (com_queue cn) x = (h1, q1)" by fastforce
    then have "com_queue ?G = q1" using Hand by (simp add: leave_com_def)
    with tail_member [OF l1 [OF refl, unfolded r], of p] that have "p \<in> set (remove1 x xs)" by simp
    then show ?thesis using queue_links_distinct [OF w(1)] by simp
  qed
  have "tail_node (action_queue ?G) \<noteq> Some p" if "p \<notin> set ys" for p
    using tail_member [OF q] that by (auto simp: leave_turn_action)
  then have "join_action (rejoin_com ?G c) x = rejoin_com (join_action ?G x) c"
    by (intro rejoin_join) (use nx c disj tail in fastforce)+
  with rejoin_leave [OF tn c(1) l, of cb] Hand show ?thesis by (simp add: apply_turn_def Let_def)
qed (use rejoin_leave [OF tn c(1) l, of cb] in \<open>simp_all add: apply_turn_def Let_def\<close>)

section \<open>What happens beside the pass\<close>

text \<open>The steps of workers and of the stop signal, without those that close a connection.\<close>

inductive move ::
  "'b char_buffer_ops \<Rightarrow> 'p plugin_env \<Rightarrow> fence_server \<Rightarrow> ('b, 'p) server_system \<Rightarrow>
   ('b, 'p) server_system \<Rightarrow> bool" for cb penv srv where
  take: "worker_take (conn s) = (Some c, cn') \<Longrightarrow>
     move cb penv srv s (s\<lparr>conn := cn', taken := insert c (taken s)\<rparr>)"
| execute: "c \<in> taken s \<Longrightarrow> worker_execute cb penv srv (conn s) c (plugin s) = Normal (cn', p') \<Longrightarrow>
     move cb penv srv s
       (s\<lparr>conn := cn', taken := taken s - {c}, executed := insert c (executed s), plugin := p'\<rparr>)"
| execute_throws: "c \<in> taken s \<Longrightarrow>
     worker_execute cb penv srv (conn s) c (plugin s) = Raised e (cn', p') \<Longrightarrow>
     move cb penv srv s (s\<lparr>conn := cn', taken := taken s - {c}, plugin := p'\<rparr>)"
| requeue: "c \<in> executed s \<Longrightarrow> current_phase (clients (conn s) c) \<in> {RECV, SEND} \<Longrightarrow>
     \<not> is_signaled (stop_signal (conn s)) \<Longrightarrow> writes_end rs \<Longrightarrow>
     wakeup_selector rs (rejoin_com (conn s) c) = Some cn' \<Longrightarrow>
     move cb penv srv s (s\<lparr>conn := cn', executed := executed s - {c}\<rparr>)"
| stop: "move cb penv srv s
     (s\<lparr>conn := (conn s)\<lparr>stop_signal := signal (stop_signal (conn s))\<rparr>\<rparr>)"

lemma finish_requeue:
  assumes "current_phase (clients cn c) \<in> {RECV, SEND}" and "\<not> is_signaled (stop_signal cn)"
  shows "worker_finish cb rs cn c = wakeup_selector rs (rejoin_com cn c)"
  using assms by (auto simp: worker_finish_def rejoin_com_def split: prod.splits)

lemma move_step: "move cb penv srv s s' \<Longrightarrow> server_step cb penv srv s s'"
proof (induction rule: move.induct)
  case (requeue c s rs cn')
  then show ?case by (intro server_step.finish) (simp_all add: finish_requeue)
qed (auto intro: server_step.intros)

lemma move_selected:
  assumes "move cb penv srv s s'"
  shows "move cb penv srv (s\<lparr>selected := x\<rparr>) (s'\<lparr>selected := x\<rparr>)"
  using assms
proof cases
  case (take c cn')
  with move.take [of "s\<lparr>selected := x\<rparr>" c cn'] show ?thesis by (cases s) simp
next
  case (execute c cn' p')
  with move.execute [of c "s\<lparr>selected := x\<rparr>" cb penv srv cn' p'] show ?thesis by (cases s) simp
next
  case (execute_throws c e cn' p')
  with move.execute_throws [of c "s\<lparr>selected := x\<rparr>" cb penv srv e cn' p'] show ?thesis by (cases s) simp
next
  case (requeue c rs cn')
  with move.requeue [of c "s\<lparr>selected := x\<rparr>" rs cn'] show ?thesis by (cases s) simp
next
  case stop
  with move.stop [of cb penv srv "s\<lparr>selected := x\<rparr>"] show ?thesis by (cases s) simp
qed

text \<open>The invariant in the middle of an iteration, when the ready sets are partly used up.\<close>

definition mid_inv ::
  "('b \<Rightarrow> nat) \<Rightarrow> ('b, 'p) server_system \<Rightarrow> nat list \<Rightarrow> nat list \<Rightarrow> nat set \<Rightarrow> nat set \<Rightarrow> bool" where
  "mid_inv cap s xs ys W L \<longleftrightarrow> system_inv cap (s\<lparr>selected := None\<rparr>) xs ys W L"

lemma mid_inv_lists:
  assumes "mid_inv cap s xs ys W L"
  shows "com_list (conn s) = xs" "action_list (conn s) = ys" "conn_inv cap L (conn s) xs ys W"
    "taken s \<union> executed s = W - L" "L \<subseteq> W" "taken s \<inter> executed s = {}"
    "\<forall>c \<in> executed s. answered (clients (conn s) c)"
  using assms system_inv_lost(2,3) [OF assms [unfolded mid_inv_def]]
  by (simp_all add: mid_inv_def system_inv_def)

lemma inv_mid: "system_inv cap s xs ys W L \<Longrightarrow> mid_inv cap s xs ys W L"
  by (simp add: mid_inv_def system_inv_def)

text \<open>What such a step leaves alone.\<close>

definition beside ::
  "('b, 'p) server_system \<Rightarrow> ('b, 'p) server_system \<Rightarrow> nat list \<Rightarrow> bool" where
  "beside s s' cs \<longleftrightarrow> com_list (conn s') = com_list (conn s) @ cs \<and> set cs \<subseteq> executed s \<and>
     (com_queue (conn s') = com_queue (conn s) \<longrightarrow> cs = []) \<and>
     (\<forall>x. socket_fd (clients (conn s') x) = socket_fd (clients (conn s) x)) \<and>
     (\<forall>x \<in> set (com_list (conn s)). link.more (clients (conn s') x) = link.more (clients (conn s) x)) \<and>
     set (action_list (conn s')) \<union> taken s' \<union> executed s' \<subseteq>
       set (action_list (conn s)) \<union> taken s \<union> executed s \<and>
     selected s' = selected s"

lemma wakeup_sel:
  assumes "wakeup_selector rs cn = Some cn'"
  shows "\<exists>p. cn' = cn\<lparr>trigger_pipe := p\<rparr>"
  using assms by (cases cn) (auto simp: wakeup_selector_def split: if_splits)

lemma size_inc_neq: "size_inc n \<noteq> n"
proof
  assume "size_inc n = n"
  then have "Suc n mod SIZE_MODULUS = n" by (simp add: size_inc_def)
  moreover from this have "n < SIZE_MODULUS" by (metis mod_less_divisor SIZE_MODULUS_def zero_less_numeral zero_less_power)
  ultimately show False by (cases "Suc n = SIZE_MODULUS") (auto simp: SIZE_MODULUS_def)
qed

lemma rejoin_queue: "com_queue (rejoin_com cn c) \<noteq> com_queue cn"
proof -
  have "q_size (com_queue (rejoin_com cn c)) = size_inc (q_size (com_queue cn))"
    by (simp add: rejoin_com_def add_last_def split: prod.splits option.splits)
  then show ?thesis using size_inc_neq by metis
qed

context char_buffer begin

lemma move_mid_inv:
  assumes "mid_inv cap s xs ys W L" and "table_complete (plugin_functions srv)" and "move cb penv srv s s'"
  shows "\<exists>xs' ys' W' L'. mid_inv cap s' xs' ys' W' L'"
  using server_step_inv [OF move_step [OF move_selected [OF assms(3)]] assms(2) assms(1) [unfolded mid_inv_def]]
  unfolding mid_inv_def by blast

lemma executed_client:
  assumes inv: "mid_inv cap s xs ys W L" and table: "table_complete (plugin_functions srv)" and c: "c \<in> taken s"
    and eq: "worker_execute cb penv srv (conn s) c (plugin s) \<in> {Normal (cn', p'), Raised e (cn', p')}"
  shows "\<exists>cl. cn' = set_client c cl (conn s) \<and> com_list cn' = com_list (conn s) \<and>
    action_list cn' = action_list (conn s) \<and> socket_fd cl = socket_fd (clients (conn s) c) \<and>
    c \<notin> set xs \<and> c \<notin> set ys"
proof -
  note m = mid_inv_lists [OF inv]
  have cW: "c \<in> W - L" using m(4) c by blast
  from worker_execute_inv [OF m(3) cW table, of penv "plugin s"] obtain cl p1 where
    "worker_execute cb penv srv (conn s) c (plugin s) \<in>
      {Normal (set_client c cl (conn s), p1), Raised RangeException (set_client c cl (conn s), p1)}"
    and i: "conn_inv cap L (set_client c cl (conn s)) xs ys W" "same_connection (clients (conn s) c) cl" by blast
  with eq have "cn' = set_client c cl (conn s)" by auto
  moreover have "c \<notin> set xs" "c \<notin> set ys" using m(3) cW by (auto simp: conn_inv_def conn_core_def)
  moreover have "socket_fd cl = socket_fd (clients (conn s) c)" using i(2) by (simp add: same_connection_def)
  ultimately show ?thesis using conn_inv_lists [OF i(1)] m(1,2) by metis
qed

lemma requeued_client:
  assumes inv: "mid_inv cap s xs ys W L" and c: "c \<in> executed s"
    and q: "current_phase (clients (conn s) c) \<in> {RECV, SEND}" "\<not> is_signaled (stop_signal (conn s))"
      "writes_end rs" "wakeup_selector rs (rejoin_com (conn s) c) = Some cn'"
  shows "com_list cn' = xs @ [c]" "action_list cn' = ys" "link.more (clients cn' x) = link.more (clients (conn s) x)"
    "client_pool cn' = client_pool (conn s)" "c \<notin> set xs" "c \<notin> set ys"
proof -
  note m = mid_inv_lists [OF inv]
  have cW: "c \<in> W - L" using m(4) c by blast
  have "reply_ready (clients (conn s) c)" using m(7) c q(1) by (auto simp: answered_def)
  from worker_requeue_inv [OF m(3) cW this q(2,3)] finish_requeue [OF q(1,2)] q(4)
  have w: "conn_inv cap L cn' (xs @ [c]) ys (W - {c})" "only_client c (conn s) cn'"
    "link.more (clients cn' c) = link.more (clients (conn s) c)" and pool: "client_pool cn' = client_pool (conn s)" by auto
  from conn_inv_lists [OF w(1)] show "com_list cn' = xs @ [c]" "action_list cn' = ys" .
  show "link.more (clients cn' x) = link.more (clients (conn s) x)" using w(2,3) by (cases "x = c") (simp_all add: only_client_def)
  show "client_pool cn' = client_pool (conn s)" by (rule pool)
  show "c \<notin> set xs" "c \<notin> set ys" using m(3) cW by (auto simp: conn_inv_def conn_core_def)
qed

lemma move_beside:
  assumes inv: "mid_inv cap s xs ys W L" and table: "table_complete (plugin_functions srv)"
    and mv: "move cb penv srv s s'"
  shows "\<exists>cs. beside s s' cs"
  using mv
proof cases
  case (take c cn')
  note m = mid_inv_lists [OF inv]
  obtain zs where ys: "ys = c # zs" and w: "conn_inv cap L cn' xs zs (insert c W)" "only_client c (conn s) cn'"
    "link.more (clients cn' c) = link.more (clients (conn s) c)"
    using worker_take_inv [OF m(3,5)] take(2) by (auto split: list.splits)
  have more: "link.more (clients cn' x) = link.more (clients (conn s) x)" for x
    using w(2,3) by (cases "x = c") (simp_all add: only_client_def)
  have "beside s s' []"
    unfolding beside_def take(1)
    using conn_inv_lists [OF w(1)] m(1,2) ys more state_more_cong(4) [OF more] by auto
  then show ?thesis ..
next
  case (execute c cn' p')
  from executed_client [OF inv table execute(2), of penv cn' p' BadAlloc] execute(3) obtain cl where
    "cn' = set_client c cl (conn s)" "com_list cn' = com_list (conn s)" "action_list cn' = action_list (conn s)"
    "socket_fd cl = socket_fd (clients (conn s) c)" "c \<notin> set xs" by blast
  then have "beside s s' []" unfolding beside_def execute(1) using mid_inv_lists(1) [OF inv] execute(2) by auto
  then show ?thesis ..
next
  case (execute_throws c e cn' p')
  from executed_client [OF inv table execute_throws(2), of penv cn' p' e] execute_throws(3) obtain cl where
    "cn' = set_client c cl (conn s)" "com_list cn' = com_list (conn s)" "action_list cn' = action_list (conn s)"
    "socket_fd cl = socket_fd (clients (conn s) c)" "c \<notin> set xs" by blast
  then have "beside s s' []" unfolding beside_def execute_throws(1) using mid_inv_lists(1) [OF inv] by auto
  then show ?thesis ..
next
  case (requeue c rs cn')
  note r = requeued_client [OF inv requeue(2-6)]
  obtain p where "cn' = (rejoin_com (conn s) c)\<lparr>trigger_pipe := p\<rparr>" using wakeup_sel [OF requeue(6)] by blast
  then have "com_queue cn' \<noteq> com_queue (conn s)" using rejoin_queue [of "conn s" c] by simp
  then have "beside s s' [c]"
    unfolding beside_def requeue(1)
    using r(1,2) mid_inv_lists(1,2) [OF inv] requeue(2) r(3) state_more_cong(4) [OF r(3)] by auto
  then show ?thesis ..
next
  case stop
  then have "beside s s' []" by (simp add: beside_def com_list_def action_list_def)
  then show ?thesis ..
qed

end

section \<open>A turn after a step beside it, and before\<close>

lemma apply_turn_frame:
  "apply_turn cb (cn\<lparr>stop_signal := sh\<rparr>) x t = (apply_turn cb cn x t)\<lparr>stop_signal := sh\<rparr>"
  "apply_turn cb (cn\<lparr>trigger_pipe := p\<rparr>) x t = (apply_turn cb cn x t)\<lparr>trigger_pipe := p\<rparr>"
  "stop_signal (apply_turn cb cn x t) = stop_signal cn"
  "trigger_pipe (apply_turn cb cn x t) = trigger_pipe cn"
  "trigger_write_fd (apply_turn cb cn x t) = trigger_write_fd cn"
  by (cases t; simp add: close_connection_eq leave_com_def join_action_def split: prod.splits)+

lemma rejoin_frame:
  "trigger_pipe (rejoin_com cn c) = trigger_pipe cn" "trigger_write_fd (rejoin_com cn c) = trigger_write_fd cn"
  by (simp_all add: rejoin_com_def split: prod.splits)

lemma conn_last:
  "s\<lparr>conn := a, taken := b\<rparr> = s\<lparr>taken := b, conn := a\<rparr>"
  "s\<lparr>conn := a, executed := b\<rparr> = s\<lparr>executed := b, conn := a\<rparr>"
  "s\<lparr>conn := a, plugin := p\<rparr> = s\<lparr>plugin := p, conn := a\<rparr>"
  for s :: "('b, 'p) server_system"
  by (cases s; simp)+

lemma worker_take_other:
  assumes "queue_links (clients cn) (action_queue cn) ys" and "worker_take cn = (r, cn')" and "x \<notin> set ys"
  shows "clients cn' x = clients cn x"
proof -
  obtain r' h q where rm: "remove_first (clients cn) (action_queue cn) = (r', h, q)" by (metis prod_cases3)
  with remove_first_frame [OF assms(1) rm assms(3)] assms(2) show ?thesis by (auto simp: worker_take_def)
qed

lemma worker_execute_same:
  assumes "clients cn1 c = clients cn c"
  shows "worker_execute cb penv srv cn1 c p =
    (case worker_execute cb penv srv cn c p of
       Normal (cn', p') \<Rightarrow> Normal (set_client c (clients cn' c) cn1, p')
     | Raised e (cn', p') \<Rightarrow> Raised e (set_client c (clients cn' c) cn1, p')
     | Undefined_Behaviour \<Rightarrow> Undefined_Behaviour)"
  using assms by (simp add: worker_execute_def split: outcome.splits prod.splits)

lemma wakeup_turn:
  assumes "wakeup_selector rs cn = Some cn'"
  shows "wakeup_selector rs (apply_turn cb cn x t) = Some (apply_turn cb cn' x t)"
  using assms by (auto simp: wakeup_selector_def apply_turn_frame split: if_splits)

lemma requeue_turn:
  assumes tn: "com_turn cn xs x t" and q: "queue_links (clients cn) (action_queue cn) ys"
    and c: "c \<notin> set xs" "c \<notin> set ys" and disj: "set xs \<inter> set ys = {}"
    and t: "turn_of env rd wr (clients cn x) = Some t"
    and w: "wakeup_selector rs (rejoin_com cn c) = Some cn'"
    and more: "\<And>x. link.more (clients cn' x) = link.more (clients cn x)"
  obtains cn2 where "client_io cb env rd wr cn' x = Some cn2"
    "wakeup_selector rs (rejoin_com (apply_turn cb cn x t) c) = Some cn2"
proof -
  let ?H = "rejoin_com cn c"
  let ?t = "relink_turn (clients ?H x) t"
  obtain p where p: "cn' = ?H\<lparr>trigger_pipe := p\<rparr>" using wakeup_sel [OF w] by blast
  have "link.more (clients ?H x) = link.more (clients cn x)" using more [of x] by (simp add: p)
  from turn_of_relink [of env rd wr "clients ?H x" "clients cn x", folded relink_more [OF this]] t
  have "turn_of env rd wr (clients cn' x) = Some ?t" by (simp add: p)
  then have "client_io cb env rd wr cn' x = Some (apply_turn cb cn' x ?t)" by (simp add: client_io_turn_of)
  moreover have "apply_turn cb ?H x ?t = rejoin_com (apply_turn cb cn x t) c"
    by (rule rejoin_turn [OF tn q c disj refl])
  ultimately show thesis using that wakeup_turn [OF w, of cb x ?t] by simp
qed

context char_buffer begin

lemma move_turn:
  assumes inv: "mid_inv cap s xs ys W L" and table: "table_complete (plugin_functions srv)"
    and mv: "move cb penv srv s s'" and x: "x \<in> set xs"
    and io: "client_io cb env rd wr (conn s) x = Some cn1"
  shows "\<exists>cn2. client_io cb env rd wr (conn s') x = Some cn2 \<and>
    move cb penv srv (s\<lparr>conn := cn1\<rparr>) (s'\<lparr>conn := cn2\<rparr>)"
proof -
  note m = mid_inv_lists [OF inv]
  have q: "queue_links (clients (conn s)) (com_queue (conn s)) xs"
    "queue_links (clients (conn s)) (action_queue (conn s)) ys" "set xs \<inter> set ys = {}"
    using m(3) by (simp_all add: conn_inv_def conn_core_def)
  obtain t where t: "turn_of env rd wr (clients (conn s) x) = Some t" and cn1: "cn1 = apply_turn cb (conn s) x t"
    using io by (auto simp: client_io_turn_of)
  have tn: "com_turn (conn s) xs x t" using q(1) x turn_of_links [OF t] by (simp add: com_turn_def)
  have same: "client_io cb env rd wr cn' x = Some (apply_turn cb cn' x t)" if "clients cn' x = clients (conn s) x" for cn'
    using t that by (simp add: client_io_turn_of)
  from mv show ?thesis
  proof cases
    case (take c cn')
    obtain zs where ys: "ys = c # zs" using worker_take_inv [OF m(3,5)] take(2) by (auto split: list.splits)
    note tt = take_turn(1) [OF tn q(2) [unfolded ys] q(3) [unfolded ys] take(2), of cb]
    have "clients cn' x = clients (conn s) x" by (rule worker_take_other [OF q(2) take(2)]) (use x q(3) in blast)
    from same [OF this] move.take [of "s\<lparr>conn := cn1\<rparr>" c "apply_turn cb cn' x t" cb penv srv] tt
    show ?thesis by (simp add: take(1) cn1 conn_last)
  next
    case (execute c cn' p')
    from executed_client [OF inv table execute(2), of penv cn' p' BadAlloc] execute(3) obtain cl where
      cl: "cn' = set_client c cl (conn s)" "c \<notin> set xs" "c \<notin> set ys" by blast
    have "worker_execute cb penv srv cn1 c (plugin s) = Normal (apply_turn cb cn' x t, p')"
      using execute(3) busy_turn(1) [OF tn q(2) cl(2,3)]
      by (simp add: cn1 cl(1) worker_execute_same [OF busy_turn(2) [OF tn q(2) cl(2,3), of cb]])
    moreover have "clients cn' x = clients (conn s) x" using cl x by auto
    ultimately show ?thesis
      using same [of cn'] move.execute [of c "s\<lparr>conn := cn1\<rparr>" cb penv srv "apply_turn cb cn' x t" p'] execute(2)
      by (simp add: execute(1) conn_last)
  next
    case (execute_throws c e cn' p')
    from executed_client [OF inv table execute_throws(2), of penv cn' p' e] execute_throws(3) obtain cl where
      cl: "cn' = set_client c cl (conn s)" "c \<notin> set xs" "c \<notin> set ys" by blast
    have "worker_execute cb penv srv cn1 c (plugin s) = Raised e (apply_turn cb cn' x t, p')"
      using execute_throws(3) busy_turn(1) [OF tn q(2) cl(2,3)]
      by (simp add: cn1 cl(1) worker_execute_same [OF busy_turn(2) [OF tn q(2) cl(2,3), of cb]])
    moreover have "clients cn' x = clients (conn s) x" using cl x by auto
    ultimately show ?thesis
      using same [of cn'] move.execute_throws [of c "s\<lparr>conn := cn1\<rparr>" cb penv srv e "apply_turn cb cn' x t" p']
        execute_throws(2)
      by (simp add: execute_throws(1) conn_last)
  next
    case (requeue c rs cn')
    have c: "c \<notin> set xs" "c \<notin> set ys" by (rule requeued_client [OF inv requeue(2-6)])+
    obtain cn2 where r: "client_io cb env rd wr cn' x = Some cn2" "wakeup_selector rs (rejoin_com cn1 c) = Some cn2"
      unfolding cn1 by (rule requeue_turn [OF tn q(2) c q(3) t requeue(6) requeued_client(3) [OF inv requeue(2-6)]])
    have "clients cn1 c = clients (conn s) c" unfolding cn1 by (rule busy_turn(2) [OF tn q(2) c])
    then have "move cb penv srv (s\<lparr>conn := cn1\<rparr>)
        ((s\<lparr>conn := cn1\<rparr>)\<lparr>conn := cn2, executed := executed (s\<lparr>conn := cn1\<rparr>) - {c}\<rparr>)"
      by (intro move.requeue [OF _ _ _ requeue(5)]) (use requeue(2-4) r(2) in \<open>simp_all add: cn1 apply_turn_frame\<close>)
    with r(1) show ?thesis by (simp add: requeue(1) conn_last)
  next
    case stop
    let ?sh = "signal (stop_signal (conn s))"
    have "client_io cb env rd wr (conn s') x = Some (cn1\<lparr>stop_signal := ?sh\<rparr>)"
      using same [of "(conn s)\<lparr>stop_signal := ?sh\<rparr>"] by (simp add: stop cn1 apply_turn_frame)
    with move.stop [of cb penv srv "s\<lparr>conn := cn1\<rparr>"] show ?thesis by (simp add: stop cn1 apply_turn_frame conn_last)
  qed
qed

end

text \<open>Any number of steps beside a turn.\<close>

abbreviation moves ::
  "'b char_buffer_ops \<Rightarrow> 'p plugin_env \<Rightarrow> fence_server \<Rightarrow> ('b, 'p) server_system \<Rightarrow>
   ('b, 'p) server_system \<Rightarrow> bool" where
  "moves cb penv srv \<equiv> (move cb penv srv)\<^sup>*\<^sup>*"

lemma moves_run: "moves cb penv srv s s' \<Longrightarrow>
  (server_step cb penv srv)\<^sup>*\<^sup>* (s\<lparr>selected := x\<rparr>) (s'\<lparr>selected := x\<rparr>)"
proof (induction rule: rtranclp_induct)
  case (step s1 s2)
  from step.IH move_step [OF move_selected [OF step.hyps(2)]] show ?case by (rule rtranclp.rtrancl_into_rtrancl)
qed simp

context char_buffer begin

lemma moves_mid_inv:
  assumes "moves cb penv srv s s'" and "mid_inv cap s xs ys W L" and "table_complete (plugin_functions srv)"
  shows "\<exists>xs' ys' W' L'. mid_inv cap s' xs' ys' W' L'"
  using assms
proof (induction rule: rtranclp_induct)
  case (step s1 s2)
  then obtain xs ys W L where "mid_inv cap s1 xs ys W L" by blast
  from move_mid_inv [OF this step.prems(2) step.hyps(2)] show ?case .
qed blast

lemma moves_beside:
  assumes "moves cb penv srv s s'" and "mid_inv cap s xs ys W L" and "table_complete (plugin_functions srv)"
  shows "(\<exists>cs. com_list (conn s') = com_list (conn s) @ cs) \<and> selected s' = selected s \<and>
    (\<forall>x. socket_fd (clients (conn s') x) = socket_fd (clients (conn s) x)) \<and>
    (\<forall>x \<in> set (com_list (conn s)). link.more (clients (conn s') x) = link.more (clients (conn s) x))"
  using assms
proof (induction rule: rtranclp_induct)
  case (step s1 s2)
  from moves_mid_inv [OF step.hyps(1) step.prems] obtain xs' ys' W' L' where "mid_inv cap s1 xs' ys' W' L'" by blast
  from move_beside [OF this step.prems(2) step.hyps(2)] step.IH [OF step.prems] show ?case
    by (auto simp: beside_def)
qed simp

lemma moves_turn:
  assumes "moves cb penv srv s s'" and "mid_inv cap s xs ys W L" and "table_complete (plugin_functions srv)"
    and "x \<in> set xs" and "client_io cb env rd wr (conn s) x = Some cn1"
  shows "\<exists>cn2. client_io cb env rd wr (conn s') x = Some cn2 \<and>
    moves cb penv srv (s\<lparr>conn := cn1\<rparr>) (s'\<lparr>conn := cn2\<rparr>)"
  using assms
proof (induction rule: rtranclp_induct)
  case (step s1 s2)
  from moves_mid_inv [OF step.hyps(1) step.prems(1,2)] obtain xs' ys' W' L' where m: "mid_inv cap s1 xs' ys' W' L'" by blast
  have "x \<in> set xs'"
    using moves_beside [OF step.hyps(1) step.prems(1,2)] step.prems(3) mid_inv_lists(1) [OF m]
      mid_inv_lists(1) [OF step.prems(1)] by auto
  from step.IH [OF step.prems] move_turn [OF m step.prems(2) step.hyps(2) this] show ?case
    by (meson rtranclp.rtrancl_into_rtrancl)
qed auto

text \<open>The steps beside a turn are those that close nothing.\<close>

lemma step_move:
  assumes inv: "mid_inv cap s xs ys W L" and step: "server_step cb penv srv s s'"
    and sel: "selected s' = selected s" "selected s = Some r"
    and quiet: "client_pool (conn s') = client_pool (conn s) \<or> com_queue (conn s') = com_queue (conn s)"
  shows "move cb penv srv s s'"
  using step
proof cases
  case (finish c rs cn')
  note m = mid_inv_lists [OF inv]
  have cW: "c \<in> W - L" "c \<in> W" using m(4) finish(2) by blast+
  have det: "detached (clients (conn s) c)" using m(3) cW by (simp add: conn_inv_def busy_client_def)
  have "size_dec n \<noteq> n" for n by (cases n) (simp_all add: size_dec_def size_sub_def SIZE_MODULUS_def)
  then have q: "com_queue (close_connection cb (conn s) c) \<noteq> com_queue (conn s)"
    by (auto simp: close_detached [OF det] node_queue.splits split: prod.splits) (metis node_queue.select_convs(1) node_queue.surjective node_queue.update_convs(1,2,3))
  have "used_objects (client_pool (close_connection cb (conn s) c)) \<noteq> used_objects (client_pool (conn s))"
    using worker_close_inv(4) [OF m(3) cW(1) m(5)] m(3) cW(2) by (auto simp: conn_inv_def conn_core_def)
  with q quiet have "cn' \<noteq> close_connection cb (conn s) c" by (auto simp: finish(1))
  with finish(4) have "current_phase (clients (conn s) c) \<in> {RECV, SEND}" "\<not> is_signaled (stop_signal (conn s))"
    by (auto simp: worker_finish_def split: if_splits)
  with finish move.requeue finish_requeue show ?thesis by metis
qed (use sel in \<open>auto intro: move.intros\<close>)

end

section \<open>Steps at the granularity of the locks\<close>

text \<open>
  Where the selector thread is: between two iterations or waiting for \<open>select\<close>; after the
  pending connection and the trigger pipe, without \<open>com_queue_lock\<close>; in the pass, holding it,
  with the client whose turn is next.
\<close>

datatype stage = Between | Drained iteration | Passing iteration "nat option"

text \<open>
  A client's turn is one step, since the selector owns the client and, by the lock, the com queue,
  and enters the action queue with its last operation. The pending connection and the trigger
  pipe are one step as well. Workers and the stop signal take their steps in between: any
  step before the connection is accepted; then those that close no connection; and once the
  pass holds \<open>com_queue_lock\<close>, those that do not need it. What a worker does when it closes a
  connection in the middle of an iteration is left out: most of the time it takes no lock, which
  is a data race with the pass, and it empties the com queue.
\<close>

inductive lock_step ::
  "'b char_buffer_ops \<Rightarrow> 'p plugin_env \<Rightarrow> fence_server \<Rightarrow> stage \<times> ('b, 'p) server_system \<Rightarrow>
   stage \<times> ('b, 'p) server_system \<Rightarrow> bool" for cb penv srv where
  outside: "server_step cb penv srv s s' \<Longrightarrow> selected s' = selected s \<or> selected s = None \<Longrightarrow>
     lock_step cb penv srv (Between, s) (Between, s')"
| accept: "selected s = Some (rd, wr) \<Longrightarrow> env_ok (os_env.truncate it) \<Longrightarrow>
     accepted_ok (conn s) (used_objects (client_pool (conn s))) (os_accept it) \<Longrightarrow>
     lock_step cb penv srv (Between, s)
       (Drained it, s\<lparr>conn := draining rd (accepting cb it rd (conn s))\<rparr>)"
| aside: "server_step cb penv srv s s' \<Longrightarrow> selected s' = selected s \<Longrightarrow>
     client_pool (conn s') = client_pool (conn s) \<Longrightarrow>
     lock_step cb penv srv (Drained it, s) (Drained it, s')"
| lock: "lock_step cb penv srv (Drained it, s) (Passing it (get_first (com_queue (conn s))), s)"
| within: "server_step cb penv srv s s' \<Longrightarrow> selected s' = selected s \<Longrightarrow>
     com_queue (conn s') = com_queue (conn s) \<Longrightarrow>
     lock_step cb penv srv (Passing it p, s) (Passing it p, s')"
| turn: "selected s = Some (rd, wr) \<Longrightarrow>
     client_io cb (os_env.truncate it) rd wr (conn s) c = Some cn' \<Longrightarrow>
     lock_step cb penv srv (Passing it (Some c), s)
       (Passing it (get_next_node (clients (conn s)) c), s\<lparr>conn := cn'\<rparr>)"
| unlock: "lock_step cb penv srv (Passing it None, s) (Between, s\<lparr>selected := None\<rparr>)"

text \<open>
  The state \<open>F\<close> in the middle of an iteration and the state \<open>G\<close> in which nothing has happened
  beside the turns so far; \<open>rest\<close> are the clients of \<open>G\<close> that still have theirs.
\<close>

definition ahead ::
  "('b \<Rightarrow> nat) \<Rightarrow> 'b char_buffer_ops \<Rightarrow> 'p plugin_env \<Rightarrow> fence_server \<Rightarrow> ('b, 'p) server_system \<Rightarrow>
   iteration \<Rightarrow> fd_set \<Rightarrow> fd_set \<Rightarrow> nat list \<Rightarrow> ('b, 'p) server_system \<Rightarrow> ('b, 'p) server_system \<Rightarrow> bool" where
  "ahead cap cb penv srv s0 it rd wr rest G F \<longleftrightarrow>
     (\<exists>s1. (server_step cb penv srv)\<^sup>*\<^sup>* s0 s1 \<and> selected s1 = Some (rd, wr) \<and> env_ok (os_env.truncate it) \<and>
        accepted_ok (conn s1) (used_objects (client_pool (conn s1))) (os_accept it) \<and>
        G = s1\<lparr>conn := conn G\<rparr> \<and>
        after_select cb it rd wr (conn s1) =
          io_walk cb (os_env.truncate it) rd wr (conn G) (first_or None rest)) \<and>
     (\<exists>xs ys W L. mid_inv cap G xs ys W L) \<and> (\<exists>as. com_list (conn G) = as @ rest) \<and>
     sets_match (conn G) rest rd wr \<and> moves cb penv srv G F"

definition idle_fds :: "('b, 'p) server_system \<Rightarrow> fd_set \<Rightarrow> fd_set \<Rightarrow> nat set \<Rightarrow> bool" where
  "idle_fds s rd wr C \<longleftrightarrow> (\<forall>c \<in> C. socket_fd (clients (conn s) c) \<notin> rd \<union> wr)"

fun follows ::
  "('b \<Rightarrow> nat) \<Rightarrow> 'b char_buffer_ops \<Rightarrow> 'p plugin_env \<Rightarrow> fence_server \<Rightarrow> ('b, 'p) server_system \<Rightarrow>
   stage \<times> ('b, 'p) server_system \<Rightarrow> bool" where
  "follows cap cb penv srv s0 (Between, F) = (server_step cb penv srv)\<^sup>*\<^sup>* s0 F"
| "follows cap cb penv srv s0 (Drained it, F) =
     (\<exists>rd wr rest G cs. ahead cap cb penv srv s0 it rd wr rest G F \<and> com_list (conn F) = rest @ cs \<and>
        idle_fds F rd wr (set (action_list (conn F)) \<union> taken F \<union> executed F \<union> set cs))"
| "follows cap cb penv srv s0 (Passing it p, F) =
     (\<exists>rd wr rest G as cs. ahead cap cb penv srv s0 it rd wr rest G F \<and>
        com_list (conn F) = as @ rest @ cs \<and> p = first_or None (rest @ cs) \<and> idle_fds F rd wr (set cs))"

lemma follows_DrainedI:
  assumes "ahead cap cb penv srv s0 it rd wr rest G F" and "com_list (conn F) = rest @ cs"
    and "idle_fds F rd wr (set (action_list (conn F)) \<union> taken F \<union> executed F \<union> set cs)"
  shows "follows cap cb penv srv s0 (Drained it, F)"
  unfolding follows.simps using assms by blast

lemma follows_PassingI:
  assumes "ahead cap cb penv srv s0 it rd wr rest G F" and "com_list (conn F) = as @ rest @ cs"
    and "p = first_or None (rest @ cs)" and "idle_fds F rd wr (set cs)"
  shows "follows cap cb penv srv s0 (Passing it p, F)"
  unfolding follows.simps using assms by blast

lemma ahead_move:
  assumes "ahead cap cb penv srv s0 it rd wr rest G F" and "move cb penv srv F F'"
  shows "ahead cap cb penv srv s0 it rd wr rest G F'"
  using assms unfolding ahead_def by (meson rtranclp.rtrancl_into_rtrancl)

context char_buffer begin

lemma ahead_mid:
  assumes a: "ahead cap cb penv srv s0 it rd wr rest G F" and table: "table_complete (plugin_functions srv)"
  obtains xs ys W L where "mid_inv cap F xs ys W L" "selected F = Some (rd, wr)"
proof -
  from a obtain s1 xs ys W L where g: "mid_inv cap G xs ys W L" "moves cb penv srv G F"
    "selected s1 = Some (rd, wr)" "G = s1\<lparr>conn := conn G\<rparr>" unfolding ahead_def by blast
  have "selected G = selected s1" by (subst g(4)) simp
  with moves_beside [OF g(2,1) table] moves_mid_inv [OF g(2,1) table] g(3) that show thesis by auto
qed

lemma follows_aside:
  assumes f: "follows cap cb penv srv s0 (Drained it, F)" and table: "table_complete (plugin_functions srv)"
    and step: "server_step cb penv srv F F'" "selected F' = selected F"
      "client_pool (conn F') = client_pool (conn F)"
  shows "follows cap cb penv srv s0 (Drained it, F')"
proof -
  from f obtain rd wr rest G cs where a: "ahead cap cb penv srv s0 it rd wr rest G F"
    and l: "com_list (conn F) = rest @ cs"
    and i: "idle_fds F rd wr (set (action_list (conn F)) \<union> taken F \<union> executed F \<union> set cs)" by auto
  obtain xs ys W L where m: "mid_inv cap F xs ys W L" "selected F = Some (rd, wr)" by (rule ahead_mid [OF a table])
  have mv: "move cb penv srv F F'" by (rule step_move [OF m(1) step(1,2) m(2)]) (simp add: step(3))
  from move_beside [OF m(1) table mv] obtain ds where b: "beside F F' ds" by blast
  have "com_list (conn F') = rest @ (cs @ ds)" using b l by (simp add: beside_def)
  moreover have "idle_fds F' rd wr (set (action_list (conn F')) \<union> taken F' \<union> executed F' \<union> set (cs @ ds))"
    using i b unfolding idle_fds_def beside_def by (simp add: ball_Un) blast
  ultimately show ?thesis by (rule follows_DrainedI [OF ahead_move [OF a mv]])
qed

lemma follows_within:
  assumes f: "follows cap cb penv srv s0 (Passing it p, F)" and table: "table_complete (plugin_functions srv)"
    and step: "server_step cb penv srv F F'" "selected F' = selected F"
      "com_queue (conn F') = com_queue (conn F)"
  shows "follows cap cb penv srv s0 (Passing it p, F')"
proof -
  from f obtain rd wr rest G as cs where a: "ahead cap cb penv srv s0 it rd wr rest G F"
    and l: "com_list (conn F) = as @ rest @ cs" "p = first_or None (rest @ cs)" "idle_fds F rd wr (set cs)" by auto
  obtain xs ys W L where m: "mid_inv cap F xs ys W L" "selected F = Some (rd, wr)" by (rule ahead_mid [OF a table])
  have mv: "move cb penv srv F F'" by (rule step_move [OF m(1) step(1,2) m(2)]) (simp add: step(3))
  from move_beside [OF m(1) table mv] obtain ds where b: "beside F F' ds" by blast
  have "com_list (conn F') = as @ rest @ cs" "idle_fds F' rd wr (set cs)"
    using b l step(3) by (simp_all add: beside_def idle_fds_def)
  with l(2) show ?thesis by (intro follows_PassingI [OF ahead_move [OF a mv]])
qed

lemma follows_accept:
  assumes run: "(server_step cb penv srv)\<^sup>*\<^sup>* s0 s" and inv: "system_inv cap s xs ys W L"
    and sel: "selected s = Some (rd, wr)" and it: "env_ok (os_env.truncate it)"
      "accepted_ok (conn s) (used_objects (client_pool (conn s))) (os_accept it)"
  shows "follows cap cb penv srv s0 (Drained it, s\<lparr>conn := draining rd (accepting cb it rd (conn s))\<rparr>)"
proof -
  define cn2 where "cn2 = draining rd (accepting cb it rd (conn s))"
  have so: "selected_ok (conn s) xs ys W L rd wr" and te: "taken s \<union> executed s = W - L" "L \<subseteq> W"
    using inv sel by (simp_all add: system_inv_def)
  obtain new where
    cn2: "conn_inv cap L cn2 (xs @ new) ys W" "fds_ok cn2 (set (xs @ new) \<union> set ys \<union> W)"
      "sets_match cn2 (xs @ new) rd wr" "set new \<inter> (set xs \<union> set ys \<union> W) = {}"
    and old: "\<forall>x. x \<notin> set new \<longrightarrow> link.more (clients cn2 x) = link.more (clients (conn s) x)"
    and pass: "after_select cb it rd wr (conn s) = io_pass cb (os_env.truncate it) rd wr cn2"
    by (rule serve_accepts [OF inv sel it(2) cn2_def]) blast
  have more: "link.more (clients cn2 x) = link.more (clients (conn s) x)" if "x \<in> set ys \<union> W" for x
    using old cn2(4) that by blast
  have ans: "\<forall>e \<in> executed s. answered (clients cn2 e)"
  proof
    fix e assume e: "e \<in> executed s"
    then have "e \<in> set ys \<union> W" using te by blast
    from answered_more [OF more [OF this]] inv e show "answered (clients cn2 e)" by (simp add: system_inv_def)
  qed
  have lists: "com_list cn2 = xs @ new" "action_list cn2 = ys" by (rule conn_inv_lists [OF cn2(1)])+
  let ?F = "s\<lparr>conn := cn2\<rparr>"
  have mid: "mid_inv cap ?F (xs @ new) ys W L"
    using cn2(1,2) ans inv by (simp add: mid_inv_def system_inv_def)
  have "get_first (com_queue cn2) = first_or None (xs @ new)"
    using cn2(1) unfolding conn_inv_def conn_core_def queue_links_def get_first_def by blast
  then have walk: "after_select cb it rd wr (conn s) = io_walk cb (os_env.truncate it) rd wr cn2 (first_or None (xs @ new))"
    unfolding pass io_pass_def by simp
  have "ahead cap cb penv srv s0 it rd wr (xs @ new) ?F ?F"
    unfolding ahead_def
  proof (intro conjI exI)
    show "(server_step cb penv srv)\<^sup>*\<^sup>* s0 s" by (fact run)
    show "mid_inv cap ?F (xs @ new) ys W L" by (fact mid)
    show "com_list (conn ?F) = [] @ (xs @ new)" by (simp add: lists)
  qed (use sel it walk cn2(3) in simp_all)
  moreover have "idle_fds ?F rd wr (set ys \<union> taken s \<union> executed s \<union> set [])"
    unfolding idle_fds_def
  proof
    fix y assume "y \<in> set ys \<union> taken s \<union> executed s \<union> set []"
    then have y: "y \<in> set ys \<union> (W - L)" using te(1) by auto
    then have "socket_fd (clients cn2 y) = socket_fd (clients (conn s) y)"
      by (intro state_more_cong(4) more) auto
    with so y show "socket_fd (clients (conn ?F) y) \<notin> rd \<union> wr" by (simp add: selected_ok_def)
  qed
  ultimately have "follows cap cb penv srv s0 (Drained it, ?F)"
    using lists by (intro follows_DrainedI [where cs = "[]"]) simp_all
  then show ?thesis by (simp add: cn2_def)
qed

lemma follows_lock:
  assumes f: "follows cap cb penv srv s0 (Drained it, F)" and table: "table_complete (plugin_functions srv)"
  shows "follows cap cb penv srv s0 (Passing it (get_first (com_queue (conn F))), F)"
proof -
  from f obtain rd wr rest G cs where a: "ahead cap cb penv srv s0 it rd wr rest G F"
    and l: "com_list (conn F) = rest @ cs"
    and i: "idle_fds F rd wr (set (action_list (conn F)) \<union> taken F \<union> executed F \<union> set cs)" by auto
  obtain xs ys W L where m: "mid_inv cap F xs ys W L" by (rule ahead_mid [OF a table])
  have "get_first (com_queue (conn F)) = first_or None (com_list (conn F))"
    using mid_inv_lists(1,3) [OF m] by (simp add: conn_inv_def conn_core_def queue_links_def get_first_def)
  moreover have "idle_fds F rd wr (set cs)" using i by (simp add: idle_fds_def)
  moreover have "com_list (conn F) = [] @ rest @ cs" using l by simp
  ultimately show ?thesis by (intro follows_PassingI [OF a, of "[]" cs]) (use l in simp_all)
qed

lemma turn_mid_inv:
  assumes m: "mid_inv cap s xs ys W L" and x: "x \<in> set xs"
    and i: "conn_inv cap L cn' xs' ys' W" "turn_result x xs ys xs' ys'" "only_client x (conn s) cn'" "keeps_fd x (conn s) cn'"
  shows "mid_inv cap (s\<lparr>conn := cn'\<rparr>) xs' ys' W L"
proof -
  note l = mid_inv_lists [OF m]
  have f: "fds_ok (conn s) (set xs \<union> set ys \<union> W)" using m by (simp add: mid_inv_def system_inv_def)
  have disj: "(set xs \<union> set ys) \<inter> W = {}" using l(3) by (simp add: conn_inv_def conn_core_def)
  have "fds_ok cn' (set xs' \<union> set ys' \<union> W)"
    by (rule fds_ok_pass [OF f turn_pass_result [OF l(3) i(1) x i(2-4)] disj])
  moreover have "answered (clients cn' e)" if "e \<in> executed s" for e
  proof -
    have "e \<noteq> x" using that l(4) disj x by blast
    then have "link.more (clients cn' e) = link.more (clients (conn s) e)" using i(3) by (simp add: only_client_def)
    from answered_more [OF this] l(7) that show ?thesis by simp
  qed
  ultimately show ?thesis using i(1) l(4,5,6) by (simp add: mid_inv_def system_inv_def)
qed

lemma com_split:
  assumes "mid_inv cap s xs ys W L" and "com_list (conn s) = as @ x # bs"
  shows "get_next_node (clients (conn s)) x = first_or None bs" "x \<notin> set as" "x \<notin> set bs" "x \<in> set xs"
proof -
  have "queue_links (clients (conn s)) (com_queue (conn s)) (as @ x # bs)"
    using mid_inv_lists(1,3) [OF assms(1)] assms(2) by (simp add: conn_inv_def conn_core_def)
  then show "get_next_node (clients (conn s)) x = first_or None bs" "x \<notin> set as" "x \<notin> set bs"
    by (auto simp: queue_links_def get_next_node_def)
  show "x \<in> set xs" using mid_inv_lists(1) [OF assms(1)] assms(2) by auto
qed

lemma turn_keeps_rest:
  assumes "turn_result x (as @ x # bs) ys xs' ys'" and "x \<notin> set as"
  shows "\<exists>as'. xs' = as' @ bs"
  using assms by (auto simp: turn_result_def remove1_append)

lemma ahead_turn:
  assumes a: "ahead cap cb penv srv s0 it rd wr (c # rest) G F" and table: "table_complete (plugin_functions srv)"
    and io: "client_io cb (os_env.truncate it) rd wr (conn F) c = r"
  shows "\<exists>cn' G'. r = Some cn' \<and> ahead cap cb penv srv s0 it rd wr rest G' (F\<lparr>conn := cn'\<rparr>)"
    "env_ok (os_env.truncate it)" "sets_match (conn F) [c] rd wr"
proof -
  from a obtain s1 xs ys W L as where run: "(server_step cb penv srv)\<^sup>*\<^sup>* s0 s1" "selected s1 = Some (rd, wr)"
      "env_ok (os_env.truncate it)" "accepted_ok (conn s1) (used_objects (client_pool (conn s1))) (os_accept it)"
      "G = s1\<lparr>conn := conn G\<rparr>"
      "after_select cb it rd wr (conn s1) = io_walk cb (os_env.truncate it) rd wr (conn G) (first_or None (c # rest))"
    and g: "mid_inv cap G xs ys W L" "com_list (conn G) = as @ c # rest" "sets_match (conn G) (c # rest) rd wr"
      "moves cb penv srv G F"
    unfolding ahead_def by blast
  show "env_ok (os_env.truncate it)" by (rule run(3))
  note sp = com_split [OF g(1,2)]
  have xs: "xs = as @ c # rest" using mid_inv_lists(1) [OF g(1)] g(2) by simp
  have "link.more (clients (conn F) c) = link.more (clients (conn G) c)"
    using moves_beside [OF g(4,1) table] g(2) by auto
  from state_more_cong(4,5) [OF this] g(3) show "sets_match (conn F) [c] rd wr" by (simp add: sets_match_def)
  from client_io_turn [OF mid_inv_lists(3) [OF g(1)] sp(4) run(3) g(3)] obtain cn1 xs1 ys1 where
    t: "client_io cb (os_env.truncate it) rd wr (conn G) c = Some cn1" "conn_inv cap L cn1 xs1 ys1 W"
      "turn_result c xs ys xs1 ys1" "only_client c (conn G) cn1" "keeps_fd c (conn G) cn1" by blast
  from moves_turn [OF g(4,1) table sp(4) t(1)] io obtain cn' where
    mv: "r = Some cn'" "moves cb penv srv (G\<lparr>conn := cn1\<rparr>) (F\<lparr>conn := cn'\<rparr>)" by auto
  have walk: "after_select cb it rd wr (conn s1) = io_walk cb (os_env.truncate it) rd wr cn1 (first_or None rest)"
    unfolding run(6) using t(1) sp(1) by (subst io_walk.simps) simp
  obtain as1 where as1: "xs1 = as1 @ rest" using turn_keeps_rest [OF t(3) [unfolded xs] sp(2)] by blast
  have "ahead cap cb penv srv s0 it rd wr rest (G\<lparr>conn := cn1\<rparr>) (F\<lparr>conn := cn'\<rparr>)"
    unfolding ahead_def
  proof (intro conjI exI)
    show "(server_step cb penv srv)\<^sup>*\<^sup>* s0 s1" by (fact run)
    show "mid_inv cap (G\<lparr>conn := cn1\<rparr>) xs1 ys1 W L" by (rule turn_mid_inv [OF g(1) sp(4) t(2-5)])
    show "G\<lparr>conn := cn1\<rparr> = s1\<lparr>conn := conn (G\<lparr>conn := cn1\<rparr>)\<rparr>" by (subst run(5)) simp
    show "com_list (conn (G\<lparr>conn := cn1\<rparr>)) = as1 @ rest" using conn_inv_lists(1) [OF t(2)] as1 by simp
    show "sets_match (conn (G\<lparr>conn := cn1\<rparr>)) rest rd wr" using sets_match_turn [OF g(3) t(4) sp(3)] by simp
  qed (use run walk mv in simp_all)
  with mv(1) show "\<exists>cn' G'. r = Some cn' \<and> ahead cap cb penv srv s0 it rd wr rest G' (F\<lparr>conn := cn'\<rparr>)" by blast
qed

text \<open>A client that a worker gave back after the accept is in no ready set.\<close>

lemma idle_turn_skips:
  assumes m: "mid_inv cap F xs ys W L" and c: "c \<in> set xs" and i: "socket_fd (clients (conn F) c) \<notin> rd \<union> wr"
  shows "client_io cb env rd wr (conn F) c = Some (conn F)"
proof -
  have "com_client (clients (conn F) c)" using mid_inv_lists(3) [OF m] c by (simp add: conn_inv_def)
  with i show ?thesis
    by (auto simp: client_io_def Let_def FD_ISSET_def com_client_def reading_def writing_def)
qed

lemma follows_turn:
  assumes f: "follows cap cb penv srv s0 (Passing it (Some c), F)" and table: "table_complete (plugin_functions srv)"
    and sel: "selected F = Some (rd, wr)"
  shows "\<exists>cn'. client_io cb (os_env.truncate it) rd wr (conn F) c = Some cn' \<and>
    follows cap cb penv srv s0 (Passing it (get_next_node (clients (conn F)) c), F\<lparr>conn := cn'\<rparr>)"
proof -
  from f obtain rd' wr' rest G as cs where a: "ahead cap cb penv srv s0 it rd' wr' rest G F"
    and l: "com_list (conn F) = as @ rest @ cs" "Some c = first_or None (rest @ cs)" "idle_fds F rd' wr' (set cs)" by auto
  obtain xs ys W L where m: "mid_inv cap F xs ys W L" "selected F = Some (rd', wr')" by (rule ahead_mid [OF a table])
  have rw: "rd' = rd" "wr' = wr" using m(2) sel by simp_all
  show ?thesis
  proof (cases rest)
    case Nil
    then obtain cs' where cs: "cs = c # cs'" using l(2) by (cases cs) auto
    have l': "com_list (conn F) = as @ c # cs'" using l(1) Nil cs by simp
    note sp = com_split [OF m(1) l']
    from idle_turn_skips [OF m(1) sp(4)] l(3) cs rw have "client_io cb (os_env.truncate it) rd wr (conn F) c = Some (conn F)"
      by (simp add: idle_fds_def)
    moreover have "follows cap cb penv srv s0 (Passing it (get_next_node (clients (conn F)) c), F)"
      by (rule follows_PassingI [OF a, of "as @ [c]" cs']) (use l' l(3) Nil sp(1) cs in \<open>simp_all add: idle_fds_def\<close>)
    ultimately show ?thesis by (intro exI [of _ "conn F"]) simp
  next
    case (Cons x rest')
    then have rest: "rest = c # rest'" using l(2) by simp
    note at = ahead_turn [OF a [unfolded rest rw] table]
    from at(1) [OF refl] obtain cn' G' where io: "client_io cb (os_env.truncate it) rd wr (conn F) c = Some cn'"
      and ah: "ahead cap cb penv srv s0 it rd wr rest' G' (F\<lparr>conn := cn'\<rparr>)" by blast
    have lf: "com_list (conn F) = as @ c # (rest' @ cs)" using l(1) rest by simp
    note sp = com_split [OF m(1) lf]
    have xs: "xs = as @ c # (rest' @ cs)" using mid_inv_lists(1) [OF m(1)] lf by simp
    from client_io_turn [OF mid_inv_lists(3) [OF m(1)] sp(4) at(2,3) [OF refl]] io obtain xs2 ys2 where
      t: "conn_inv cap L cn' xs2 ys2 W" "turn_result c xs ys xs2 ys2" "only_client c (conn F) cn'" by auto
    from turn_keeps_rest [OF t(2) [unfolded xs] sp(2)] obtain as2 where "xs2 = as2 @ rest' @ cs" by blast
    then have lf': "com_list (conn (F\<lparr>conn := cn'\<rparr>)) = as2 @ rest' @ cs" using conn_inv_lists(1) [OF t(1)] by simp
    have "socket_fd (clients cn' y) = socket_fd (clients (conn F) y)" if "y \<in> set cs" for y
      by (rule only_client_preds(4) [OF t(3)]) (use sp(3) that in auto)
    then have "idle_fds (F\<lparr>conn := cn'\<rparr>) rd wr (set cs)" using l(3) rw by (simp add: idle_fds_def)
    from follows_PassingI [OF ah lf' sp(1) this] io show ?thesis by blast
  qed
qed

lemma follows_unlock:
  assumes f: "follows cap cb penv srv s0 (Passing it None, F)" and table: "table_complete (plugin_functions srv)"
  shows "follows cap cb penv srv s0 (Between, F\<lparr>selected := None\<rparr>)"
proof -
  from f obtain rd wr rest G cs where "ahead cap cb penv srv s0 it rd wr rest G F"
    and "None = first_or None (rest @ cs)" unfolding follows.simps by blast
  moreover from this(2) have "rest = []" using first_or_None_iff [of "rest @ cs"] by simp
  ultimately have "ahead cap cb penv srv s0 it rd wr [] G F" by simp
  then obtain s1 where run: "(server_step cb penv srv)\<^sup>*\<^sup>* s0 s1" "selected s1 = Some (rd, wr)"
      "env_ok (os_env.truncate it)" "accepted_ok (conn s1) (used_objects (client_pool (conn s1))) (os_accept it)"
      "G = s1\<lparr>conn := conn G\<rparr>" "after_select cb it rd wr (conn s1) = io_walk cb (os_env.truncate it) rd wr (conn G) None"
    and mv: "moves cb penv srv G F" by (auto simp: ahead_def)
  have "after_select cb it rd wr (conn s1) = Some (conn G)" unfolding run(6) by (subst io_walk.simps) simp
  from server_step.serve [OF run(2-4) this]
  have "server_step cb penv srv s1 (s1\<lparr>conn := conn G, selected := None\<rparr>)" .
  moreover have "s1\<lparr>conn := conn G, selected := None\<rparr> = G\<lparr>selected := None\<rparr>" by (subst (2) run(5)) simp
  ultimately have "(server_step cb penv srv)\<^sup>*\<^sup>* s0 (G\<lparr>selected := None\<rparr>)"
    using run(1) by (metis rtranclp.rtrancl_into_rtrancl)
  with moves_run [OF mv, of None] show ?thesis by simp
qed

end

section \<open>The two granularities agree\<close>

abbreviation lock_run ::
  "'b char_buffer_ops \<Rightarrow> 'p plugin_env \<Rightarrow> fence_server \<Rightarrow> stage \<times> ('b, 'p) server_system \<Rightarrow>
   stage \<times> ('b, 'p) server_system \<Rightarrow> bool" where
  "lock_run cb penv srv \<equiv> (lock_step cb penv srv)\<^sup>*\<^sup>*"

lemma walk_locks:
  assumes walk: "io_walk cb (os_env.truncate it) rd wr cn p = Some cn'" and sel: "selected s = Some (rd, wr)"
  shows "lock_run cb penv srv (Passing it p, s\<lparr>conn := cn\<rparr>) (Passing it None, s\<lparr>conn := cn'\<rparr>)"
proof -
  let ?P = "\<lambda>cb' env rd' wr' cn p cn'. cb' = cb \<and> env = os_env.truncate it \<and> rd' = rd \<and> wr' = wr \<longrightarrow>
    lock_run cb penv srv (Passing it p, s\<lparr>conn := cn\<rparr>) (Passing it None, s\<lparr>conn := cn'\<rparr>)"
  have "?P cb (os_env.truncate it) rd wr cn p cn'"
  proof (rule io_walk.raw_induct [OF _ walk, where P = ?P])
    fix loop cb' env rd' wr' cn p cn'
    assume IH: "\<And>cb' env rd' wr' cn p cn'. loop cb' env rd' wr' cn p = Some cn' \<Longrightarrow> ?P cb' env rd' wr' cn p cn'"
      and body: "(case p of None \<Rightarrow> Some cn
        | Some c \<Rightarrow>
            let next_client = get_next_node (clients cn) c
            in case client_io cb' env rd' wr' cn c of None \<Rightarrow> None
               | Some cn \<Rightarrow> loop cb' env rd' wr' cn next_client) = Some cn'"
    show "?P cb' env rd' wr' cn p cn'"
    proof (cases p)
      case None
      with body show ?thesis by simp
    next
      case (Some c)
      with body obtain cn1 where io: "client_io cb' env rd' wr' cn c = Some cn1"
        and rest: "loop cb' env rd' wr' cn1 (get_next_node (clients cn) c) = Some cn'"
        by (auto simp: Let_def split: option.splits)
      show ?thesis
      proof
        assume e: "cb' = cb \<and> env = os_env.truncate it \<and> rd' = rd \<and> wr' = wr"
        then have "lock_step cb penv srv (Passing it (Some c), s\<lparr>conn := cn\<rparr>)
            (Passing it (get_next_node (clients cn) c), s\<lparr>conn := cn1\<rparr>)"
          using lock_step.turn [of "s\<lparr>conn := cn\<rparr>" rd wr cb it c cn1] io sel by simp
        moreover have "lock_run cb penv srv (Passing it (get_next_node (clients cn) c), s\<lparr>conn := cn1\<rparr>)
            (Passing it None, s\<lparr>conn := cn'\<rparr>)" using IH [OF rest] e by blast
        ultimately show "lock_run cb penv srv (Passing it p, s\<lparr>conn := cn\<rparr>) (Passing it None, s\<lparr>conn := cn'\<rparr>)"
          unfolding Some by (rule converse_rtranclp_into_rtranclp)
      qed
    qed
  qed
  then show ?thesis by simp
qed

context char_buffer begin

lemma serve_locks:
  assumes inv: "system_inv cap s xs ys W L" and sel: "selected s = Some (rd, wr)"
    and it: "env_ok (os_env.truncate it)" "accepted_ok (conn s) (used_objects (client_pool (conn s))) (os_accept it)"
    and eq: "after_select cb it rd wr (conn s) = Some cn'"
  shows "lock_run cb penv srv (Between, s) (Between, s\<lparr>conn := cn', selected := None\<rparr>)"
proof -
  define cn where "cn = draining rd (accepting cb it rd (conn s))"
  have "after_select cb it rd wr (conn s) = io_pass cb (os_env.truncate it) rd wr cn"
    by (rule serve_accepts [OF inv sel it(2) cn_def])
  with eq have walk: "io_walk cb (os_env.truncate it) rd wr cn (get_first (com_queue cn)) = Some cn'"
    by (simp add: io_pass_def)
  have "lock_step cb penv srv (Between, s) (Drained it, s\<lparr>conn := cn\<rparr>)"
    unfolding cn_def by (rule lock_step.accept [OF sel it])
  moreover have "lock_step cb penv srv (Drained it, s\<lparr>conn := cn\<rparr>)
      (Passing it (get_first (com_queue cn)), s\<lparr>conn := cn\<rparr>)"
    using lock_step.lock [of cb penv srv it "s\<lparr>conn := cn\<rparr>"] by simp
  moreover note walk_locks [OF walk sel, of penv srv]
  moreover have "lock_step cb penv srv (Passing it None, s\<lparr>conn := cn'\<rparr>) (Between, s\<lparr>conn := cn', selected := None\<rparr>)"
    using lock_step.unlock [of cb penv srv it "s\<lparr>conn := cn'\<rparr>"] by simp
  ultimately show ?thesis
    by (meson converse_rtranclp_into_rtranclp rtranclp.rtrancl_into_rtrancl)
qed

lemma server_step_locks:
  assumes step: "server_step cb penv srv s s'" and inv: "system_inv cap s xs ys W L"
  shows "lock_run cb penv srv (Between, s) (Between, s')"
proof (cases "selected s' = selected s \<or> selected s = None")
  case True
  from lock_step.outside [OF step this] show ?thesis by blast
next
  case False
  from step show ?thesis
  proof cases
    case (serve rd wr it cn')
    show ?thesis unfolding serve(1) by (rule serve_locks [OF inv serve(2-5)])
  qed (use False in auto)
qed

lemma lock_run_follows:
  assumes run: "lock_run cb penv srv (Between, s0) st" and table: "table_complete (plugin_functions srv)"
    and start: "system_inv cap s0 xs ys W L"
  shows "follows cap cb penv srv s0 st"
  using run
proof (induction rule: rtranclp_induct)
  case (step st st')
  have reach: "\<exists>xs ys W L. system_inv cap s xs ys W L" if "(server_step cb penv srv)\<^sup>*\<^sup>* s0 s" for s
    using reachable_inv [OF char_buffer_axioms table start that] by blast
  from step.hyps(2) step.IH show ?case
  proof cases
    case (outside s s')
    with step.IH show ?thesis by (auto intro: rtranclp.rtrancl_into_rtrancl)
  next
    case (accept s rd wr it)
    with step.IH have "(server_step cb penv srv)\<^sup>*\<^sup>* s0 s" by simp
    with reach [OF this] accept follows_accept show ?thesis by blast
  next
    case (aside s s' it)
    with step.IH follows_aside [OF _ table] show ?thesis by blast
  next
    case (lock it s)
    with step.IH follows_lock [OF _ table] show ?thesis by blast
  next
    case (within s s' it p)
    with step.IH follows_within [OF _ table] show ?thesis by blast
  next
    case (turn s rd wr it c cn')
    with step.IH have "follows cap cb penv srv s0 (Passing it (Some c), s)" by simp
    from follows_turn [OF this table turn(3)] turn show ?thesis by auto
  next
    case (unlock it s)
    with step.IH follows_unlock [OF _ table] show ?thesis by blast
  qed
qed simp

end

section \<open>Properties\<close>

text \<open>
  Property C9. Taking an iteration of the selector as one step loses no behaviour: with the
  accepted connection, the taking of \<open>com_queue_lock\<close> and every client's turn as steps of their own,
  and workers and the stop signal between them wherever the locks let them, the server reaches
  between two iterations exactly the states it reaches when an iteration is one step, as long as no
  worker closes a connection inside an iteration. And whatever happens in between, the pass never
  tests an invalid descriptor.
\<close>

theorem passes_may_be_interleaved:
  assumes cb: "char_buffer cb cap" and table: "table_complete (plugin_functions srv)"
    and g: "IO_BUFFER_SIZE \<le> length garbage"
    and fds: "valid_select_fd sfd" "valid_select_fd rfd" "sfd \<noteq> rfd"
    and s0: "s0 = start_system (started_connector cb garbage d sh sfd rfd wfd) p0"
  shows "(lock_run cb penv srv (Between, s0) (Between, s) \<longleftrightarrow> (server_step cb penv srv)\<^sup>*\<^sup>* s0 s) \<and>
    (lock_run cb penv srv (Between, s0) (Passing it (Some c), s) \<longrightarrow>
      (\<exists>rd wr cn'. selected s = Some (rd, wr) \<and> client_io cb (os_env.truncate it) rd wr (conn s) c = Some cn'))"
proof (intro conjI impI iffI)
  have start: "system_inv cap s0 [] [] {} {}" unfolding s0 by (rule start_system_inv [OF cb g fds])
  note follows = char_buffer.lock_run_follows [OF cb _ table start]
  show "(server_step cb penv srv)\<^sup>*\<^sup>* s0 s" if "lock_run cb penv srv (Between, s0) (Between, s)"
    using follows [OF that] by simp
  show "lock_run cb penv srv (Between, s0) (Between, s)" if "(server_step cb penv srv)\<^sup>*\<^sup>* s0 s"
    using that
  proof (induction rule: rtranclp_induct)
    case (step s1 s2)
    from reachable_inv [OF cb table start step.hyps(1)] char_buffer.server_step_locks [OF cb step.hyps(2)] step.IH
    show ?case by (meson rtranclp_trans)
  qed simp
  show "\<exists>rd wr cn'. selected s = Some (rd, wr) \<and> client_io cb (os_env.truncate it) rd wr (conn s) c = Some cn'"
    if run: "lock_run cb penv srv (Between, s0) (Passing it (Some c), s)"
  proof -
    note f = follows [OF run]
    then obtain rd wr rest G where a: "ahead cap cb penv srv s0 it rd wr rest G s" by auto
    obtain xs ys W L where "selected s = Some (rd, wr)" by (rule char_buffer.ahead_mid [OF cb a table])
    with char_buffer.follows_turn [OF cb f table] show ?thesis by blast
  qed
qed

theorem passes_may_be_interleaved_witness:
  "\<exists>s. lock_run bounded_ops sample_env sample_server (Between, sample_state) (Between, s) \<and>
    plugin s = [(13, Some 9, ascii ''n1'')]"
proof -
  from sample_exchange obtain s t where run: "recorded_run bounded_ops sample_env sample_server sample_launch (s, t)"
    and pl: "plugin s = [(13, Some 9, ascii ''n1'')]" by blast
  have "(server_step bounded_ops sample_env sample_server)\<^sup>*\<^sup>* sample_state s"
    using recorded_run_erase [OF run] by simp
  with passes_may_be_interleaved [OF bounded.char_buffer_axioms sample_start_ok(1-5) refl, of sample_env] pl
  show ?thesis by blast
qed

end
