(* ===== verification/Spec2Isabelle.thy ===== *)
theory Spec2Isabelle
  imports Worker_Run Reachable_States Worker_Pool Fence_Log Fencing_Confirmed Call_Audit Pass_Interleaving
begin

text \<open>
  The Universal Fencing Hub: a client that a cluster manager starts to switch a node off, on or
  to reboot it, and a server that takes such requests over TCP and calls the function of a
  plugin for them. The development models both programs, down to the bytes of the protocol,
  the queues and locks of the server and the exit codes.

  \<^bold>\<open>How the parts interact.\<close> The client (Client.cpp) reads its parameters from standard input,
  connects, sends one request (a header of four bytes and fields ``key=value'') and ends with
  an exit code that the reply decides. The server (server_main.cpp, Server.cpp) reads its
  parameters from the command line, loads the plugin, and runs the connector
  (ServerConnector.cpp): the selector thread accepts connections, receives requests and sends
  replies without blocking, worker threads (WorkerPool.cpp) execute complete requests. Clients
  move between a pool (GenAlloc.h), the com queue and the action queue (Queue.h). A signal
  handler (SignalHandler.cpp) ends the selector loop.

  \<^bold>\<open>Foundations.\<close> Prelude: bytes, \<open>size_t\<close>, \<open>zero_memory\<close>, outcomes of code that may throw
  or be undefined, decimal digits. Exceptions: exceptions.h and its relatives as one datatype.
  System_Calls: descriptors, \<open>close_fd\<close>, the sets of \<open>select\<close>, results of \<open>recv\<close> and \<open>send\<close>.
  Char_Buffer: the string class of an external library as a record of its operations, with
  its contract as the locale \<open>char_buffer\<close>, interpreted on bounded byte strings.

  \<^bold>\<open>Protocol.\<close> Msg_Header (MsgHeader.cpp): the header and its wire form; lemmas on the round
  trip. Protocol_Fields (Shared.cpp): \<open>read_field\<close>, \<open>write_field\<close> and
  \<open>split_key_value_pair\<close>; exactness, bounds and round trips, over the locale \<open>field_codec\<close>.

  \<^bold>\<open>Containers.\<close> Node_Queue (Queue.h): the intrusive list over a store of nodes, against lists
  of nodes (locale \<open>intrusive_queue\<close>). Gen_Alloc (GenAlloc.h): the pool, against the set of
  objects in use (locale \<open>object_pool\<close>).

  \<^bold>\<open>Server.\<close> Signal_Handler: the operations and the handler as instructions on signal masks and
  a mutex, threads as stacks of frames that a signal may interrupt anywhere; no handler runs on
  top of code that holds the lock. Fence_Server (plugin_loader.cpp, Server.cpp): loading the
  plugin and the three actions; which libraries stay open.
  Net_Client and Fence_Requests (ServerConnector.cpp): one connection and the execution of a
  request. Request_Parsing: the language of request bodies as a parser on bytes, and that
  \<open>fence_action\<close> decides every body, well-formed or not, as the parser does.
  Server_Connector: accepting, receiving, sending, the selector loop, the workers'
  function and the shutdown. Message_Framing: messages from any splitting of the stream.
  Connector_Inv, Selector_Inv, Worker_Inv: the invariant of the connector and that each
  operation keeps it. Server_System: selector, workers and stop signal as interleaved steps,
  the invariant by rule induction. Pass_Interleaving cuts an iteration of the selector into the
  accepted connection, the taking of the lock and the turns of the clients, with workers in
  between, and shows by commuting steps that the same states are reached. Reachable_States:
  where the clients are in every reachable state and which steps lose one, and that the next
  calls are defined. Connection_Loss: what goes wrong when a worker closes a connection, when
  \<open>accept\<close> fails and at the shutdown. Worker_Run: a worker's whole run, which ends at the first
  request that throws. Worker_Pool (WorkerPool.cpp): threads, two mutexes and the condition
  variable as steps of control points; mutual exclusion, wakeups, progress, and termination by
  a measure, for runs in which no request that was taken has thrown. Server_Run: opening the sockets, \<open>Server::run\<close> with its
  destructors and handlers, and \<open>main\<close>. Fence_Log: the reports of the fencing actions on standard
  output, that a log of them can be read back as long as no node name has a newline, and how a
  name that has one forges reports.

  \<^bold>\<open>Parameters and addresses.\<close> Arguments (Arguments.cpp): the table of arguments over the tree
  of an external library (locale \<open>key_tree\<close>), and its refinement of a finite map (locale
  \<open>argument_table\<close>, interpreted on sorted association lists). Parameters
  (ServerParameters.cpp, ClientParameters.cpp): reading the command line and standard input.
  Ip_Parse (ip_parse.cpp): socket addresses from text.

  \<^bold>\<open>Client.\<close> Client_Connector (ClientConnector.cpp): connecting and one exchange over a
  blocking socket; the locale \<open>stream_socket\<close> says what a connected socket does, and is
  interpreted on a peer that is any function from the bytes sent to the bytes answered.
  Client_Meta_Data: the metadata text. Fence_Client (Client.cpp): dispatch and exit code.

  \<^bold>\<open>Both together.\<close> End_To_End puts one connection of the server behind the client's socket:
  the client returns what the plugin answers. Server_Traffic adds to the steps of Server_System a
  record of what each connection has received and been sent and of the plugin calls between, and
  proves by rule induction that every answer belongs to the request on its connection, whatever
  the interleaving. Request_Served: from every idle state of a reachable server, whatever its
  clients have done, there is a run that serves a given request. Call_Audit keeps the messages received whole
  and those executed as two lists: the state of the plugin is what the executed ones make of it,
  and none is executed more often than it was received. Fencing_Confirmed joins it with
  the whole client process: exit code 0 means that the plugin was called for the node of the
  client's input and succeeded.

  \<^bold>\<open>Bounds and fuel.\<close> Loops with a measure are functions. The loops that need not end
  (\<open>process_action_queue\<close>, the two loops of the shutdown, the client's \<open>send\<close> and \<open>recv\<close> loops)
  are partial functions, where \<open>None\<close> is not returning; that they return, or do not, is
  proved. The selector loop runs over a list of iterations, one entry for each return of
  \<open>select\<close>, and Server_System has no bound. \<open>receive_all\<close> and \<open>send_all\<close> take a list with one
  entry for each call; 1024 entries are enough, since a call moves at least one byte and no
  message is longer than the buffer. Lists of results of interrupted system calls end with the
  call that is not interrupted.

  \<^bold>\<open>Parameters of the model.\<close> The string and tree libraries, \<open>inet_pton\<close>, the number parser,
  the dynamic loader, the plugin and the system calls are arguments of the definitions. What
  is assumed of them is the locales above, and that a call on a closed descriptor fails
  (\<open>calls_fail_on_closed\<close>).

  \<^bold>\<open>Not modelled.\<close> Running out of memory (\<open>std::bad_alloc\<close> is a constructor of the exceptions,
  but no allocation of the model throws it, except where it is given as a result); the log
  output of the server to standard output, except for the fencing reports; destructors that only
  free memory; the copy and move operations the programs do not use, except the moves of a worker
  pool and of an object pool. Calls of the plugin by two workers that overlap in time: a call is
  one step. What a thread does after undefined behaviour. In Server_Run the selector loop with the workers
  beside it is a parameter, because its interleavings are the subject of Server_System and
  Worker_Pool; End_To_End follows one connection, whose client no other connection touches
  by the invariant of Server_System.
\<close>

end
